(* ===== verification/Prelude.thy ===== *)
theory Prelude
  imports
    Main
    "HOL-Library.Word"
    "HOL-Library.Sublist"
    "HOL-Library.Char_ord"
    "HOL-Library.List_Lexorder"
begin

text \<open>
  What every theory of the development shares: the machine types, Rust's
  \<open>Result\<close> as a sum, strings as their UTF-8 bytes with the operations of
  \<open>str\<close> the code calls (split, join, trim, decimal printing and parsing),
  and hash maps as association lists whose list order stands for the
  unspecified iteration order of \<open>std::collections::HashMap\<close>.

  A Rust \<open>String\<close> is a \<open>string\<close> here, one \<open>char\<close> per UTF-8
  byte. Rust compares, splits and prefixes strings bytewise, so the byte view
  is exact; the one operation that looks at code points, \<open>trim\<close>, decodes
  the white-space code points from their UTF-8 bytes (\<open>is_blank\<close>).
\<close>

named_theorems key_simps \<open>store keys: printing, parsing and ordering\<close>
named_theorems step_simps \<open>unfolding of handlers and step functions\<close>

section \<open>Machine types and results\<close>

type_synonym u8 = "8 word"
type_synonym u32 = "32 word"
type_synonym u64 = "64 word"
type_synonym bytes = "8 word list"

text \<open>\<open>std::time::Duration\<close> in nanoseconds.\<close>

type_synonym duration = nat

text \<open>\<open>Result::map_err\<close> and the \<open>?\<close> operator's sequencing.\<close>

fun map_err :: "('e \<Rightarrow> 'f) \<Rightarrow> 'e + 'a \<Rightarrow> 'f + 'a" where
  "map_err f (Inl e) = Inl (f e)"
| "map_err f (Inr x) = Inr x"

fun ok :: "'e + 'a \<Rightarrow> 'a option" where
  "ok (Inl e) = None"
| "ok (Inr x) = Some x"

fun is_ok :: "'e + 'a \<Rightarrow> bool" where
  "is_ok (Inl e) = False"
| "is_ok (Inr x) = True"

lemma unat_u64_less: "unat (k :: u64) < 2 ^ 64"
  using unsigned_less [of k, where 'a = nat] by simp

lemma map_err_Inr_iff [simp]: "map_err f r = Inr x \<longleftrightarrow> r = Inr x"
  by (cases r) auto

lemma is_ok_map_err [simp]: "is_ok (map_err f r) = is_ok r"
  by (cases r) auto

lemma option_eqI_if:
  assumes "\<And>v. a = Some v \<longleftrightarrow> P \<and> b = Some v"
  shows "a = (if P then b else None)"
  using assms by (metis not_None_eq)

section \<open>Strings\<close>

text \<open>\<open>str::split\<close> on a one-byte separator: always at least one piece.\<close>

fun split_on :: "char \<Rightarrow> string \<Rightarrow> string list" where
  "split_on c [] = [[]]"
| "split_on c (x # xs) =
     (if x = c then [] # split_on c xs
      else (case split_on c xs of [] \<Rightarrow> [[x]] | w # ws \<Rightarrow> (x # w) # ws))"

text \<open>\<open>[String]::join\<close>.\<close>

fun join_with :: "string \<Rightarrow> string list \<Rightarrow> string" where
  "join_with sep [] = []"
| "join_with sep [w] = w"
| "join_with sep (w # v # ws) = w @ sep @ join_with sep (v # ws)"

text \<open>
  \<open>s.trim().is_empty()\<close>: every code point of \<open>s\<close> has the Unicode property
  White\_Space. On the UTF-8 bytes: U+0009..U+000D and U+0020 are one byte;
  U+0085, U+00A0 are C2 85, C2 A0; U+1680 is E1 9A 80; U+2000..U+200A, U+2028,
  U+2029 and U+202F are E2 80 80..8A, A8, A9, AF; U+205F is E2 81 9F; U+3000 is
  E3 80 80.
\<close>

definition ws1 :: "nat \<Rightarrow> bool" where
  "ws1 a \<longleftrightarrow> (9 \<le> a \<and> a \<le> 13) \<or> a = 32"

definition ws2 :: "nat \<Rightarrow> nat \<Rightarrow> bool" where
  "ws2 a b \<longleftrightarrow> a = 194 \<and> (b = 133 \<or> b = 160)"

definition ws3 :: "nat \<Rightarrow> nat \<Rightarrow> nat \<Rightarrow> bool" where
  "ws3 a b c \<longleftrightarrow>
     (a = 225 \<and> b = 154 \<and> c = 128)
   \<or> (a = 226 \<and> b = 128 \<and> ((128 \<le> c \<and> c \<le> 138) \<or> c = 168 \<or> c = 169 \<or> c = 175))
   \<or> (a = 226 \<and> b = 129 \<and> c = 159)
   \<or> (a = 227 \<and> b = 128 \<and> c = 128)"

fun blank_codes :: "nat list \<Rightarrow> bool" where
  "blank_codes [] = True"
| "blank_codes (a # xs) =
     (if ws1 a then blank_codes xs
      else (case xs of
        [] \<Rightarrow> False
      | b # ys \<Rightarrow>
          if ws2 a b then blank_codes ys
          else (case ys of
            [] \<Rightarrow> False
          | c # zs \<Rightarrow> if ws3 a b c then blank_codes zs else False)))"

definition is_blank :: "string \<Rightarrow> bool" where
  "is_blank s = blank_codes (map of_char s)"

lemma split_on_not_Nil [simp]: "split_on c s \<noteq> []"
  by (induction s) (auto split: list.splits)

lemma split_on_no_sep: "w \<in> set (split_on c s) \<Longrightarrow> c \<notin> set w"
  by (induction s arbitrary: w) (auto split: list.splits if_splits)

lemma split_on_plain: "c \<notin> set s \<Longrightarrow> split_on c s = [s]"
  by (induction s) auto

lemma split_on_append_sep: "c \<notin> set w \<Longrightarrow> split_on c (w @ c # s) = w # split_on c s"
  by (induction w) auto

lemma split_on_append: "split_on c (v @ c # s) = split_on c v @ split_on c s"
  by (induction v) (auto split: list.splits)

lemma last_split_on_append: "c \<notin> set s \<Longrightarrow> last (split_on c (v @ c # s)) = s"
  by (simp add: split_on_append split_on_plain)

lemma split_on_join:
  "ws \<noteq> [] \<Longrightarrow> \<forall>w \<in> set ws. c \<notin> set w \<Longrightarrow> split_on c (join_with [c] ws) = ws"
  by (induction ws rule: induct_list012) (auto simp: split_on_plain split_on_append_sep)

lemma is_blank_Nil [simp]: "is_blank []"
  by (simp add: is_blank_def)

section \<open>Decimal numbers\<close>

definition digit_char :: "nat \<Rightarrow> char" where
  "digit_char d = char_of (48 + d)"

definition digit_val :: "char \<Rightarrow> nat" where
  "digit_val c = of_char c - 48"

definition is_digit :: "char \<Rightarrow> bool" where
  "is_digit c \<longleftrightarrow> 48 \<le> (of_char c :: nat) \<and> (of_char c :: nat) \<le> 57"

text \<open>\<open>Display\<close> of an unsigned integer.\<close>

fun dec_digits :: "nat \<Rightarrow> string" where
  "dec_digits n =
     (if n < 10 then [digit_char n] else dec_digits (n div 10) @ [digit_char (n mod 10)])"

declare dec_digits.simps [simp del]

text \<open>The format directive \<open>{:0w}\<close>: zeros on the left up to width \<open>w\<close>.\<close>

definition pad0 :: "nat \<Rightarrow> nat \<Rightarrow> string" where
  "pad0 w n = (let ds = dec_digits n in replicate (w - length ds) (CHR ''0'') @ ds)"

definition dec_val :: "string \<Rightarrow> nat" where
  "dec_val s = foldl (\<lambda>a c. 10 * a + digit_val c) 0 s"

text \<open>
  \<open>str::parse::<u64>\<close>: an optional \<open>+\<close>, at least one digit, no other
  character, and a value that fits 64 bits.
\<close>

definition parse_u64 :: "string \<Rightarrow> u64 option" where
  "parse_u64 s =
     (let ds = (case s of [] \<Rightarrow> [] | c # r \<Rightarrow> if c = CHR ''+'' then r else s)
      in if ds = [] \<or> \<not> list_all is_digit ds then None
         else if dec_val ds < 2 ^ 64 then Some (of_nat (dec_val ds)) else None)"

lemma of_char_digit [simp]: "d < 10 \<Longrightarrow> of_char (digit_char d) = 48 + d"
  by (simp add: digit_char_def)

lemma digit_val_char [simp]: "d < 10 \<Longrightarrow> digit_val (digit_char d) = d"
  by (simp add: digit_val_def)

lemma is_digit_char [simp]: "d < 10 \<Longrightarrow> is_digit (digit_char d)"
  by (simp add: is_digit_def)

lemma digit_val_less: "is_digit c \<Longrightarrow> digit_val c < 10"
  by (auto simp: is_digit_def digit_val_def)

lemma is_digit_0 [simp]: "is_digit (CHR ''0'')" and digit_val_0 [simp]: "digit_val (CHR ''0'') = 0"
  by (simp_all add: is_digit_def digit_val_def)

lemma dec_digits_not_Nil [simp]: "dec_digits n \<noteq> []"
  by (subst dec_digits.simps) simp

lemma dec_digits_digits: "list_all is_digit (dec_digits n)"
proof (induction n rule: dec_digits.induct)
  case (1 n)
  then show ?case by (subst dec_digits.simps) auto
qed

lemma dec_val_snoc: "dec_val (s @ [c]) = 10 * dec_val s + digit_val c"
  by (simp add: dec_val_def)

lemma dec_val_dec_digits [simp]: "dec_val (dec_digits n) = n"
proof (induction n rule: dec_digits.induct)
  case (1 n)
  show ?case
  proof (cases "n < 10")
    case True
    then show ?thesis by (subst dec_digits.simps) (simp add: dec_val_def)
  next
    case False
    with 1 have "dec_val (dec_digits (n div 10)) = n div 10" by simp
    with False show ?thesis by (subst dec_digits.simps) (simp add: dec_val_snoc)
  qed
qed

lemma dec_val_append: "dec_val (a @ b) = dec_val a * 10 ^ length b + dec_val b"
proof (induction b rule: rev_induct)
  case (snoc c b)
  have "dec_val ((a @ b) @ [c]) = 10 * dec_val (a @ b) + digit_val c"
    by (rule dec_val_snoc)
  then show ?case by (simp add: snoc dec_val_snoc algebra_simps)
qed (simp add: dec_val_def)

lemma dec_val_Cons: "dec_val (c # s) = digit_val c * 10 ^ length s + dec_val s"
  using dec_val_append [of "[c]" s] by (simp add: dec_val_def)

lemma dec_val_replicate_0 [simp]: "dec_val (replicate k (CHR ''0'')) = 0"
  by (induction k) (auto simp: dec_val_Cons, simp add: dec_val_def)

lemma dec_val_pad0 [simp]: "dec_val (pad0 w n) = n"
  by (simp add: pad0_def Let_def dec_val_append)

lemma lead_digit_less:
  assumes "(i::nat) < j" and "a < b"
  shows "i * b + a < j * b + c"
proof -
  have "i * b + a < (i + 1) * b" using assms(2) by simp
  also have "\<dots> \<le> j * b" using assms(1) by (intro mult_le_mono1) simp
  finally show ?thesis by simp
qed

lemma dec_val_less: "list_all is_digit s \<Longrightarrow> dec_val s < 10 ^ length s"
proof (induction s)
  case Nil
  then show ?case by (simp add: dec_val_def)
next
  case (Cons c s)
  then have "digit_val c < 10" and "dec_val s < 10 ^ length s"
    using digit_val_less [of c] by auto
  from lead_digit_less [OF this, of 0] show ?case
    by (simp add: dec_val_Cons)
qed

lemma length_dec_digits_le: "0 < w \<Longrightarrow> n < 10 ^ w \<Longrightarrow> length (dec_digits n) \<le> w"
proof (induction n arbitrary: w rule: dec_digits.induct)
  case (1 n)
  show ?case
  proof (cases "n < 10")
    case True
    with 1 show ?thesis by (subst dec_digits.simps) simp
  next
    case False
    then obtain v where w: "w = Suc v" "0 < v"
      using "1.prems" by (cases w; cases "w - 1") auto
    then have "n div 10 < 10 ^ v"
      using "1.prems" by (simp add: less_mult_imp_div_less mult.commute)
    with False w have "length (dec_digits (n div 10)) \<le> v"
      using "1.IH" by blast
    with False w show ?thesis by (subst dec_digits.simps) simp
  qed
qed

lemma length_pad0: "0 < w \<Longrightarrow> n < 10 ^ w \<Longrightarrow> length (pad0 w n) = w"
  using length_dec_digits_le [of w n] by (simp add: pad0_def Let_def)

lemma pad0_digits: "list_all is_digit (pad0 w n)"
  by (auto simp: pad0_def Let_def dec_digits_digits list_all_iff)
    (use dec_digits_digits in \<open>auto simp: list_all_iff\<close>)

lemma pad0_not_Nil [simp]: "pad0 w n \<noteq> []"
  by (simp add: pad0_def Let_def)

lemma parse_u64_digits:
  assumes "ds \<noteq> []" and "list_all is_digit ds" and "dec_val ds < 2 ^ 64"
  shows "parse_u64 ds = Some (of_nat (dec_val ds))"
proof -
  have "hd ds \<noteq> CHR ''+''"
    using assms(1,2) by (cases ds) (auto simp: is_digit_def)
  with assms show ?thesis
    by (cases ds) (auto simp: parse_u64_def Let_def)
qed

lemma parse_u64_pad0 [key_simps]: "parse_u64 (pad0 w (unat k)) = Some k"
proof -
  have "unat k < 2 ^ 64" by (rule unat_u64_less)
  then show ?thesis
    by (simp add: parse_u64_digits pad0_digits)
qed

lemma pad0_inject [simp]: "pad0 w m = pad0 w n \<longleftrightarrow> m = n"
  by (metis dec_val_pad0)

text \<open>Digit strings of one length compare as their values do.\<close>

lemma digit_less_iff: "is_digit c \<Longrightarrow> is_digit d \<Longrightarrow> c < d \<longleftrightarrow> digit_val c < digit_val d"
  by (auto simp: less_char_def is_digit_def digit_val_def)

lemma digit_eq_iff: "is_digit c \<Longrightarrow> is_digit d \<Longrightarrow> c = d \<longleftrightarrow> digit_val c = digit_val d"
  using digit_less_iff [of c d] digit_less_iff [of d c] by (metis less_irrefl linorder_neqE)

lemma digits_less_iff:
  assumes "length a = length b" and "list_all is_digit a" and "list_all is_digit b"
  shows "a < b \<longleftrightarrow> dec_val a < dec_val b"
  using assms
proof (induction a b rule: list_induct2)
  case Nil
  then show ?case by simp
next
  case (Cons c a d b)
  note bounds = dec_val_less [of a] dec_val_less [of b]
  consider "digit_val c < digit_val d" | "c = d" | "digit_val d < digit_val c"
    using Cons.prems digit_eq_iff [of c d] by fastforce
  then show ?case
  proof cases
    case 1
    then have "dec_val (c # a) < dec_val (d # b)"
      using lead_digit_less [OF 1, of "dec_val a" "10 ^ length a" "dec_val b"] bounds Cons
      by (simp add: dec_val_Cons)
    with 1 Cons.prems show ?thesis by (simp add: digit_less_iff)
  next
    case 2
    with Cons show ?thesis by (simp add: dec_val_Cons)
  next
    case 3
    then have "dec_val (d # b) < dec_val (c # a)"
      using lead_digit_less [OF 3, of "dec_val b" "10 ^ length b" "dec_val a"] bounds Cons
      by (simp add: dec_val_Cons)
    moreover have "\<not> c < d" "c \<noteq> d"
      using 3 Cons.prems by (auto simp: digit_less_iff)
    ultimately show ?thesis by simp
  qed
qed

lemma pad0_less_iff:
  assumes "0 < w" and "m < 10 ^ w" and "n < 10 ^ w"
  shows "pad0 w m < pad0 w n \<longleftrightarrow> m < n"
  using assms by (simp add: digits_less_iff length_pad0 pad0_digits)

lemma append_less_iff [simp]: "(p @ a < p @ b) \<longleftrightarrow> a < (b :: 'a :: linorder list)"
  by (induction p) auto

section \<open>Maps\<close>

text \<open>
  A \<open>HashMap\<close> is an association list: \<open>map_of\<close> looks up, \<open>hm_insert\<close>
  and \<open>hm_remove\<close> write. The order of the list is the order in which
  \<open>keys()\<close> and \<open>values()\<close> happen to iterate; no result of the
  development depends on where an insertion goes.
\<close>

definition hm_remove :: "'k \<Rightarrow> ('k \<times> 'v) list \<Rightarrow> ('k \<times> 'v) list" where
  "hm_remove k m = filter (\<lambda>p. fst p \<noteq> k) m"

definition hm_insert :: "'k \<Rightarrow> 'v \<Rightarrow> ('k \<times> 'v) list \<Rightarrow> ('k \<times> 'v) list" where
  "hm_insert k v m = (k, v) # hm_remove k m"

definition hm_contains :: "'k \<Rightarrow> ('k \<times> 'v) list \<Rightarrow> bool" where
  "hm_contains k m \<longleftrightarrow> k \<in> set (map fst m)"

definition hm_keys :: "('k \<times> 'v) list \<Rightarrow> 'k list" where
  "hm_keys m = map fst m"

lemma map_of_hm_remove [simp]: "map_of (hm_remove k m) = (map_of m)(k := None)"
  by (induction m) (auto simp: hm_remove_def fun_eq_iff)

lemma map_of_hm_insert [simp]: "map_of (hm_insert k v m) = (map_of m)(k \<mapsto> v)"
  by (auto simp: hm_insert_def fun_eq_iff)

lemma set_hm_keys_remove [simp]: "set (hm_keys (hm_remove k m)) = set (hm_keys m) - {k}"
  by (auto simp: hm_keys_def hm_remove_def)

lemma set_hm_keys_insert [simp]: "set (hm_keys (hm_insert k v m)) = insert k (set (hm_keys m))"
  by (auto simp: hm_insert_def hm_keys_def hm_remove_def)

lemma hm_contains_keys: "hm_contains k m \<longleftrightarrow> k \<in> set (hm_keys m)"
  by (simp add: hm_contains_def hm_keys_def)

lemma hm_contains_remove [simp]: "hm_contains j (hm_remove k m) \<longleftrightarrow> j \<noteq> k \<and> hm_contains j m"
  by (auto simp: hm_contains_keys)

lemma hm_contains_insert [simp]: "hm_contains j (hm_insert k v m) \<longleftrightarrow> j = k \<or> hm_contains j m"
  by (auto simp: hm_contains_keys)

lemma distinct_hm_keys_remove: "distinct (hm_keys m) \<Longrightarrow> distinct (hm_keys (hm_remove k m))"
  by (induction m) (auto simp: hm_keys_def hm_remove_def)

lemma distinct_hm_keys_insert: "distinct (hm_keys m) \<Longrightarrow> distinct (hm_keys (hm_insert k v m))"
  using distinct_hm_keys_remove [of m k]
  by (auto simp: hm_insert_def hm_keys_def hm_remove_def)

lemma map_of_eq_None_hm: "map_of m k = None \<longleftrightarrow> \<not> hm_contains k m"
  by (simp add: map_of_eq_None_iff hm_contains_def)

end
