(* ===== verification/Errors.thy ===== *)
theory Errors
  imports Prelude
begin

text \<open>
  The two error enums and their \<open>Display\<close> texts: \<open>actor::Error\<close>
  (\<open>actor/src/error.rs\<close>) with the context adapters of \<open>ResultExt\<close>,
  and \<open>store::Error\<close> (\<open>store/src/error.rs\<close>). The variants
  \<open>Fjall\<close> and \<open>Io\<close> wrap errors of other crates; they carry here the
  text those errors display as, which is all the code ever reads of them.
\<close>

section \<open>Actor errors\<close>

datatype actor_error =
    ActorNotFound string
  | Message string
  | StartActor string
  | CreateActor string
  | Event string
  | Supervision string
  | Serialization string
  | Deserialization string
  | Store string
  | RetryLimitExceeded
  | UnhandledMessage string
  | InvalidResponse

fun show_actor_error :: "actor_error \<Rightarrow> string" where
  "show_actor_error (ActorNotFound s) = ''Actor not found: '' @ s"
| "show_actor_error (Message s) = ''Failed to send message to actor: '' @ s"
| "show_actor_error (StartActor s) = ''Failed to start actor: '' @ s"
| "show_actor_error (CreateActor s) = ''Failed to create actor: '' @ s"
| "show_actor_error (Event s) = ''Sending event failed: '' @ s"
| "show_actor_error (Supervision s) = ''Supervision error: '' @ s"
| "show_actor_error (Serialization s) = ''Serialization error: '' @ s"
| "show_actor_error (Deserialization s) = ''Deserialization error: '' @ s"
| "show_actor_error (Store s) = ''Store error: '' @ s"
| "show_actor_error RetryLimitExceeded = ''Retry limit exceeded''"
| "show_actor_error (UnhandledMessage s) = ''Unhandled message: '' @ s"
| "show_actor_error InvalidResponse = ''Invalid response''"

text \<open>
  \<open>ResultExt\<close>: \<open>show\<close> is the \<open>Display\<close> of the error type being
  adapted; the new payload is \<open>"{context}: {err}"\<close>.
\<close>

definition with_context :: "('e \<Rightarrow> string) \<Rightarrow> string \<Rightarrow> 'e \<Rightarrow> string" where
  "with_context show context e = context @ '': '' @ show e"

definition actor_store :: "('e \<Rightarrow> string) \<Rightarrow> string \<Rightarrow> 'e + 'a \<Rightarrow> actor_error + 'a" where
  "actor_store show context r = map_err (\<lambda>e. Store (with_context show context e)) r"

definition actor_serialization :: "('e \<Rightarrow> string) \<Rightarrow> string \<Rightarrow> 'e + 'a \<Rightarrow> actor_error + 'a" where
  "actor_serialization show context r = map_err (\<lambda>e. Serialization (with_context show context e)) r"

definition actor_deserialization :: "('e \<Rightarrow> string) \<Rightarrow> string \<Rightarrow> 'e + 'a \<Rightarrow> actor_error + 'a" where
  "actor_deserialization show context r = map_err (\<lambda>e. Deserialization (with_context show context e)) r"

definition actor_message :: "('e \<Rightarrow> string) \<Rightarrow> string \<Rightarrow> 'e + 'a \<Rightarrow> actor_error + 'a" where
  "actor_message show context r = map_err (\<lambda>e. Message (with_context show context e)) r"

definition actor_event :: "('e \<Rightarrow> string) \<Rightarrow> string \<Rightarrow> 'e + 'a \<Rightarrow> actor_error + 'a" where
  "actor_event show context r = map_err (\<lambda>e. Event (with_context show context e)) r"

definition actor_create :: "('e \<Rightarrow> string) \<Rightarrow> string \<Rightarrow> 'e + 'a \<Rightarrow> actor_error + 'a" where
  "actor_create show context r = map_err (\<lambda>e. CreateActor (with_context show context e)) r"

definition actor_start :: "('e \<Rightarrow> string) \<Rightarrow> string \<Rightarrow> 'e + 'a \<Rightarrow> actor_error + 'a" where
  "actor_start show context r = map_err (\<lambda>e. StartActor (with_context show context e)) r"

definition actor_supervision :: "('e \<Rightarrow> string) \<Rightarrow> string \<Rightarrow> 'e + 'a \<Rightarrow> actor_error + 'a" where
  "actor_supervision show context r = map_err (\<lambda>e. Supervision (with_context show context e)) r"

section \<open>Store errors\<close>

datatype store_error =
    CreateStore string
  | Store string
  | Reading string
  | Writing string
  | Deleting string
  | EntryNotFound string
  | Serialization string
  | Fjall string
  | Io string

fun show_store_error :: "store_error \<Rightarrow> string" where
  "show_store_error (CreateStore s) = ''Create store: '' @ s"
| "show_store_error (store_error.Store s) = ''Store error: '' @ s"
| "show_store_error (Reading s) = ''Reading store error: '' @ s"
| "show_store_error (Writing s) = ''Writing store error: '' @ s"
| "show_store_error (Deleting s) = ''Deleting store error: '' @ s"
| "show_store_error (EntryNotFound s) = ''Entry not found: '' @ s"
| "show_store_error (store_error.Serialization s) = ''Serialization error: '' @ s"
| "show_store_error (Fjall s) = ''Fjall error: '' @ s"
| "show_store_error (Io s) = ''IO error: '' @ s"

section \<open>Lemmas\<close>

lemmas result_ext_defs =
  actor_store_def actor_serialization_def actor_deserialization_def actor_message_def
  actor_event_def actor_create_def actor_start_def actor_supervision_def

lemma result_ext_ok [simp]:
  "actor_store sh c r = Inr x \<longleftrightarrow> r = Inr x"
  "actor_serialization sh c r = Inr x \<longleftrightarrow> r = Inr x"
  "actor_deserialization sh c r = Inr x \<longleftrightarrow> r = Inr x"
  "actor_message sh c r = Inr x \<longleftrightarrow> r = Inr x"
  "actor_event sh c r = Inr x \<longleftrightarrow> r = Inr x"
  "actor_create sh c r = Inr x \<longleftrightarrow> r = Inr x"
  "actor_start sh c r = Inr x \<longleftrightarrow> r = Inr x"
  "actor_supervision sh c r = Inr x \<longleftrightarrow> r = Inr x"
  by (simp_all add: result_ext_defs)

lemma result_ext_simps [simp]:
  "actor_store sh c (Inr x) = Inr x"
  "actor_store sh c (Inl e) = Inl (actor_error.Store (with_context sh c e))"
  "actor_serialization sh c (Inr x) = Inr x"
  "actor_serialization sh c (Inl e) = Inl (actor_error.Serialization (with_context sh c e))"
  "actor_deserialization sh c (Inr x) = Inr x"
  "actor_deserialization sh c (Inl e) = Inl (Deserialization (with_context sh c e))"
  "actor_message sh c (Inr x) = Inr x"
  "actor_message sh c (Inl e) = Inl (Message (with_context sh c e))"
  "actor_event sh c (Inr x) = Inr x"
  "actor_event sh c (Inl e) = Inl (Event (with_context sh c e))"
  "actor_create sh c (Inr x) = Inr x"
  "actor_create sh c (Inl e) = Inl (CreateActor (with_context sh c e))"
  "actor_start sh c (Inr x) = Inr x"
  "actor_start sh c (Inl e) = Inl (StartActor (with_context sh c e))"
  "actor_supervision sh c (Inr x) = Inr x"
  "actor_supervision sh c (Inl e) = Inl (Supervision (with_context sh c e))"
  by (simp_all add: result_ext_defs)

end
