(* ===== verification/Stores.thy ===== *)
theory Stores
  imports Errors
begin

text \<open>
  \<open>store/src/stores/mod.rs\<close>: the \<open>Store\<close> trait as a record of its
  methods (one dictionary per backend), its iterator options, and the contract a
  backend promises. A store holds a finite map from 64-bit keys to bytes; both
  backends keep it in an ordered map from strings to bytes under the keys
  \<open>"{prefix}:{key:014}"\<close>, so this theory also holds the ordered map
  (\<open>BTreeMap\<close>, as the strictly sorted list of its entries) and the
  encoding of keys, with the bound below which the string order is the numeric one.
\<close>

section \<open>Ordered maps\<close>

type_synonym ('k, 'v) btree = "('k \<times> 'v) list"

fun bt_insert :: "'k::linorder \<Rightarrow> 'v \<Rightarrow> ('k, 'v) btree \<Rightarrow> ('k, 'v) btree" where
  "bt_insert k v [] = [(k, v)]"
| "bt_insert k v ((a, b) # t) =
     (if k < a then (k, v) # (a, b) # t
      else if k = a then (k, v) # t
      else (a, b) # bt_insert k v t)"

definition bt_remove :: "'k::linorder \<Rightarrow> ('k, 'v) btree \<Rightarrow> ('k, 'v) btree" where
  "bt_remove k t = filter (\<lambda>e. fst e \<noteq> k) t"

definition bt_ok :: "('k::linorder, 'v) btree \<Rightarrow> bool" where
  "bt_ok t \<longleftrightarrow> sorted_wrt (<) (map fst t)"

text \<open>The entries of a finite map in the order of the keys: what an iteration
  over an ordered map yields.\<close>

definition entries :: "('k::linorder \<rightharpoonup> 'v) \<Rightarrow> ('k \<times> 'v) list" where
  "entries m = map (\<lambda>k. (k, the (m k))) (sorted_list_of_set (dom m))"

lemma bt_ok_Nil [simp]: "bt_ok []"
  by (simp add: bt_ok_def)

lemma bt_ok_distinct: "bt_ok t \<Longrightarrow> distinct (map fst t)"
  by (simp add: bt_ok_def strict_sorted_iff)

lemma fst_set_bt_insert: "fst ` set (bt_insert k v t) = insert k (fst ` set t)"
  by (induction k v t rule: bt_insert.induct) auto

lemma bt_insert_all:
  "P k \<Longrightarrow> \<forall>e \<in> set t. P (fst e) \<Longrightarrow> \<forall>e \<in> set (bt_insert k v t). P (fst e)"
  by (induction k v t rule: bt_insert.induct) auto

lemma bt_insert_ok: "bt_ok t \<Longrightarrow> bt_ok (bt_insert k v t)"
proof (induction k v t rule: bt_insert.induct)
  case (2 k v a b t)
  then have "bt_ok t" "\<forall>x \<in> fst ` set t. a < x"
    by (auto simp: bt_ok_def)
  with 2 show ?case
    by (auto simp: bt_ok_def fst_set_bt_insert)
qed (simp add: bt_ok_def)

lemma map_of_bt_insert [simp]: "map_of (bt_insert k v t) = (map_of t)(k \<mapsto> v)"
  by (induction k v t rule: bt_insert.induct) (auto simp: fun_eq_iff)

lemma bt_filter_ok: "bt_ok t \<Longrightarrow> bt_ok (filter P t)"
  by (induction t) (auto simp: bt_ok_def)

lemma bt_remove_ok: "bt_ok t \<Longrightarrow> bt_ok (bt_remove k t)"
  by (simp add: bt_remove_def bt_filter_ok)

lemma map_of_bt_remove [simp]: "map_of (bt_remove k t) = (map_of t)(k := None)"
  by (induction t) (auto simp: bt_remove_def fun_eq_iff)

lemma map_of_filter_fst: "map_of (filter (\<lambda>e. P (fst e)) t) k = (if P k then map_of t k else None)"
  by (induction t) auto

lemma entries_eqI:
  assumes "bt_ok t" and "map_of t = m"
  shows "entries m = t"
proof -
  have d: "distinct (map fst t)" using assms(1) by (rule bt_ok_distinct)
  have "dom m = set (map fst t)"
    by (simp add: assms(2) [symmetric] dom_map_of_conv_image_fst)
  moreover have "sorted_list_of_set (set (map fst t)) = map fst t"
    using assms(1) by (metis bt_ok_def strict_sorted_iff sorted_list_of_set.idem_if_sorted_distinct)
  ultimately have "entries m = map (\<lambda>e. (fst e, the (map_of t (fst e)))) t"
    using assms(2) by (simp add: entries_def comp_def)
  also have "\<dots> = t"
    using d by (intro map_idI) (auto simp: map_of_is_SomeI)
  finally show ?thesis .
qed

lemma bt_ok_entries: "bt_ok (entries m)"
  by (simp add: bt_ok_def entries_def comp_def)

lemma map_of_entries: "finite (dom m) \<Longrightarrow> map_of (entries m) = m"
proof
  fix k
  show "finite (dom m) \<Longrightarrow> map_of (entries m) k = m k"
    by (cases "m k") (simp_all add: entries_def map_of_map_restrict restrict_map_def domIff)
qed

lemma entries_empty [simp]: "entries Map.empty = []"
  by (simp add: entries_def)

lemma set_entries: "finite (dom m) \<Longrightarrow> (k, v) \<in> set (entries m) \<longleftrightarrow> m k = Some v"
  by (auto simp: entries_def)

lemma entries_eq_Nil: "finite (dom m) \<Longrightarrow> entries m = [] \<longleftrightarrow> m = Map.empty"
  by (auto simp: entries_def)

lemma sorted_le_last: "sorted xs \<Longrightarrow> x \<in> set xs \<Longrightarrow> x \<le> last xs"
  by (induction xs) auto

lemma bt_ok_le_last: "bt_ok t \<Longrightarrow> e \<in> set t \<Longrightarrow> fst e \<le> fst (last t)"
  using sorted_le_last [of "map fst t" "fst e"]
  by (cases "t = []") (auto simp: bt_ok_def strict_sorted_iff last_map)

lemma last_entries_Max:
  assumes "finite (dom m)" and "m \<noteq> Map.empty"
  shows "last (entries m) = (Max (dom m), the (m (Max (dom m))))"
proof -
  let ?ks = "sorted_list_of_set (dom m)"
  have ks: "set ?ks = dom m" using assms(1) by simp
  moreover have ne: "?ks \<noteq> []" using assms by simp
  ultimately have "last ?ks \<in> dom m" by (metis last_in_set)
  moreover have "k \<le> last ?ks" if "k \<in> dom m" for k
    using that assms(1) by (intro sorted_le_last) simp_all
  ultimately have "last ?ks = Max (dom m)"
    using assms(1) by (intro Max_eqI [symmetric]) simp_all
  with ne show ?thesis by (simp add: entries_def last_map)
qed

section \<open>Keys\<close>

definition store_key :: "string \<Rightarrow> u64 \<Rightarrow> string" where
  "store_key pre k = pre @ '':'' @ pad0 14 (unat k)"

text \<open>What the backends read back: the part after the last colon, as a number.\<close>

definition key_num :: "string \<Rightarrow> u64 option" where
  "key_num s = parse_u64 (last (split_on (CHR '':'') s))"

text \<open>Fourteen digits: the largest key for which the padding has its full width.\<close>

definition key_limit :: nat where
  "key_limit = 10 ^ 14"

definition decode_entries :: "(string \<times> bytes) list \<Rightarrow> (u64 \<times> bytes) list" where
  "decode_entries es = List.map_filter (\<lambda>(s, v). map_option (\<lambda>k. (k, v)) (key_num s)) es"

text \<open>A key of this store: its prefix with a number below the limit.\<close>

definition own_key :: "string \<Rightarrow> string \<Rightarrow> bool" where
  "own_key pre s \<longleftrightarrow>
     (case key_num s of None \<Rightarrow> False | Some k \<Rightarrow> unat k < key_limit \<and> s = store_key pre k)"

lemma pad0_no_colon: "CHR '':'' \<notin> set (pad0 w n)"
  using pad0_digits [of w n] by (auto simp: list_all_iff is_digit_def)

lemma key_num_store_key [simp, key_simps]: "key_num (store_key pre k) = Some k"
  by (simp add: key_num_def store_key_def parse_u64_pad0 last_split_on_append pad0_no_colon)

lemma store_key_inject [simp]: "store_key pre j = store_key pre k \<longleftrightarrow> j = k"
  by (metis key_num_store_key option.inject)

lemma store_key_less_iff:
  assumes "unat j < key_limit" and "unat k < key_limit"
  shows "store_key pre j < store_key pre k \<longleftrightarrow> j < k"
  using assms pad0_less_iff [of 14 "unat j" "unat k"]
  by (simp add: store_key_def key_limit_def word_less_nat_alt)

lemma prefix_store_key [simp]: "prefix pre (store_key pre k)"
  by (simp add: store_key_def)

lemma own_key_iff: "own_key pre s \<longleftrightarrow> (\<exists>k. unat k < key_limit \<and> s = store_key pre k)"
  by (auto simp: own_key_def split: option.splits)

lemma own_key_prefix: "own_key pre s \<Longrightarrow> prefix pre s"
  by (auto simp: own_key_iff)

text \<open>
  Decoding a sorted list of own keys: still sorted, now by number, and a lookup
  by number is a lookup by key.
\<close>

lemma decode_entries_Nil [simp]: "decode_entries [] = []"
  by (simp add: decode_entries_def List.map_filter_def)

lemma decode_entries_Cons:
  "decode_entries ((s, v) # es) =
     (case key_num s of None \<Rightarrow> decode_entries es | Some k \<Rightarrow> (k, v) # decode_entries es)"
  by (auto simp: decode_entries_def List.map_filter_def split: option.splits)

lemma own_keys_cases:
  assumes "\<forall>e \<in> set (e # es). own_key pre (fst e)"
  obtains j v where "e = (store_key pre j, v)" "unat j < key_limit"
    "decode_entries (e # es) = (j, v) # decode_entries es" "\<forall>e \<in> set es. own_key pre (fst e)"
proof -
  obtain s v where e: "e = (s, v)" by (cases e)
  with assms obtain j where "unat j < key_limit" "s = store_key pre j"
    by (auto simp: own_key_iff)
  with e assms show thesis
    by (intro that [of j v]) (simp_all add: decode_entries_Cons)
qed

lemma set_decode_entries:
  assumes "\<forall>e \<in> set es. own_key pre (fst e)"
  shows "(k, v) \<in> set (decode_entries es) \<longleftrightarrow> unat k < key_limit \<and> (store_key pre k, v) \<in> set es"
  using assms
proof (induction es)
  case (Cons e es)
  from Cons.prems show ?case
    by (rule own_keys_cases) (use Cons.IH in auto)
qed simp

lemma decode_entries_ok:
  assumes "bt_ok es" and "\<forall>e \<in> set es. own_key pre (fst e)"
  shows "bt_ok (decode_entries es)"
  using assms
proof (induction es)
  case (Cons e es)
  from Cons.prems(2) obtain j v where j: "e = (store_key pre j, v)" "unat j < key_limit"
    "decode_entries (e # es) = (j, v) # decode_entries es"
    and own: "\<forall>e \<in> set es. own_key pre (fst e)"
    by (rule own_keys_cases)
  have "j < fst d" if "d \<in> set (decode_entries es)" for d
  proof -
    obtain k w where d: "d = (k, w)" by (cases d)
    with that own have k: "unat k < key_limit" "(store_key pre k, w) \<in> set es"
      by (simp_all add: set_decode_entries)
    then have "store_key pre j < store_key pre k"
      using Cons.prems(1) j(1) by (force simp: bt_ok_def)
    with j(2) k(1) d show ?thesis by (simp add: store_key_less_iff)
  qed
  moreover have "bt_ok (decode_entries es)"
    using Cons.IH Cons.prems(1) own by (simp add: bt_ok_def)
  ultimately show ?case
    by (simp add: j(3) bt_ok_def)
qed simp

lemma map_of_decode_entries:
  assumes "bt_ok es" and "\<forall>e \<in> set es. own_key pre (fst e)"
  shows "map_of (decode_entries es) k = (if unat k < key_limit then map_of es (store_key pre k) else None)"
proof -
  have "map_of (decode_entries es) k = Some v
      \<longleftrightarrow> unat k < key_limit \<and> map_of es (store_key pre k) = Some v" for v
    using set_decode_entries [OF assms(2), of k v]
      bt_ok_distinct [OF decode_entries_ok [OF assms]] bt_ok_distinct [OF assms(1)]
    by simp
  then show ?thesis by (rule option_eqI_if)
qed

section \<open>The trait\<close>

datatype iterator_options =
    Reverse "u64 option" "u64 option"
  | Forward "u64 option" "u64 option"
  | Range u64 "u64 option"

record 's store_ops =
  so_name :: "'s \<Rightarrow> string"
  so_prefix :: "'s \<Rightarrow> string"
  so_get :: "'s \<Rightarrow> u64 \<Rightarrow> store_error + bytes"
  so_put :: "'s \<Rightarrow> u64 \<Rightarrow> bytes \<Rightarrow> (store_error + unit) \<times> 's"
  so_del :: "'s \<Rightarrow> u64 \<Rightarrow> (store_error + unit) \<times> 's"
  so_last :: "'s \<Rightarrow> (u64 \<times> bytes) option"
  so_purge :: "'s \<Rightarrow> (store_error + unit) \<times> 's"
  so_iter :: "'s \<Rightarrow> iterator_options \<Rightarrow> (u64 \<times> bytes) list"
  so_flush :: "'s \<Rightarrow> store_error + unit"

text \<open>The default \<open>flush\<close> of the trait.\<close>

definition default_flush :: "'s \<Rightarrow> store_error + unit" where
  "default_flush s = Inr ()"

text \<open>
  The trait's specification of \<open>iter\<close> over the sorted entries: an optional
  starting key and count in each direction, or a closed range of keys.
\<close>

fun iter_spec :: "(u64 \<times> bytes) list \<Rightarrow> iterator_options \<Rightarrow> (u64 \<times> bytes) list" where
  "iter_spec es (Forward from count) =
     (let es' = filter (\<lambda>e. (case from of None \<Rightarrow> True | Some f \<Rightarrow> f \<le> fst e)) es
      in (case count of None \<Rightarrow> es' | Some c \<Rightarrow> take (unat c) es'))"
| "iter_spec es (Reverse from count) =
     (let es' = filter (\<lambda>e. (case from of None \<Rightarrow> True | Some f \<Rightarrow> fst e \<le> f)) (rev es)
      in (case count of None \<Rightarrow> es' | Some c \<Rightarrow> take (unat c) es'))"
| "iter_spec es (Range from to) =
     filter (\<lambda>e. from \<le> fst e \<and> (case to of None \<Rightarrow> True | Some t \<Rightarrow> fst e \<le> t)) es"

definition last_entry :: "('k \<times> 'v) list \<Rightarrow> ('k \<times> 'v) option" where
  "last_entry es = (if es = [] then None else Some (last es))"

section \<open>The contract of a backend\<close>

text \<open>
  \<open>view s\<close> is the map a store holds; \<open>inv\<close> is what its operations keep.
  Reads succeed, a write that reports success has been made, and keys stay below
  the limit. A write may fail, and then nothing is promised.
\<close>

locale store_contract =
  fixes S :: "'s store_ops"
    and inv :: "'s \<Rightarrow> bool"
    and view :: "'s \<Rightarrow> u64 \<rightharpoonup> bytes"
  assumes view_finite: "inv s \<Longrightarrow> finite (dom (view s))"
    and view_limit: "inv s \<Longrightarrow> view s k = Some v \<Longrightarrow> unat k < key_limit"
    and get_Some: "inv s \<Longrightarrow> view s k = Some v \<Longrightarrow> so_get S s k = Inr v"
    and get_None: "inv s \<Longrightarrow> view s k = None \<Longrightarrow> unat k < key_limit
      \<Longrightarrow> so_get S s k = Inl (EntryNotFound (''Key not found: '' @ store_key (so_prefix S s) k))"
    and put_inv: "inv s \<Longrightarrow> unat k < key_limit \<Longrightarrow> so_put S s k v = (Inr (), s') \<Longrightarrow> inv s'"
    and put_view: "inv s \<Longrightarrow> unat k < key_limit \<Longrightarrow> so_put S s k v = (Inr (), s')
      \<Longrightarrow> view s' = (view s)(k \<mapsto> v)"
    and del_inv: "inv s \<Longrightarrow> unat k < key_limit \<Longrightarrow> so_del S s k = (Inr (), s') \<Longrightarrow> inv s'"
    and del_view: "inv s \<Longrightarrow> unat k < key_limit \<Longrightarrow> so_del S s k = (Inr (), s')
      \<Longrightarrow> view s' = (view s)(k := None)"
    and purge_inv: "inv s \<Longrightarrow> so_purge S s = (Inr (), s') \<Longrightarrow> inv s'"
    and purge_view: "inv s \<Longrightarrow> so_purge S s = (Inr (), s') \<Longrightarrow> view s' = Map.empty"
    and last_view: "inv s \<Longrightarrow> so_last S s = last_entry (entries (view s))"
    and iter_view: "inv s \<Longrightarrow> so_iter S s opts = iter_spec (entries (view s)) opts"
    and purge_prefix: "inv s \<Longrightarrow> so_purge S s = (Inr (), s') \<Longrightarrow> so_prefix S s' = so_prefix S s"
begin

lemma last_None_iff: "inv s \<Longrightarrow> so_last S s = None \<longleftrightarrow> view s = Map.empty"
  by (simp add: last_view last_entry_def entries_eq_Nil view_finite)

lemma last_Max:
  assumes "inv s" and "view s \<noteq> Map.empty"
  shows "so_last S s = Some (Max (dom (view s)), the (view s (Max (dom (view s)))))"
  using assms by (simp add: last_view last_entry_def entries_eq_Nil view_finite last_entries_Max)

lemma iter_range:
  "inv s \<Longrightarrow> so_iter S s (Range f (Some t)) = filter (\<lambda>e. f \<le> fst e \<and> fst e \<le> t) (entries (view s))"
  by (simp add: iter_view)

end

text \<open>A backend whose writes do not fail.\<close>

locale reliable_store = store_contract +
  assumes put_ok: "inv s \<Longrightarrow> \<exists>s'. so_put S s k v = (Inr (), s')"
    and del_ok: "inv s \<Longrightarrow> \<exists>s'. so_del S s k = (Inr (), s')"
    and purge_ok: "inv s \<Longrightarrow> \<exists>s'. so_purge S s = (Inr (), s')"
    and flush_ok: "inv s \<Longrightarrow> so_flush S s = Inr ()"

end
