(* ===== verification/MemoryStore.thy ===== *)
theory MemoryStore
  imports Stores
begin

text \<open>
  \<open>store/src/stores/memory.rs\<close>: the in-memory backend. The data of a store is
  an \<open>Arc\<close> shared by every handle the manager hands out for one
  \<open>(name, prefix)\<close>, so a store is a record with a location, and the
  operations act on a heap of cells (a sorted map and the poison flag of its
  \<open>RwLock\<close>). The theory ends with the interpretation of the \<open>Store\<close>
  contract by this backend.
\<close>

section \<open>Cells, handles and the manager\<close>

type_synonym loc = nat

record mem_cell =
  mc_map :: "(string, bytes) btree"
  mc_poisoned :: bool

record mem_heap =
  mh_cell :: "loc \<Rightarrow> mem_cell"
  mh_next :: loc

record memory_store =
  ms_name :: string
  ms_prefix :: string
  ms_data :: loc

record memory_db_manager =
  mdb_data :: "((string \<times> string) \<times> loc) list"
  mdb_poisoned :: bool

definition poison_text :: string where
  "poison_text = ''poisoned lock: another task failed inside''"

definition lock_error :: "store_error" where
  "lock_error = store_error.Store (''Can not lock data: '' @ poison_text)"

definition mem_data :: "mem_heap \<Rightarrow> memory_store \<Rightarrow> (string, bytes) btree" where
  "mem_data h st = mc_map (mh_cell h (ms_data st))"

definition mem_poisoned :: "mem_heap \<Rightarrow> memory_store \<Rightarrow> bool" where
  "mem_poisoned h st = mc_poisoned (mh_cell h (ms_data st))"

definition mem_write :: "mem_heap \<Rightarrow> memory_store \<Rightarrow> (string, bytes) btree \<Rightarrow> mem_heap" where
  "mem_write h st t =
     h\<lparr>mh_cell := (mh_cell h)(ms_data st := (mh_cell h (ms_data st))\<lparr>mc_map := t\<rparr>)\<rparr>"

definition mem_create_store ::
  "memory_db_manager \<Rightarrow> mem_heap \<Rightarrow> string \<Rightarrow> string
    \<Rightarrow> (store_error + memory_store) \<times> memory_db_manager \<times> mem_heap" where
  "mem_create_store mgr h name pre =
     (if mdb_poisoned mgr then (Inl lock_error, mgr, h)
      else (case map_of (mdb_data mgr) (name, pre) of
        Some l \<Rightarrow> (Inr \<lparr>ms_name = name, ms_prefix = pre, ms_data = l\<rparr>, mgr, h)
      | None \<Rightarrow>
          (let l = mh_next h;
               h' = h\<lparr>mh_cell := (mh_cell h)(l := \<lparr>mc_map = [], mc_poisoned = False\<rparr>), mh_next := Suc l\<rparr>
           in (Inr \<lparr>ms_name = name, ms_prefix = pre, ms_data = l\<rparr>,
               mgr\<lparr>mdb_data := hm_insert (name, pre) l (mdb_data mgr)\<rparr>, h'))))"

section \<open>The operations of a store\<close>

definition mem_iter_prefix :: "mem_heap \<Rightarrow> memory_store \<Rightarrow> string \<Rightarrow> (u64 \<times> bytes) list" where
  "mem_iter_prefix h st pre =
     (if mem_poisoned h st then []
      else List.map_filter
        (\<lambda>(k, v). if prefix pre k then map_option (\<lambda>n. (n, v)) (key_num k) else None)
        (mem_data h st))"

definition mem_get :: "mem_heap \<Rightarrow> memory_store \<Rightarrow> u64 \<Rightarrow> store_error + bytes" where
  "mem_get h st key =
     (let k = store_key (ms_prefix st) key
      in if mem_poisoned h st then Inl lock_error
         else (case map_of (mem_data h st) k of
             Some v \<Rightarrow> Inr v
           | None \<Rightarrow> Inl (EntryNotFound (''Key not found: '' @ k))))"

definition mem_put :: "mem_heap \<Rightarrow> memory_store \<Rightarrow> u64 \<Rightarrow> bytes \<Rightarrow> (store_error + unit) \<times> mem_heap" where
  "mem_put h st key v =
     (let k = store_key (ms_prefix st) key
      in if mem_poisoned h st then (Inl lock_error, h)
         else (Inr (), mem_write h st (bt_insert k v (mem_data h st))))"

definition mem_del :: "mem_heap \<Rightarrow> memory_store \<Rightarrow> u64 \<Rightarrow> (store_error + unit) \<times> mem_heap" where
  "mem_del h st key =
     (let k = store_key (ms_prefix st) key
      in if mem_poisoned h st then (Inl lock_error, h)
         else (Inr (), mem_write h st (bt_remove k (mem_data h st))))"

fun find_map :: "('a \<Rightarrow> 'b option) \<Rightarrow> 'a list \<Rightarrow> 'b option" where
  "find_map f [] = None"
| "find_map f (x # xs) = (case f x of Some y \<Rightarrow> Some y | None \<Rightarrow> find_map f xs)"

definition mem_last :: "mem_heap \<Rightarrow> memory_store \<Rightarrow> (u64 \<times> bytes) option" where
  "mem_last h st =
     (if mem_poisoned h st then None
      else find_map (\<lambda>(k, v). map_option (\<lambda>n. (n, v)) (key_num k)) (rev (mem_data h st)))"

definition mem_purge :: "mem_heap \<Rightarrow> memory_store \<Rightarrow> (store_error + unit) \<times> mem_heap" where
  "mem_purge h st =
     (if mem_poisoned h st then (Inl lock_error, h) else (Inr (), mem_write h st []))"

fun mem_iter :: "mem_heap \<Rightarrow> memory_store \<Rightarrow> iterator_options \<Rightarrow> (u64 \<times> bytes) list" where
  "mem_iter h st (Forward from count) =
     (let data = mem_iter_prefix h st (ms_prefix st);
          size = of_nat (length data) :: u64;
          f = (case from of Some f \<Rightarrow> f | None \<Rightarrow> 0);
          c = (case count of Some c \<Rightarrow> c | None \<Rightarrow> size)
      in take (unat c) (filter (\<lambda>e. fst e \<ge> f) data))"
| "mem_iter h st (Reverse from count) =
     (let data = mem_iter_prefix h st (ms_prefix st);
          size = of_nat (length data) :: u64
      in if data = [] then []
         else (let f = (case from of Some f \<Rightarrow> f | None \<Rightarrow> fst (last data));
                   c = (case count of Some c \<Rightarrow> c | None \<Rightarrow> size)
               in take (unat c) (filter (\<lambda>e. fst e \<le> f) (rev data))))"
| "mem_iter h st (Range from to) =
     (let data = mem_iter_prefix h st (ms_prefix st)
      in if data = [] then []
         else (let t = (case to of Some t \<Rightarrow> t | None \<Rightarrow> fst (last data))
               in if from > t then []
                  else filter (\<lambda>e. fst e \<ge> from \<and> fst e \<le> t) data))"

text \<open>
  The dictionary of the backend. A state is a handle with the heap it lives in.
  The trait requires \<open>prefix\<close>, which this \<open>impl\<close> does not define (so the
  \<open>memory\<close> feature does not compile); the dictionary takes the field, as the
  other backend does.
\<close>

definition memory_ops :: "(memory_store \<times> mem_heap) store_ops" where
  "memory_ops = \<lparr>
     so_name = (\<lambda>(st, h). ms_name st),
     so_prefix = (\<lambda>(st, h). ms_prefix st),
     so_get = (\<lambda>(st, h) k. mem_get h st k),
     so_put = (\<lambda>(st, h) k v. let (r, h') = mem_put h st k v in (r, (st, h'))),
     so_del = (\<lambda>(st, h) k. let (r, h') = mem_del h st k in (r, (st, h'))),
     so_last = (\<lambda>(st, h). mem_last h st),
     so_purge = (\<lambda>(st, h). let (r, h') = mem_purge h st in (r, (st, h'))),
     so_iter = (\<lambda>(st, h) opts. mem_iter h st opts),
     so_flush = default_flush \<rparr>"

definition mem_inv :: "memory_store \<times> mem_heap \<Rightarrow> bool" where
  "mem_inv s =
     (case s of (st, h) \<Rightarrow>
        \<not> mem_poisoned h st \<and> bt_ok (mem_data h st)
        \<and> list_all (\<lambda>e. own_key (ms_prefix st) (fst e)) (mem_data h st))"

definition mem_view :: "memory_store \<times> mem_heap \<Rightarrow> u64 \<rightharpoonup> bytes" where
  "mem_view s k =
     (case s of (st, h) \<Rightarrow>
        if unat k < key_limit then map_of (mem_data h st) (store_key (ms_prefix st) k) else None)"

text \<open>The manager's table: allocated locations, one per \<open>(name, prefix)\<close>.\<close>

definition mgr_inv :: "memory_db_manager \<Rightarrow> mem_heap \<Rightarrow> bool" where
  "mgr_inv mgr h \<longleftrightarrow>
     distinct (map fst (mdb_data mgr)) \<and> distinct (map snd (mdb_data mgr))
     \<and> list_all (\<lambda>e. snd e < mh_next h) (mdb_data mgr) \<and> \<not> mdb_poisoned mgr"

section \<open>The backend meets the contract\<close>

lemma mem_data_write [simp]: "mem_data (mem_write h st t) st = t"
  by (simp add: mem_data_def mem_write_def)

lemma mem_poisoned_write [simp]: "mem_poisoned (mem_write h st t) st' = mem_poisoned h st'"
  by (simp add: mem_poisoned_def mem_write_def)

lemma mem_invD:
  assumes "mem_inv (st, h)"
  shows "\<not> mem_poisoned h st" "bt_ok (mem_data h st)"
    "\<forall>e \<in> set (mem_data h st). own_key (ms_prefix st) (fst e)"
  using assms by (auto simp: mem_inv_def list_all_iff)

lemma mem_inv_write:
  assumes "mem_inv (st, h)" and "bt_ok t" and "\<forall>e \<in> set t. own_key (ms_prefix st) (fst e)"
  shows "mem_inv (st, mem_write h st t)"
  using assms by (simp add: mem_inv_def list_all_iff)

lemma mem_iter_prefix_decode:
  assumes "mem_inv (st, h)"
  shows "mem_iter_prefix h st (ms_prefix st) = decode_entries (mem_data h st)"
proof -
  have "List.map_filter (\<lambda>(k, v). if prefix pre k then map_option (\<lambda>n. (n, v)) (key_num k) else None) es
      = decode_entries es"
    if "\<forall>e \<in> set es. own_key pre (fst e)" for es pre
    using that
    by (induction es) (auto simp: decode_entries_def List.map_filter_def dest: own_key_prefix)
  with mem_invD [OF assms] show ?thesis by (simp add: mem_iter_prefix_def)
qed

lemma find_map_append:
  "find_map f (xs @ ys) = (case find_map f xs of None \<Rightarrow> find_map f ys | Some y \<Rightarrow> Some y)"
  by (induction xs) (auto split: option.splits)

lemma find_map_rev_decode:
  "find_map (\<lambda>(k, v). map_option (\<lambda>n. (n, v)) (key_num k)) (rev es) = last_entry (decode_entries es)"
proof (induction es)
  case Nil
  then show ?case by (simp add: last_entry_def)
next
  case (Cons e es)
  obtain k v where "e = (k, v)" by (cases e)
  with Cons show ?case
    by (auto simp: find_map_append decode_entries_Cons last_entry_def split: option.splits)
qed

lemma mem_entries:
  assumes "mem_inv (st, h)"
  shows "entries (mem_view (st, h)) = decode_entries (mem_data h st)"
proof (rule entries_eqI)
  note d = mem_invD [OF assms]
  show "bt_ok (decode_entries (mem_data h st))"
    using d by (intro decode_entries_ok)
  show "map_of (decode_entries (mem_data h st)) = mem_view (st, h)"
    using d by (simp add: map_of_decode_entries mem_view_def fun_eq_iff)
qed

text \<open>Fewer than \<open>2 ^ 64\<close> entries, so the default count of an iteration is no bound.\<close>

lemma length_decode_entries:
  assumes "bt_ok es" and "\<forall>e \<in> set es. own_key pre (fst e)"
  shows "length (decode_entries es) \<le> key_limit"
proof -
  let ?ks = "map fst (decode_entries es)"
  have "distinct ?ks" by (intro bt_ok_distinct decode_entries_ok [OF assms])
  then have "length (decode_entries es) = card (set ?ks)"
    using distinct_card [of ?ks] by simp
  also have "\<dots> = card (unat ` set ?ks)"
    by (rule card_image [symmetric], rule inj_onI, simp add: word_unat_eq_iff)
  also have "unat ` set ?ks \<subseteq> {..<key_limit}"
    using set_decode_entries [OF assms(2)] by force
  then have "card (unat ` set ?ks) \<le> key_limit"
    using card_mono [of "{..<key_limit}"] by simp
  finally show ?thesis .
qed

lemma key_limit_less: "n \<le> key_limit \<Longrightarrow> unat (of_nat n :: u64) = n"
  by (simp add: key_limit_def unsigned_of_nat take_bit_nat_eq_self)

lemma iter_reverse_default:
  assumes "bt_ok es" and "es \<noteq> []"
  shows "filter (\<lambda>e. fst e \<le> fst (last es)) (rev es) = rev es"
proof -
  have "fst e \<le> fst (last es)" if "e \<in> set es" for e
    using assms(1) that by (rule bt_ok_le_last)
  then show ?thesis by (simp add: filter_id_conv)
qed

lemma mem_iter_spec:
  assumes "mem_inv (st, h)"
  shows "mem_iter h st opts = iter_spec (decode_entries (mem_data h st)) opts"
proof -
  let ?es = "decode_entries (mem_data h st)"
  note d = mem_invD [OF assms]
  have len: "unat (of_nat (length ?es) :: u64) = length ?es"
    using length_decode_entries [OF d(2,3)] by (rule key_limit_less)
  have ok: "bt_ok ?es" using d by (intro decode_entries_ok)
  have last: "fst e \<le> fst (last ?es)" if "e \<in> set ?es" for e
    using ok that by (rule bt_ok_le_last)
  have all: "take (length ?es) (filter P ?es) = filter P ?es"
    "take (length ?es) (filter P (rev ?es)) = filter P (rev ?es)" for P
    by (metis length_filter_le length_rev take_all)+
  show ?thesis
  proof (cases opts)
    case (Forward f c)
    then show ?thesis
      using assms len all by (auto simp: mem_iter_prefix_decode Let_def split: option.splits)
  next
    case (Reverse f c)
    then show ?thesis
      using assms len all iter_reverse_default [OF ok]
      by (auto simp: mem_iter_prefix_decode Let_def split: option.splits)
  next
    case (Range f t)
    have none: "filter (\<lambda>e. f \<le> fst e \<and> fst e \<le> x) ?es = []" if "x < f" for x
      using that by (auto simp: filter_empty_conv)
    have default: "filter (\<lambda>e. f \<le> fst e \<and> fst e \<le> fst (last ?es)) ?es = filter (\<lambda>e. f \<le> fst e) ?es"
      using last by (intro filter_cong) auto
    show ?thesis
      using Range assms none [of "fst (last ?es)"] none default
      by (auto simp: mem_iter_prefix_decode Let_def not_less split: option.splits)
  qed
qed

lemma own_key_store_key: "unat k < key_limit \<Longrightarrow> own_key pre (store_key pre k)"
  by (auto simp: own_key_iff)

lemma mem_put_state:
  fixes v :: bytes
  assumes "mem_inv (st, h)" and "unat k < key_limit"
  defines "h' \<equiv> mem_write h st (bt_insert (store_key (ms_prefix st) k) v (mem_data h st))"
  shows "mem_inv (st, h')" "mem_view (st, h') = (mem_view (st, h))(k \<mapsto> v)"
proof -
  note d = mem_invD [OF assms(1)]
  show "mem_inv (st, h')"
    unfolding h'_def
  proof (rule mem_inv_write [OF assms(1)])
    show "bt_ok (bt_insert (store_key (ms_prefix st) k) v (mem_data h st))"
      using d(2) by (rule bt_insert_ok)
    show "\<forall>e \<in> set (bt_insert (store_key (ms_prefix st) k) v (mem_data h st)).
        own_key (ms_prefix st) (fst e)"
      by (rule bt_insert_all [OF own_key_store_key [OF assms(2)] d(3)])
  qed
  show "mem_view (st, h') = (mem_view (st, h))(k \<mapsto> v)"
    using assms(2) by (auto simp: h'_def mem_view_def fun_eq_iff)
qed

lemma mem_del_state:
  assumes "mem_inv (st, h)" and "unat k < key_limit"
  defines "h' \<equiv> mem_write h st (bt_remove (store_key (ms_prefix st) k) (mem_data h st))"
  shows "mem_inv (st, h')" "mem_view (st, h') = (mem_view (st, h))(k := None)"
proof -
  note d = mem_invD [OF assms(1)]
  show "mem_inv (st, h')"
    unfolding h'_def using d
    by (intro mem_inv_write [OF assms(1)] bt_remove_ok) (auto simp: bt_remove_def)
  show "mem_view (st, h') = (mem_view (st, h))(k := None)"
    by (auto simp: h'_def mem_view_def fun_eq_iff)
qed

lemma mem_purge_state:
  assumes "mem_inv (st, h)"
  shows "mem_inv (st, mem_write h st [])" "mem_view (st, mem_write h st []) = Map.empty"
  using mem_inv_write [OF assms, of "[]"] by (auto simp: mem_view_def fun_eq_iff)

lemma memory_ops_sel [simp]:
  "so_name memory_ops (st, h) = ms_name st"
  "so_prefix memory_ops (st, h) = ms_prefix st"
  "so_get memory_ops (st, h) k = mem_get h st k"
  "so_put memory_ops (st, h) k v = (fst (mem_put h st k v), (st, snd (mem_put h st k v)))"
  "so_del memory_ops (st, h) k = (fst (mem_del h st k), (st, snd (mem_del h st k)))"
  "so_last memory_ops (st, h) = mem_last h st"
  "so_purge memory_ops (st, h) = (fst (mem_purge h st), (st, snd (mem_purge h st)))"
  "so_iter memory_ops (st, h) opts = mem_iter h st opts"
  "so_flush memory_ops s = Inr ()"
  by (simp_all add: memory_ops_def default_flush_def split_beta Let_def)

text \<open>On a healthy store every write is made and reported as made.\<close>

lemma mem_writes:
  assumes "mem_inv (st, h)"
  shows "mem_put h st k v = (Inr (), mem_write h st (bt_insert (store_key (ms_prefix st) k) v (mem_data h st)))"
    "mem_del h st k = (Inr (), mem_write h st (bt_remove (store_key (ms_prefix st) k) (mem_data h st)))"
    "mem_purge h st = (Inr (), mem_write h st [])"
  using mem_invD(1) [OF assms] by (simp_all add: mem_put_def mem_del_def mem_purge_def Let_def)

interpretation mem: reliable_store memory_ops mem_inv mem_view
proof (unfold_locales, goal_cases)
  case (1 s)
  obtain st h where s: "s = (st, h)" by (cases s)
  have "mem_view s = map_of (decode_entries (mem_data h st))"
    using 1 mem_invD [of st h] by (simp add: s map_of_decode_entries mem_view_def fun_eq_iff)
  then show ?case by (simp add: finite_dom_map_of)
next
  case (2 s k v)
  then show ?case by (cases s) (auto simp: mem_view_def split: if_splits)
next
  case (3 s k v)
  then show ?case
    by (cases s) (auto simp: mem_view_def mem_get_def Let_def dest: mem_invD split: if_splits)
next
  case (4 s k)
  then show ?case
    by (cases s) (auto simp: mem_view_def mem_get_def Let_def dest: mem_invD split: if_splits)
next
  case (11 s)
  then show ?case
    by (cases s) (auto simp: mem_entries mem_last_def find_map_rev_decode dest: mem_invD)
next
  case (12 s opts)
  then show ?case by (cases s) (simp add: mem_entries mem_iter_spec)
qed (auto simp: mem_writes mem_put_state mem_del_state mem_purge_state)

lemma mem_create_store_inv:
  assumes "mgr_inv mgr h" and "mem_create_store mgr h name pre = (r, mgr', h')"
  shows "mgr_inv mgr' h'"
proof (cases "map_of (mdb_data mgr) (name, pre)")
  case None
  then have "hm_remove (name, pre) (mdb_data mgr) = mdb_data mgr"
    by (auto simp: hm_remove_def filter_id_conv map_of_eq_None_iff image_iff)
  with assms None show ?thesis
    by (fastforce simp: mem_create_store_def mgr_inv_def Let_def hm_insert_def list_all_iff
        map_of_eq_None_iff image_iff)
next
  case (Some l)
  with assms show ?thesis by (auto simp: mem_create_store_def mgr_inv_def)
qed

lemma mem_create_store_registered:
  assumes "mgr_inv mgr h" and "mem_create_store mgr h name pre = (Inr st, mgr', h')"
  shows "map_of (mdb_data mgr') (name, pre) = Some (ms_data st)"
    "ms_name st = name" "ms_prefix st = pre"
    "k \<noteq> (name, pre) \<Longrightarrow> map_of (mdb_data mgr') k = map_of (mdb_data mgr) k"
  using assms
  by (auto simp: mem_create_store_def Let_def split: if_splits option.splits)

lemma mgr_inv_inj:
  assumes "mgr_inv mgr h" and "map_of (mdb_data mgr) a = Some l" and "map_of (mdb_data mgr) b = Some l"
  shows "a = b"
proof -
  have "(a, l) \<in> set (mdb_data mgr)" "(b, l) \<in> set (mdb_data mgr)"
    using assms(2,3) by (auto dest: map_of_SomeD)
  moreover have "inj_on snd (set (mdb_data mgr))"
    using assms(1) by (simp add: mgr_inv_def distinct_map)
  ultimately show ?thesis
    using inj_onD [of snd "set (mdb_data mgr)" "(a, l)" "(b, l)"] by simp
qed

section \<open>Properties\<close>

text \<open>On a healthy in-memory store a write below the key limit succeeds, keeps
  the store healthy, is what a later read of the key returns, and leaves every
  other key as it was.\<close>

theorem mem_put_get:
  assumes inv: "mem_inv (st, h)" and k: "unat k < key_limit"
  shows "\<exists>h'. mem_put h st k v = (Inr (), h') \<and> mem_inv (st, h') \<and> mem_get h' st k = Inr v
    \<and> (\<forall>j. unat j < key_limit \<and> j \<noteq> k \<longrightarrow> mem_get h' st j = mem_get h st j)"
proof -
  let ?h = "mem_write h st (bt_insert (store_key (ms_prefix st) k) v (mem_data h st))"
  note st = mem_put_state [OF inv k, of v]
  have "mem_get ?h st k = Inr v"
    using mem.get_Some [OF st(1), of k v] st(2) by simp
  moreover have "mem_get ?h st j = mem_get h st j" if "unat j < key_limit \<and> j \<noteq> k" for j
    using that mem.get_Some [OF st(1), of j] mem.get_None [OF st(1), of j]
      mem.get_Some [OF inv, of j] mem.get_None [OF inv, of j] st(2)
    by (cases "mem_view (st, h) j") auto
  ultimately show ?thesis
    using mem_writes(1) [OF inv, of k v] st(1) by blast
qed

definition empty_heap :: mem_heap where
  "empty_heap = \<lparr>mh_cell = (\<lambda>l. \<lparr>mc_map = [], mc_poisoned = False\<rparr>), mh_next = 1\<rparr>"

definition sample_store :: memory_store where
  "sample_store = \<lparr>ms_name = ''test'', ms_prefix = ''p:1'', ms_data = 0\<rparr>"

lemma sample_inv: "mem_inv (sample_store, empty_heap)"
  by (simp add: mem_inv_def mem_poisoned_def mem_data_def empty_heap_def)

theorem mem_put_get_witness:
  "\<exists>h'. mem_put empty_heap sample_store 3 [1, 2] = (Inr (), h') \<and> mem_get h' sample_store 3 = Inr [1, 2]"
proof -
  have "unat (3 :: u64) < key_limit" by (simp add: key_limit_def)
  from mem_put_get [OF sample_inv this, of "[1, 2]"] show ?thesis by blast
qed

text \<open>C12: as long as every key stored is below ten to the fourteen and the lock is not poisoned
  (\<open>mem_inv\<close>), iteration and \<open>last\<close> follow the numeric order of the keys, whatever
  the prefix holds (colons included): every form of \<open>iter\<close> is the trait's
  specification applied to the entries sorted by number, and \<open>last\<close> is the
  entry with the greatest key. From ten to the fourteen on \<open>last\<close> answers an older
  entry (\<open>mem_last_beyond_limit\<close>).\<close>

theorem mem_iter_sorted:
  assumes "mem_inv (st, h)"
  shows "mem_iter h st opts = iter_spec (entries (mem_view (st, h))) opts
    \<and> (mem_view (st, h) \<noteq> Map.empty \<longrightarrow>
        mem_last h st = Some (Max (dom (mem_view (st, h))), the (mem_view (st, h) (Max (dom (mem_view (st, h)))))))
    \<and> (mem_view (st, h) = Map.empty \<longrightarrow> mem_last h st = None)"
  using mem.iter_view [OF assms, of opts] mem.last_Max [OF assms] mem.last_None_iff [OF assms]
  by simp

text \<open>A store with the prefix \<open>p:1\<close> and two entries, the greater key put first.\<close>

definition two_entries :: mem_heap where
  "two_entries = snd (mem_put (snd (mem_put empty_heap sample_store 12 [1])) sample_store 7 [2])"

lemma two_entries_state:
  "mem_inv (sample_store, two_entries)"
  "mem_view (sample_store, two_entries) = Map.empty(12 \<mapsto> [1], 7 \<mapsto> [2])"
proof -
  have lim: "unat (12 :: u64) < key_limit" "unat (7 :: u64) < key_limit" by (simp_all add: key_limit_def)
  have empty: "mem_view (sample_store, empty_heap) = Map.empty"
    by (simp add: mem_view_def mem_data_def empty_heap_def fun_eq_iff)
  let ?h = "snd (mem_put empty_heap sample_store 12 [1])"
  have 1: "so_put memory_ops (sample_store, empty_heap) 12 [1] = (Inr (), (sample_store, ?h))"
    by (simp add: mem_writes [OF sample_inv])
  note i = mem.put_inv [OF sample_inv lim(1) 1]
  have 2: "so_put memory_ops (sample_store, ?h) 7 [2] = (Inr (), (sample_store, two_entries))"
    by (simp add: mem_writes [OF i] two_entries_def)
  show "mem_inv (sample_store, two_entries)" by (rule mem.put_inv [OF i lim(2) 2])
  show "mem_view (sample_store, two_entries) = Map.empty(12 \<mapsto> [1], 7 \<mapsto> [2])"
    using mem.put_view [OF sample_inv lim(1) 1] mem.put_view [OF i lim(2) 2] empty by simp
qed

theorem mem_iter_sorted_witness:
  "mem_iter two_entries sample_store (Range 1 None) = [(7, [2]), (12, [1])]
   \<and> mem_iter two_entries sample_store (Reverse (Some 11) None) = [(7, [2])]
   \<and> mem_last two_entries sample_store = Some (12, [1])"
proof -
  let ?m = "Map.empty(12 \<mapsto> [1], 7 \<mapsto> [2]) :: u64 \<rightharpoonup> bytes"
  have es: "entries ?m = [(7, [2]), (12, [1])]"
    by (rule entries_eqI) (auto simp: bt_ok_def fun_eq_iff)
  show ?thesis
    using mem_iter_sorted [OF two_entries_state(1), of "Range 1 None"]
      mem_iter_sorted [OF two_entries_state(1), of "Reverse (Some 11) None"]
    by (simp add: two_entries_state(2) es max_def)
qed

text \<open>Past fourteen digits the order of the keys is no longer numeric: with
  99999999999999 and 100000000000000 stored, \<open>last\<close> answers the smaller.\<close>

theorem mem_last_beyond_limit:
  fixes a b :: bytes
  assumes "mem_data h st = []" and "\<not> mem_poisoned h st"
  defines "h1 \<equiv> snd (mem_put h st 99999999999999 a)"
  defines "h2 \<equiv> snd (mem_put h1 st 100000000000000 b)"
  shows "mem_get h2 st 100000000000000 = Inr b \<and> mem_last h2 st = Some (99999999999999, a)"
proof -
  let ?lo = "store_key (ms_prefix st) 99999999999999"
  let ?hi = "store_key (ms_prefix st) 100000000000000"
  have "pad0 14 100000000000000 < pad0 14 99999999999999"
    by (simp add: pad0_def Let_def dec_digits.simps less_char_def)
  then have lt: "?hi < ?lo" by (simp add: store_key_def)
  then have "mem_data h2 st = [(?hi, b), (?lo, a)]"
    using assms by (simp add: mem_put_def Let_def)
  moreover have "\<not> mem_poisoned h2 st"
    using assms by (simp add: mem_put_def Let_def)
  ultimately show ?thesis
    by (simp add: mem_get_def mem_last_def Let_def)
qed

theorem mem_last_beyond_limit_witness:
  "mem_last (snd (mem_put (snd (mem_put empty_heap sample_store 99999999999999 [1])) sample_store
     100000000000000 [2])) sample_store = Some (99999999999999, [1])"
proof -
  have "mem_data empty_heap sample_store = []" "\<not> mem_poisoned empty_heap sample_store"
    by (simp_all add: mem_data_def mem_poisoned_def empty_heap_def)
  from mem_last_beyond_limit [OF this, of "[1]" "[2]"] show ?thesis by blast
qed

text \<open>The manager gives one cell per \<open>(name, prefix)\<close>: two stores created one
  after the other share their data exactly when both strings agree, and the
  table stays well formed.\<close>

theorem mem_create_store_sharing:
  assumes "mgr_inv mgr h"
    and "mem_create_store mgr h n1 p1 = (Inr st1, mgr1, h1)"
    and "mem_create_store mgr1 h1 n2 p2 = (Inr st2, mgr2, h2)"
  shows "(ms_data st1 = ms_data st2 \<longleftrightarrow> n1 = n2 \<and> p1 = p2) \<and> mgr_inv mgr2 h2"
proof -
  have inv1: "mgr_inv mgr1 h1" using assms(1,2) by (rule mem_create_store_inv)
  have inv2: "mgr_inv mgr2 h2" using inv1 assms(3) by (rule mem_create_store_inv)
  have r1: "map_of (mdb_data mgr1) (n1, p1) = Some (ms_data st1)"
    by (rule mem_create_store_registered [OF assms(1,2)])
  have r2: "map_of (mdb_data mgr2) (n2, p2) = Some (ms_data st2)"
    and keep: "k \<noteq> (n2, p2) \<Longrightarrow> map_of (mdb_data mgr2) k = map_of (mdb_data mgr1) k" for k
    using mem_create_store_registered [OF inv1 assms(3)] by blast+
  show ?thesis
  proof (cases "(n1, p1) = (n2, p2)")
    case True
    with r1 assms(3) inv1 inv2 show ?thesis
      by (auto simp: mem_create_store_def mgr_inv_def)
  next
    case False
    with keep r1 have "map_of (mdb_data mgr2) (n1, p1) = Some (ms_data st1)" by simp
    with r2 mgr_inv_inj [OF inv2] False inv2 show ?thesis by (metis prod.inject)
  qed
qed

theorem mem_create_store_sharing_witness:
  "\<exists>st1 st2 mgr1 h1 mgr2 h2.
     mem_create_store \<lparr>mdb_data = [], mdb_poisoned = False\<rparr> empty_heap ''J'' ''1'' = (Inr st1, mgr1, h1)
   \<and> mem_create_store mgr1 h1 ''J'' ''2'' = (Inr st2, mgr2, h2) \<and> ms_data st1 \<noteq> ms_data st2"
proof -
  let ?m = "\<lparr>mdb_data = [], mdb_poisoned = False\<rparr>"
  have inv: "mgr_inv ?m empty_heap" by (simp add: mgr_inv_def)
  obtain st1 mgr1 h1 where c1: "mem_create_store ?m empty_heap ''J'' ''1'' = (Inr st1, mgr1, h1)"
    by (simp add: mem_create_store_def Let_def)
  then obtain st2 mgr2 h2 where c2: "mem_create_store mgr1 h1 ''J'' ''2'' = (Inr st2, mgr2, h2)"
    using mem_create_store_inv [OF inv c1]
    by (auto simp: mem_create_store_def Let_def mgr_inv_def split: option.splits)
  from mem_create_store_sharing [OF inv c1 c2] c1 c2 show ?thesis by auto
qed

end
