(* ===== verification/Journal.thy ===== *)
theory Journal
  imports MemoryStore
begin

unbundle bit_operations_syntax

text \<open>
  \<open>store/src/journal.rs\<close>: the journal actor, which keeps the events of an
  actor in a store under consecutive sequence numbers. The state is the store and
  \<open>next_sequence\<close>; its methods take the dictionary of the backend. Files and
  the gzip codec are other crates: \<open>archive_ops\<close> is what \<open>export\<close> and
  \<open>import\<close> call of them, over an abstract world. Asynchronous calls are
  calls: the journal handles one message at a time.

  The lemmas show that a journal whose store holds the events \<open>es\<close> under
  \<open>0 .. length es - 1\<close> (\<open>journals\<close>) behaves as the list \<open>es\<close>.
\<close>

section \<open>State and messages\<close>

record 's journal =
  j_store :: 's
  j_next :: u64

datatype journal_message =
    JPut bytes
  | JInsert u64 bytes
  | JGet u64
  | JLast
  | JLastSequence
  | JRange u64 "u64 option"
  | JFlush
  | JImport string
  | JExport string

datatype journal_response =
    JREvent bytes
  | JREvents "(u64 \<times> bytes) list"
  | JRLast u64 bytes
  | JRLastSequence u64
  | JRNotFound
  | JRNone

section \<open>Operations\<close>

definition journal_new :: "'s store_ops \<Rightarrow> 's \<Rightarrow> 's journal" where
  "journal_new S store =
     (let next = (case so_last S store of None \<Rightarrow> 0 | Some (seq, _) \<Rightarrow> seq + 1)
      in \<lparr>j_store = store, j_next = next\<rparr>)"

definition latest_sequence :: "'s journal \<Rightarrow> u64" where
  "latest_sequence j = (if j_next j = 0 then 0 else j_next j - 1)"

definition journal_put :: "'s store_ops \<Rightarrow> 's journal \<Rightarrow> bytes \<Rightarrow> (actor_error + unit) \<times> 's journal" where
  "journal_put S j data =
     (case so_put S (j_store j) (j_next j) data of (r, s) \<Rightarrow>
        (case actor_store show_store_error ''Failed to store event'' r of
          Inl e \<Rightarrow> (Inl e, j\<lparr>j_store := s\<rparr>)
        | Inr _ \<Rightarrow> (Inr (), \<lparr>j_store = s, j_next = j_next j + 1\<rparr>)))"

definition journal_insert ::
  "'s store_ops \<Rightarrow> 's journal \<Rightarrow> u64 \<Rightarrow> bytes \<Rightarrow> (actor_error + unit) \<times> 's journal" where
  "journal_insert S j sequence data =
     (case so_put S (j_store j) sequence data of (r, s) \<Rightarrow>
        (actor_store show_store_error ''Failed to insert event'' r, j\<lparr>j_store := s\<rparr>))"

definition journal_get :: "'s store_ops \<Rightarrow> 's journal \<Rightarrow> u64 \<Rightarrow> actor_error + bytes" where
  "journal_get S j sequence =
     actor_store show_store_error ''Failed to retrieve event'' (so_get S (j_store j) sequence)"

definition journal_last :: "'s store_ops \<Rightarrow> 's journal \<Rightarrow> (u64 \<times> bytes) option" where
  "journal_last S j =
     map_option (\<lambda>event. (latest_sequence j, event)) (ok (journal_get S j (latest_sequence j)))"

definition journal_range :: "'s store_ops \<Rightarrow> 's journal \<Rightarrow> u64 \<Rightarrow> u64 option \<Rightarrow> (u64 \<times> bytes) list" where
  "journal_range S j from to =
     (let to = (case to of Some t \<Rightarrow> t | None \<Rightarrow> latest_sequence j)
      in so_iter S (j_store j) (Range from (Some to)))"

definition journal_flush :: "'s store_ops \<Rightarrow> 's journal \<Rightarrow> actor_error + unit" where
  "journal_flush S j = actor_store show_store_error ''Failed to flush store'' (so_flush S (j_store j))"

section \<open>Export files\<close>

text \<open>
  What \<open>export\<close> and \<open>import\<close> use of \<open>tokio::fs\<close> and of the gzip
  codec. A writer (the buffered encoder over a created file) and its file are
  named by the path. Opening a file for reading gives what the reader built over
  it will deliver: its bytes and then the end of the data or an error. Errors are
  their texts. \<open>ar_debug\<close> is the \<open>Debug\<close> form of a path, which the
  error messages quote.
\<close>

type_synonym byte_stream = "bytes \<times> string option"

record 'w archive_ops =
  ar_create :: "'w \<Rightarrow> string \<Rightarrow> (string + unit) \<times> 'w"
  ar_write :: "'w \<Rightarrow> string \<Rightarrow> bytes \<Rightarrow> (string + unit) \<times> 'w"
  ar_flush :: "'w \<Rightarrow> string \<Rightarrow> (string + unit) \<times> 'w"
  ar_shutdown :: "'w \<Rightarrow> string \<Rightarrow> (string + unit) \<times> 'w"
  ar_open :: "'w \<Rightarrow> string \<Rightarrow> string + byte_stream"
  ar_debug :: "string \<Rightarrow> string"

text \<open>\<open>Path::join\<close> on Unix: an absolute second path replaces the first.\<close>

definition path_join :: "string \<Rightarrow> string \<Rightarrow> string" where
  "path_join a b =
     (if b \<noteq> [] \<and> hd b = CHR ''/'' then b
      else if a = [] then b
      else if last a = CHR ''/'' then a @ b
      else a @ ''/'' @ b)"

definition export_path :: "'s store_ops \<Rightarrow> 's journal \<Rightarrow> string \<Rightarrow> string" where
  "export_path S j path = path_join path (so_prefix S (j_store j) @ ''.export'')"

text \<open>\<open>write_u32\<close> and \<open>read_u32\<close> are big-endian.\<close>

definition be_u32 :: "u32 \<Rightarrow> bytes" where
  "be_u32 w = [ucast (drop_bit 24 w), ucast (drop_bit 16 w), ucast (drop_bit 8 w), ucast w]"

definition from_be_u32 :: "bytes \<Rightarrow> u32" where
  "from_be_u32 bs = foldl (\<lambda>acc b. 256 * acc + ucast b) 0 bs"

definition write_data :: "'w archive_ops \<Rightarrow> string \<Rightarrow> bytes \<Rightarrow> 'w \<Rightarrow> (string + unit) \<times> 'w" where
  "write_data A file data w =
     (let sz = (of_nat (length data) :: u32)
      in (case ar_write A w file (be_u32 sz) of
           (Inl e, w) \<Rightarrow> (Inl e, w)
         | (Inr _, w) \<Rightarrow>
             (case ar_write A w file data of
               (Inl e, w) \<Rightarrow> (Inl e, w)
             | (Inr _, w) \<Rightarrow> (Inr (), w))))"

text \<open>\<open>read_exact\<close>: all the bytes asked for, or an error.\<close>

definition read_exact :: "nat \<Rightarrow> byte_stream \<Rightarrow> (string + bytes) \<times> byte_stream" where
  "read_exact n r =
     (case r of (bs, failure) \<Rightarrow>
        if n \<le> length bs then (Inr (take n bs), (drop n bs, failure))
        else (Inl (case failure of Some e \<Rightarrow> e | None \<Rightarrow> ''early eof''), ([], failure)))"

definition read_data :: "byte_stream \<Rightarrow> (string + bytes) \<times> byte_stream" where
  "read_data r =
     (case read_exact 4 r of
       (Inl e, r) \<Rightarrow> (Inl e, r)
     | (Inr sz, r) \<Rightarrow> read_exact (unat (from_be_u32 sz)) r)"

fun export_loop ::
  "'s store_ops \<Rightarrow> 'w archive_ops \<Rightarrow> 's journal \<Rightarrow> string \<Rightarrow> nat list \<Rightarrow> 'w \<Rightarrow> (actor_error + unit) \<times> 'w"
where
  "export_loop S A j file [] w = (Inr (), w)"
| "export_loop S A j file (seq # seqs) w =
     (case journal_get S j (of_nat seq) of
       Inl e \<Rightarrow> (Inl e, w)
     | Inr data \<Rightarrow>
         (case write_data A file data w of (r, w) \<Rightarrow>
           (case actor_store (\<lambda>e. e) ''Failed to write event data'' r of
             Inl e \<Rightarrow> (Inl e, w)
           | Inr _ \<Rightarrow> export_loop S A j file seqs w)))"

definition journal_export ::
  "'s store_ops \<Rightarrow> 'w archive_ops \<Rightarrow> 's journal \<Rightarrow> string \<Rightarrow> 'w \<Rightarrow> (actor_error + unit) \<times> 'w" where
  "journal_export S A j path w =
     (let file = export_path S j path
      in (case ar_create A w file of
           (Inl e, w) \<Rightarrow>
             (Inl (actor_error.Store (''Failed to create export file '' @ file @ '' from path ''
                @ ar_debug A file @ '': '' @ e)), w)
         | (Inr _, w) \<Rightarrow>
             (case export_loop S A j file [0..<unat (j_next j)] w of
               (Inl e, w) \<Rightarrow> (Inl e, w)
             | (Inr _, w) \<Rightarrow>
                 (case ar_flush A w file of
                   (Inl e, w) \<Rightarrow>
                     (actor_store (\<lambda>e. e) ''Failed to flush export writer'' (Inl e), w)
                 | (Inr _, w) \<Rightarrow>
                     (case ar_shutdown A w file of (r, w) \<Rightarrow>
                        (actor_store (\<lambda>e. e) ''Failed to shutdown export writer'' r, w))))))"

lemma read_data_Inr_shorter:
  "read_data r = (Inr data, r') \<Longrightarrow> length (fst r') < length (fst r)"
  by (auto simp: read_data_def read_exact_def split: prod.splits sum.splits if_splits)

text \<open>The loop of \<open>import\<close>: every event read is put, until a read fails.\<close>

function import_loop ::
  "'s store_ops \<Rightarrow> 's journal \<Rightarrow> byte_stream \<Rightarrow> (actor_error + unit) \<times> 's journal"
where
  "import_loop S j r =
     (case read_data r of
       (Inl _, _) \<Rightarrow> (Inr (), j)
     | (Inr data, r') \<Rightarrow>
         (case journal_put S j data of
           (Inl e, j) \<Rightarrow> (Inl e, j)
         | (Inr _, j) \<Rightarrow> import_loop S j r'))"
  by auto
termination
  by (relation "measure (\<lambda>(S, j, r). length (fst r))") (auto dest!: sym read_data_Inr_shorter)

declare import_loop.simps [simp del]

definition journal_import ::
  "'s store_ops \<Rightarrow> 'w archive_ops \<Rightarrow> 's journal \<Rightarrow> string \<Rightarrow> 'w \<Rightarrow> (actor_error + unit) \<times> 's journal"
where
  "journal_import S A j path w =
     (case so_purge S (j_store j) of (r, s) \<Rightarrow>
        (case actor_store show_store_error ''Purge store error'' r of
          Inl e \<Rightarrow> (Inl e, j\<lparr>j_store := s\<rparr>)
        | Inr _ \<Rightarrow>
            (let j = \<lparr>j_store = s, j_next = 0\<rparr>; file = export_path S j path
             in (case ar_open A w file of
                  Inl e \<Rightarrow>
                    (Inl (actor_error.Store (''Failed to open import file '' @ file @ '' from path ''
                       @ ar_debug A file @ '': '' @ e)), j)
                | Inr r \<Rightarrow> import_loop S j r))))"

section \<open>The message handler\<close>

fun journal_handle ::
  "'s store_ops \<Rightarrow> 'w archive_ops \<Rightarrow> 's journal \<Rightarrow> journal_message \<Rightarrow> 'w
    \<Rightarrow> (actor_error + journal_response) \<times> 's journal \<times> 'w"
where
  "journal_handle S A j (JPut event) w =
     (case journal_put S j event of
       (Inr _, j) \<Rightarrow> (Inr (JRLastSequence (j_next j - 1)), j, w)
     | (Inl e, j) \<Rightarrow>
         (Inl (actor_error.Store (''Failed to put event in journal: '' @ show_actor_error e)), j, w))"
| "journal_handle S A j (JInsert seq event) w =
     (case journal_insert S j seq event of
       (Inr _, j) \<Rightarrow> (Inr JRNone, j, w)
     | (Inl e, j) \<Rightarrow>
         (Inl (actor_error.Store (''Failed to insert event in journal: '' @ show_actor_error e)), j, w))"
| "journal_handle S A j (JGet sequence) w =
     (case journal_get S j sequence of
       Inr event \<Rightarrow> (Inr (JREvent event), j, w)
     | Inl e \<Rightarrow>
         (Inl (actor_error.Store (''Failed to get event from journal: '' @ show_actor_error e)), j, w))"
| "journal_handle S A j JLast w =
     (case journal_last S j of
       Some (seq, event) \<Rightarrow> (Inr (JRLast seq event), j, w)
     | None \<Rightarrow> (Inr JRNotFound, j, w))"
| "journal_handle S A j JLastSequence w = (Inr (JRLastSequence (latest_sequence j)), j, w)"
| "journal_handle S A j (JRange from to) w = (Inr (JREvents (journal_range S j from to)), j, w)"
| "journal_handle S A j JFlush w =
     (case journal_flush S j of
       Inr _ \<Rightarrow> (Inr JRNone, j, w)
     | Inl e \<Rightarrow>
         (Inl (actor_error.Store (''Failed to flush journal: '' @ show_actor_error e)), j, w))"
| "journal_handle S A j (JImport path) w =
     (case journal_import S A j path w of
       (Inr _, j) \<Rightarrow> (Inr JRNone, j, w)
     | (Inl e, j) \<Rightarrow> (Inl e, j, w))"
| "journal_handle S A j (JExport path) w =
     (case journal_export S A j path w of
       (Inr _, w) \<Rightarrow> (Inr JRNone, j, w)
     | (Inl e, w) \<Rightarrow> (Inl e, j, w))"

section \<open>The journal as a list\<close>

definition list_view :: "bytes list \<Rightarrow> u64 \<rightharpoonup> bytes" where
  "list_view es k = (if unat k < length es then Some (es ! unat k) else None)"

definition numbered :: "bytes list \<Rightarrow> (u64 \<times> bytes) list" where
  "numbered es = map (\<lambda>i. (of_nat i, es ! i)) [0..<length es]"

definition journals :: "('s \<Rightarrow> bool) \<Rightarrow> ('s \<Rightarrow> u64 \<rightharpoonup> bytes) \<Rightarrow> 's journal \<Rightarrow> bytes list \<Rightarrow> bool" where
  "journals I V j es \<longleftrightarrow>
     I (j_store j) \<and> V (j_store j) = list_view es \<and> j_next j = of_nat (length es)
     \<and> length es \<le> key_limit"

text \<open>The journal's messages on the list, where they concern events it holds.\<close>

fun log_step :: "bytes list \<Rightarrow> journal_message \<Rightarrow> journal_response \<times> bytes list" where
  "log_step es (JPut e) = (JRLastSequence (of_nat (length es)), es @ [e])"
| "log_step es (JInsert k e) = (JRNone, es[unat k := e])"
| "log_step es (JGet k) = (JREvent (es ! unat k), es)"
| "log_step es JLast =
     ((if es = [] then JRNotFound else JRLast (of_nat (length es - 1)) (last es)), es)"
| "log_step es JLastSequence = (JRLastSequence (of_nat (length es - 1)), es)"
| "log_step es (JRange f t) =
     (let t = (case t of None \<Rightarrow> of_nat (length es - 1) | Some t \<Rightarrow> t)
      in (JREvents (filter (\<lambda>e. f \<le> fst e \<and> fst e \<le> t) (numbered es)), es))"
| "log_step es _ = (JRNone, es)"

fun log_accepts :: "bytes list \<Rightarrow> journal_message \<Rightarrow> bool" where
  "log_accepts es (JPut e) \<longleftrightarrow> length es < key_limit"
| "log_accepts es (JInsert k e) \<longleftrightarrow> unat k < length es"
| "log_accepts es (JGet k) \<longleftrightarrow> unat k < length es"
| "log_accepts es (JImport p) \<longleftrightarrow> False"
| "log_accepts es (JExport p) \<longleftrightarrow> False"
| "log_accepts es _ \<longleftrightarrow> True"

lemma key_limit_u64: "n \<le> key_limit \<Longrightarrow> n < 2 ^ 64"
  by (simp add: key_limit_def)

lemma unat_of_nat_u64: "n \<le> key_limit \<Longrightarrow> unat (of_nat n :: u64) = n"
  by (drule key_limit_u64) (simp add: unsigned_of_nat take_bit_nat_eq_self)

lemma of_nat_u64_eq_iff:
  "m \<le> key_limit \<Longrightarrow> n \<le> key_limit \<Longrightarrow> (of_nat m :: u64) = of_nat n \<longleftrightarrow> m = n"
  by (metis unat_of_nat_u64)

lemma of_nat_pred_u64:
  "0 < n \<Longrightarrow> (of_nat n :: u64) - 1 = of_nat (n - 1)"
  by (cases n) simp_all

lemma list_view_Nil [simp]: "list_view [] = Map.empty"
  by (simp add: list_view_def fun_eq_iff)

lemma list_view_snoc:
  assumes "length es < key_limit"
  shows "(list_view es)(of_nat (length es) \<mapsto> e) = list_view (es @ [e])"
proof
  fix k :: u64
  have "unat k = length es \<longleftrightarrow> k = of_nat (length es)"
    using assms by (metis unat_of_nat_u64 less_imp_le word_unat_eq_iff)
  then show "((list_view es)(of_nat (length es) \<mapsto> e)) k = list_view (es @ [e]) k"
    by (auto simp: list_view_def nth_append)
qed

lemma list_view_update:
  assumes "unat k < length es"
  shows "(list_view es)(k \<mapsto> e) = list_view (es[unat k := e])"
  using assms by (auto simp: list_view_def fun_eq_iff nth_list_update word_unat_eq_iff)

lemma numbered_ok:
  assumes "length es \<le> key_limit"
  shows "bt_ok (numbered es)"
proof -
  have "sorted_wrt (\<lambda>i j. (of_nat i :: u64) < of_nat j) [0..<length es]"
    by (rule sorted_wrt_mono_rel [of _ "(<)"])
      (use assms in \<open>auto simp: word_less_nat_alt unat_of_nat_u64\<close>)
  then show ?thesis by (simp add: numbered_def bt_ok_def comp_def sorted_wrt_map)
qed

lemma map_of_numbered:
  assumes "length es \<le> key_limit"
  shows "map_of (numbered es) = list_view es"
proof
  fix k
  note d = bt_ok_distinct [OF numbered_ok [OF assms]]
  have "map_of (numbered es) k = Some v \<longleftrightarrow> unat k < length es \<and> Some (es ! unat k) = Some v" for v
  proof
    assume "map_of (numbered es) k = Some v"
    then obtain i where "i < length es" "k = of_nat i" "v = es ! i"
      using map_of_SomeD by (fastforce simp: numbered_def)
    with assms show "unat k < length es \<and> Some (es ! unat k) = Some v"
      by (simp add: unat_of_nat_u64)
  next
    assume "unat k < length es \<and> Some (es ! unat k) = Some v"
    then have "(k, v) \<in> set (numbered es)"
      by (auto simp: numbered_def image_iff intro!: bexI [of _ "unat k"])
    with d show "map_of (numbered es) k = Some v" by simp
  qed
  then show "map_of (numbered es) k = list_view es k"
    unfolding list_view_def by (rule option_eqI_if)
qed

lemma entries_list_view: "length es \<le> key_limit \<Longrightarrow> entries (list_view es) = numbered es"
  by (simp add: entries_eqI numbered_ok map_of_numbered)

lemma numbered_snoc: "numbered (es @ [e]) = numbered es @ [(of_nat (length es), e)]"
  by (simp add: numbered_def nth_append)

lemma last_numbered: "last_entry (numbered es)
    = (if es = [] then None else Some (of_nat (length es - 1), last es))"
  by (cases es rule: rev_cases) (simp_all add: numbered_snoc last_entry_def, simp add: numbered_def)

lemma journals_latest:
  "journals I V j es \<Longrightarrow> latest_sequence j = of_nat (length es - 1)"
  by (auto simp: journals_def latest_sequence_def of_nat_u64_eq_iff [of _ 0, simplified] of_nat_pred_u64)

context store_contract begin

lemma journal_new_journals:
  assumes "inv s" and "view s = list_view es" and "length es \<le> key_limit"
  shows "journals inv view (journal_new S s) es"
proof -
  have "so_last S s = (if es = [] then None else Some (of_nat (length es - 1), last es))"
    using assms by (simp add: last_view entries_list_view last_numbered)
  then show ?thesis
    using assms by (cases es) (auto simp: journal_new_def journals_def)
qed

lemma journal_put_journals:
  assumes "journals inv view j es" and "length es < key_limit"
    and "journal_put S j e = (Inr (), j')"
  shows "journals inv view j' (es @ [e])"
proof -
  note j = assms(1) [unfolded journals_def]
  have k: "unat (of_nat (length es) :: u64) < key_limit"
    using assms(2) by (simp add: unat_of_nat_u64)
  obtain s where s: "so_put S (j_store j) (of_nat (length es)) e = (Inr (), s)"
    "j' = \<lparr>j_store = s, j_next = of_nat (length es) + 1\<rparr>"
    using assms(3) j by (auto simp: journal_put_def split: prod.splits sum.splits)
  then show ?thesis
    using j assms(2) put_inv [OF _ k s(1)] put_view [OF _ k s(1)]
    by (simp add: journals_def list_view_snoc)
qed

lemma journal_get_journals:
  assumes "journals inv view j es"
  shows "unat k < length es \<Longrightarrow> journal_get S j k = Inr (es ! unat k)"
    and "length es \<le> unat k \<Longrightarrow> unat k < key_limit \<Longrightarrow> \<exists>t. journal_get S j k = Inl (actor_error.Store t)"
  using assms get_Some [of "j_store j" k] get_None [of "j_store j" k]
  by (auto simp: journal_get_def journals_def list_view_def)

lemma journal_last_journals:
  assumes "journals inv view j es"
  shows "journal_last S j = (if es = [] then None else Some (of_nat (length es - 1), last es))"
proof -
  have l: "length es \<le> key_limit" using assms by (simp add: journals_def)
  let ?k = "of_nat (length es - 1) :: u64"
  have k: "unat ?k = length es - 1"
    by (rule unat_of_nat_u64) (use l in simp)
  show ?thesis
  proof (cases "es = []")
    case True
    then show ?thesis
      using journal_get_journals(2) [OF assms, of ?k] k
      by (auto simp: journal_last_def journals_latest [OF assms] key_limit_def)
  next
    case False
    then show ?thesis
      using journal_get_journals(1) [OF assms, of ?k] k
      by (simp only: journal_last_def journals_latest [OF assms]) (simp add: last_conv_nth)
  qed
qed

lemma journal_range_journals:
  assumes "journals inv view j es"
  shows "journal_range S j f t
    = filter (\<lambda>e. f \<le> fst e \<and> fst e \<le> (case t of None \<Rightarrow> of_nat (length es - 1) | Some t \<Rightarrow> t)) (numbered es)"
  using assms journals_latest [OF assms]
  by (auto simp: journal_range_def Let_def iter_range journals_def entries_list_view split: option.splits)

lemma journal_insert_journals:
  assumes "journals inv view j es" and "unat k < length es"
    and "journal_insert S j k e = (Inr (), j')"
  shows "journals inv view j' (es[unat k := e])"
proof -
  note j = assms(1) [unfolded journals_def]
  have k: "unat k < key_limit" using j assms(2) by simp
  obtain s where s: "so_put S (j_store j) k e = (Inr (), s)" "j' = j\<lparr>j_store := s\<rparr>"
    using assms(3) by (auto simp: journal_insert_def split: prod.splits)
  then show ?thesis
    using j put_inv [OF _ k s(1)] put_view [OF _ k s(1)] assms(2)
    by (simp add: journals_def list_view_update)
qed

end

section \<open>The messages refine the list\<close>

fun journal_run ::
  "'s store_ops \<Rightarrow> 'w archive_ops \<Rightarrow> 's journal \<Rightarrow> 'w \<Rightarrow> journal_message list
    \<Rightarrow> (actor_error + journal_response) list \<times> 's journal \<times> 'w" where
  "journal_run S A j w [] = ([], j, w)"
| "journal_run S A j w (m # ms) =
     (case journal_handle S A j m w of (r, j, w) \<Rightarrow>
        (case journal_run S A j w ms of (rs, j, w) \<Rightarrow> (r # rs, j, w)))"

fun log_run :: "bytes list \<Rightarrow> journal_message list \<Rightarrow> journal_response list \<times> bytes list" where
  "log_run es [] = ([], es)"
| "log_run es (m # ms) =
     (case log_step es m of (r, es) \<Rightarrow> (case log_run es ms of (rs, es) \<Rightarrow> (r # rs, es)))"

fun log_accepts_all :: "bytes list \<Rightarrow> journal_message list \<Rightarrow> bool" where
  "log_accepts_all es [] \<longleftrightarrow> True"
| "log_accepts_all es (m # ms) \<longleftrightarrow> log_accepts es m \<and> log_accepts_all (snd (log_step es m)) ms"

context reliable_store begin

lemma journal_put_Ok: "journals inv view j es \<Longrightarrow> \<exists>j'. journal_put S j e = (Inr (), j')"
  using put_ok [of "j_store j" "j_next j" e]
  by (auto simp: journals_def journal_put_def)

lemma journal_insert_Ok: "journals inv view j es \<Longrightarrow> \<exists>j'. journal_insert S j k e = (Inr (), j')"
  using put_ok [of "j_store j" k e]
  by (auto simp: journals_def journal_insert_def)

lemma journal_step:
  assumes j: "journals inv view j es" and acc: "log_accepts es m" and log: "log_step es m = (r, es')"
  shows "\<exists>j'. journal_handle S A j m w = (Inr r, j', w) \<and> journals inv view j' es'"
proof (cases m)
  case (JPut e)
  obtain j' where put: "journal_put S j e = (Inr (), j')"
    using journal_put_Ok [OF j] by blast
  moreover have "journals inv view j' (es @ [e])"
    using acc JPut by (intro journal_put_journals [OF j _ put]) simp
  moreover from this have "j_next j' = of_nat (length es) + 1"
    by (simp add: journals_def)
  ultimately show ?thesis using JPut log by auto
next
  case (JInsert k e)
  obtain j' where put: "journal_insert S j k e = (Inr (), j')"
    using journal_insert_Ok [OF j] by blast
  moreover have "journals inv view j' (es[unat k := e])"
    using acc JInsert by (intro journal_insert_journals [OF j _ put]) simp
  ultimately show ?thesis using JInsert log by auto
next
  case (JGet k)
  then show ?thesis using j acc log journal_get_journals(1) [OF j, of k] by auto
next
  case JLast
  then show ?thesis using j log journal_last_journals [OF j] by auto
next
  case JLastSequence
  then show ?thesis using j log journals_latest [OF j] by auto
next
  case (JRange f t)
  then show ?thesis using j log journal_range_journals [OF j, of f t] by (auto simp: Let_def)
next
  case JFlush
  then show ?thesis
    using j log flush_ok [of "j_store j"] by (auto simp: journal_flush_def journals_def)
qed (use acc in simp_all)

lemma journal_run_refines:
  "journals inv view j es \<Longrightarrow> log_accepts_all es ms
    \<Longrightarrow> \<exists>j'. journal_run S A j w ms = (map Inr (fst (log_run es ms)), j', w)
        \<and> journals inv view j' (snd (log_run es ms))"
proof (induction ms arbitrary: j es)
  case (Cons m ms)
  obtain r es' where log: "log_step es m = (r, es')" by (cases "log_step es m")
  then obtain j' where "journal_handle S A j m w = (Inr r, j', w)" "journals inv view j' es'"
    using journal_step [OF Cons.prems(1)] Cons.prems(2) by force
  with Cons.IH [of j' es'] Cons.prems(2) log show ?case by (auto split: prod.splits)
qed auto

end

section \<open>The records of an export file\<close>

definition record_bytes :: "bytes \<Rightarrow> bytes" where
  "record_bytes d = be_u32 (of_nat (length d)) @ d"

lemma length_be_u32 [simp]: "length (be_u32 w) = 4"
  by (simp add: be_u32_def)

lemma shift_add_byte: "256 * acc + ucast (b :: 8 word) = (push_bit 8 acc OR ucast b :: 32 word)"
proof -
  have "push_bit 8 acc + ucast b = (push_bit 8 acc OR ucast b :: 32 word)"
    by (rule disjunctive_add) (auto simp: bit_simps dest: bit_imp_le_length)
  then show ?thesis by (simp add: push_bit_eq_mult mult.commute)
qed
lemma from_be_u32_be_u32 [simp]: "from_be_u32 (be_u32 w) = w"
  unfolding from_be_u32_def be_u32_def foldl.simps shift_add_byte
proof (rule bit_word_eqI)
  fix n assume n: "n < LENGTH(32)"
  consider "n < 8" | "8 \<le> n" "n < 16" | "16 \<le> n" "n < 24" | "24 \<le> n" by linarith
  then show "bit (push_bit 8 (push_bit 8 (push_bit 8 (push_bit 8 (0 :: 32 word) OR ucast (ucast (drop_bit 24 w) :: 8 word))
      OR ucast (ucast (drop_bit 16 w) :: 8 word)) OR ucast (ucast (drop_bit 8 w) :: 8 word))
      OR ucast (ucast w :: 8 word)) n = bit w n"
    using n by cases (auto simp: bit_simps Suc_diff_le)
qed

lemma from_be_u32_length:
  "length d < 2 ^ 32 \<Longrightarrow> unat (from_be_u32 (be_u32 (of_nat (length d)))) = length d"
  by (simp add: unsigned_of_nat take_bit_nat_eq_self)

lemma read_data_record:
  "length d < 2 ^ 32 \<Longrightarrow> read_data (record_bytes d @ rest, e) = (Inr d, (rest, e))"
  by (simp add: read_data_def read_exact_def record_bytes_def from_be_u32_length del: from_be_u32_be_u32)

text \<open>A stream whose next record is incomplete.\<close>

definition broken :: "byte_stream \<Rightarrow> bool" where
  "broken r \<longleftrightarrow> \<not> is_ok (fst (read_data r))"

lemma broken_Nil [simp]: "broken ([], e)"
  by (simp add: broken_def read_data_def read_exact_def)

lemma broken_truncated:
  assumes "length d < 2 ^ 32" and "n < length (record_bytes d)"
  shows "broken (take n (record_bytes d), e)"
proof (cases "n < 4")
  case True
  then show ?thesis by (simp add: broken_def read_data_def read_exact_def)
next
  case False
  then have "take n (record_bytes d) = be_u32 (of_nat (length d)) @ take (n - 4) d"
    by (simp add: record_bytes_def)
  moreover have "n - 4 < length d" using assms(2) False by (simp add: record_bytes_def)
  ultimately show ?thesis
    using from_be_u32_length [OF assms(1)]
    by (simp add: broken_def read_data_def read_exact_def del: from_be_u32_be_u32)
qed

context reliable_store begin

lemma import_loop_journals:
  assumes "journals inv view j es" and "length es + length ds \<le> key_limit"
    and "\<forall>d \<in> set ds. length d < 2 ^ 32" and "broken (tail, e)"
  shows "\<exists>j'. import_loop S j (concat (map record_bytes ds) @ tail, e) = (Inr (), j')
    \<and> journals inv view j' (es @ ds)"
  using assms(1-3)
proof (induction ds arbitrary: j es)
  case Nil
  then show ?case
    using assms(4) by (subst import_loop.simps) (auto simp: broken_def split: prod.splits sum.splits)
next
  case (Cons d ds)
  obtain j' where put: "journal_put S j d = (Inr (), j')"
    using journal_put_Ok [OF Cons.prems(1)] by blast
  have "journals inv view j' (es @ [d])"
    using Cons.prems(2) by (intro journal_put_journals [OF Cons.prems(1) _ put]) simp
  with Cons.IH [of j' "es @ [d]"] Cons.prems(2,3) put show ?case
    by (subst import_loop.simps) (simp add: read_data_record)
qed

text \<open>An import replaces whatever the journal held.\<close>

lemma journal_import_journals:
  assumes "inv (j_store j)" and "ar_open A w (export_path S j path) = Inr (concat (map record_bytes ds) @ tail, e)"
    and "length ds \<le> key_limit" and "\<forall>d \<in> set ds. length d < 2 ^ 32" and "broken (tail, e)"
  shows "\<exists>j'. journal_import S A j path w = (Inr (), j') \<and> journals inv view j' ds"
proof -
  obtain s where p: "so_purge S (j_store j) = (Inr (), s)"
    using purge_ok [OF assms(1)] by blast
  note s = purge_inv [OF assms(1) p] purge_view [OF assms(1) p] purge_prefix [OF assms(1) p]
  let ?j = "\<lparr>j_store = s, j_next = 0\<rparr>"
  have "journals inv view ?j []" using s by (simp add: journals_def)
  from import_loop_journals [OF this, of ds tail e] assms(3-5) p assms(2) s(3)
  show ?thesis by (simp add: journal_import_def export_path_def Let_def)
qed

text \<open>Whatever a reader delivers, an import of it succeeds, as long as it is not longer
  than the journal has room for.\<close>

lemma import_loop_any:
  assumes "journals inv view j es" and "length es + length (fst r) \<le> key_limit"
  shows "\<exists>j' es'. import_loop S j r = (Inr (), j') \<and> journals inv view j' es'"
  using assms
proof (induction "length (fst r)" arbitrary: r j es rule: less_induct)
  case less
  obtain d r' where d: "read_data r = (d, r')" by (cases "read_data r")
  show ?case
  proof (cases d)
    case (Inl e)
    then show ?thesis using d less.prems(1) by (subst import_loop.simps) auto
  next
    case (Inr data)
    with d have short: "length (fst r') < length (fst r)" by (auto dest: read_data_Inr_shorter)
    obtain j1 where put: "journal_put S j data = (Inr (), j1)"
      using journal_put_Ok [OF less.prems(1)] by blast
    have "journals inv view j1 (es @ [data])"
      using less.prems(2) short by (intro journal_put_journals [OF less.prems(1) _ put]) simp
    from less.hyps [OF short this] less.prems(2) short d Inr put show ?thesis
      by (subst import_loop.simps) simp
  qed
qed

lemma journal_import_any:
  assumes "inv (j_store j)" and "ar_open A w (export_path S j path) = Inr r" and "length (fst r) \<le> key_limit"
  shows "\<exists>j' es. journal_import S A j path w = (Inr (), j') \<and> journals inv view j' es"
proof -
  obtain s where p: "so_purge S (j_store j) = (Inr (), s)"
    using purge_ok [OF assms(1)] by blast
  note s = purge_inv [OF assms(1) p] purge_view [OF assms(1) p] purge_prefix [OF assms(1) p]
  let ?j = "\<lparr>j_store = s, j_next = 0\<rparr>"
  have "journals inv view ?j []" using s by (simp add: journals_def)
  from import_loop_any [OF this, of r] assms(3) p assms(2) s(3)
  show ?thesis by (simp add: journal_import_def export_path_def Let_def)
qed

lemma journal_import_missing:
  assumes "inv (j_store j)" and "ar_open A w (export_path S j path) = Inl e"
  shows "\<exists>j' t. journal_import S A j path w = (Inl (actor_error.Store t), j') \<and> journals inv view j' []"
proof -
  obtain s where p: "so_purge S (j_store j) = (Inr (), s)"
    using purge_ok [OF assms(1)] by blast
  note s = purge_inv [OF assms(1) p] purge_view [OF assms(1) p] purge_prefix [OF assms(1) p]
  with p assms(2) show ?thesis
    by (auto simp: journal_import_def export_path_def Let_def journals_def)
qed

end

section \<open>What the file system and the codec promise\<close>

text \<open>\<open>pending w p\<close> is what the open writer of \<open>p\<close> has been given,
  \<open>stored w p\<close> what the encoder of the closed file had been given. What a reader
  delivers is no law: \<open>import\<close> reads through the decoder of the codec's write side,
  whose documentation does not say that reading from it decodes.\<close>

locale archive =
  fixes A :: "'w archive_ops"
    and pending :: "'w \<Rightarrow> string \<Rightarrow> bytes option"
    and stored :: "'w \<Rightarrow> string \<Rightarrow> bytes option"
  assumes ar_create: "ar_create A w p = (Inr (), w') \<Longrightarrow> pending w' p = Some []"
    and ar_write: "ar_write A w p b = (Inr (), w') \<Longrightarrow> pending w p = Some c \<Longrightarrow> pending w' p = Some (c @ b)"
    and ar_flush: "ar_flush A w p = (Inr (), w') \<Longrightarrow> pending w' p = pending w p"
    and ar_shutdown: "ar_shutdown A w p = (Inr (), w') \<Longrightarrow> stored w' p = pending w p"
begin

lemma write_data_pending:
  "write_data A p d w = (Inr (), w') \<Longrightarrow> pending w p = Some c \<Longrightarrow> pending w' p = Some (c @ record_bytes d)"
  by (fastforce simp: write_data_def record_bytes_def Let_def split: prod.splits sum.splits dest: ar_write)

lemma export_loop_pending:
  assumes "\<And>i. i \<in> set is \<Longrightarrow> journal_get S j (of_nat i) = Inr (f i)"
    and "export_loop S A j p is w = (Inr (), w')" and "pending w p = Some c"
  shows "pending w' p = Some (c @ concat (map (\<lambda>i. record_bytes (f i)) is))"
  using assms
proof (induction "is" arbitrary: w c)
  case (Cons i "is")
  then obtain w1 where w1: "write_data A p (f i) w = (Inr (), w1)" "export_loop S A j p is w1 = (Inr (), w')"
    by (auto split: prod.splits sum.splits)
  from write_data_pending [OF w1(1) Cons.prems(3)] Cons.IH [OF _ w1(2)] Cons.prems(1)
  show ?case by simp
qed simp

end

lemma export_stored:
  assumes "store_contract S I V" and "archive A pending stored"
    and j: "journals I V j es" and "journal_export S A j path w = (Inr (), w')"
  shows "stored w' (export_path S j path) = Some (concat (map record_bytes es))"
proof -
  let ?p = "export_path S j path"
  have len: "unat (j_next j) = length es" and lim: "length es \<le> key_limit"
    using j by (auto simp: journals_def unat_of_nat_u64)
  obtain w1 w2 w3 where w: "ar_create A w ?p = (Inr (), w1)"
    "export_loop S A j ?p [0..<length es] w1 = (Inr (), w2)"
    "ar_flush A w2 ?p = (Inr (), w3)" "ar_shutdown A w3 ?p = (Inr (), w')"
    using assms(4) by (auto simp: journal_export_def Let_def len split: prod.splits sum.splits)
  have get: "journal_get S j (of_nat i) = Inr (es ! i)" if "i \<in> set [0..<length es]" for i
    using store_contract.journal_get_journals(1) [OF assms(1) j, of "of_nat i"] that lim
    by (simp add: unat_of_nat_u64)
  have "pending w2 ?p = Some ([] @ concat (map (\<lambda>i. record_bytes (es ! i)) [0..<length es]))"
    by (rule archive.export_loop_pending [OF assms(2) get w(2) archive.ar_create [OF assms(2) w(1)]])
  also have "map (\<lambda>i. record_bytes (es ! i)) [0..<length es] = map record_bytes es"
    by (rule nth_equalityI) simp_all
  finally show ?thesis
    using archive.ar_flush [OF assms(2) w(3)] archive.ar_shutdown [OF assms(2) w(4)] by simp
qed

text \<open>Where nothing fails, an export succeeds, and a file that was closed opens again. Its
  reader delivers at most what an encoder makes of the bytes, which is never much longer
  than they are; which bytes these are is left open.\<close>

locale writable_archive = archive +
  assumes create_ok: "\<exists>w'. ar_create A w p = (Inr (), w')"
    and write_ok: "pending w p = Some c \<Longrightarrow> \<exists>w'. ar_write A w p b = (Inr (), w')"
    and flush_ok: "pending w p = Some c \<Longrightarrow> \<exists>w'. ar_flush A w p = (Inr (), w')"
    and shutdown_ok: "pending w p = Some c \<Longrightarrow> \<exists>w'. ar_shutdown A w p = (Inr (), w')"
    and open_ok: "stored w p = Some c \<Longrightarrow> \<exists>r. ar_open A w p = Inr r \<and> length (fst r) \<le> 2 * length c + 1000"
begin

lemma write_data_ok:
  assumes "pending w p = Some c"
  obtains w' c' where "write_data A p d w = (Inr (), w')" "pending w' p = Some c'"
proof -
  obtain w1 where w1: "ar_write A w p (be_u32 (of_nat (length d))) = (Inr (), w1)" using write_ok [OF assms] by blast
  obtain w2 where w2: "ar_write A w1 p d = (Inr (), w2)" using write_ok [OF ar_write [OF w1 assms]] by blast
  show ?thesis
    by (rule that [of w2]) (simp_all add: write_data_def Let_def w1 w2 ar_write [OF w2 ar_write [OF w1 assms]])
qed

lemma export_loop_ok:
  assumes "\<And>i. i \<in> set is \<Longrightarrow> \<exists>d. journal_get S j (of_nat i) = Inr d" and "pending w p = Some c"
  shows "\<exists>w' c'. export_loop S A j p is w = (Inr (), w') \<and> pending w' p = Some c'"
  using assms
proof (induction "is" arbitrary: w c)
  case (Cons i "is")
  obtain d where d: "journal_get S j (of_nat i) = Inr d" using Cons.prems(1) [of i] by auto
  obtain w1 c1 where w1: "write_data A p d w = (Inr (), w1)" "pending w1 p = Some c1"
    using write_data_ok [OF Cons.prems(2)] .
  from Cons.IH [OF _ w1(2)] Cons.prems(1) d w1(1) show ?case by simp
qed simp

lemma export_succeeds:
  assumes "store_contract S I V" and j: "journals I V j es"
  shows "\<exists>w'. journal_export S A j path w = (Inr (), w')"
proof -
  let ?p = "export_path S j path"
  have len: "unat (j_next j) = length es" and lim: "length es \<le> key_limit"
    using j by (auto simp: journals_def unat_of_nat_u64)
  have get: "\<exists>d. journal_get S j (of_nat i) = Inr d" if "i \<in> set [0..<length es]" for i
    using store_contract.journal_get_journals(1) [OF assms(1) j, of "of_nat i"] that lim
    by (simp add: unat_of_nat_u64)
  obtain w1 where w1: "ar_create A w ?p = (Inr (), w1)" using create_ok by blast
  obtain w2 c2 where w2: "export_loop S A j ?p [0..<length es] w1 = (Inr (), w2)" "pending w2 ?p = Some c2"
    using export_loop_ok [OF get ar_create [OF w1]] by blast
  obtain w3 where w3: "ar_flush A w2 ?p = (Inr (), w3)" using flush_ok [OF w2(2)] by blast
  obtain w4 where "ar_shutdown A w3 ?p = (Inr (), w4)"
    using shutdown_ok [of w3 ?p c2] ar_flush [OF w3] w2(2) by auto
  then show ?thesis by (simp add: journal_export_def Let_def len w1 w2(1) w3)
qed

end

text \<open>A file system held in memory provides the interface: open writers and closed files.\<close>

record mem_files =
  mf_writers :: "string \<rightharpoonup> bytes"
  mf_files :: "string \<rightharpoonup> bytes"

definition mem_archive :: "mem_files archive_ops" where
  "mem_archive = \<lparr>
     ar_create = (\<lambda>w p. (Inr (), w\<lparr>mf_writers := (mf_writers w)(p \<mapsto> [])\<rparr>)),
     ar_write = (\<lambda>w p b.
       case mf_writers w p of
         None \<Rightarrow> (Inl ''closed'', w)
       | Some c \<Rightarrow> (Inr (), w\<lparr>mf_writers := (mf_writers w)(p \<mapsto> c @ b)\<rparr>)),
     ar_flush = (\<lambda>w p. (Inr (), w)),
     ar_shutdown = (\<lambda>w p. (Inr (), w\<lparr>mf_files := (mf_files w)(p := mf_writers w p)\<rparr>)),
     ar_open = (\<lambda>w p.
       case mf_files w p of
         None \<Rightarrow> Inl ''No such file or directory (os error 2)''
       | Some c \<Rightarrow> Inr (c, None)),
     ar_debug = (\<lambda>p. ''\"'' @ p @ ''\"'') \<rparr>"

interpretation mem_archive: writable_archive mem_archive mf_writers mf_files
  by unfold_locales (auto simp: mem_archive_def split: option.splits)

definition no_files :: mem_files where
  "no_files = \<lparr>mf_writers = Map.empty, mf_files = Map.empty\<rparr>"

section \<open>Properties\<close>

text \<open>A journal opened on the empty in-memory store.\<close>

definition sample_journal :: "(memory_store \<times> mem_heap) journal" where
  "sample_journal = journal_new memory_ops (sample_store, empty_heap)"

lemma sample_view: "mem_view (sample_store, empty_heap) = list_view []"
  by (simp add: mem_view_def mem_data_def empty_heap_def fun_eq_iff)

lemma sample_journals: "journals mem_inv mem_view sample_journal []"
  unfolding sample_journal_def
  by (rule mem.journal_new_journals) (simp_all only: sample_inv sample_view list.size zero_le)

text \<open>C3: a journal over a backend that keeps its contract answers every sequence of
  messages about the events it holds exactly as a list of events does: a put
  appends and answers its index, a get reads, an insert replaces, a range is a
  slice; every answer is the list's and the final journal holds the final list.\<close>

theorem journal_refines_list:
  assumes "reliable_store S I V" and "journals I V j es" and "log_accepts_all es ms"
  shows "\<exists>j'. journal_run S A j w ms = (map Inr (fst (log_run es ms)), j', w)
    \<and> journals I V j' (snd (log_run es ms))"
  using assms by (rule reliable_store.journal_run_refines)

theorem journal_refines_list_witness:
  "\<exists>j'. journal_run memory_ops mem_archive sample_journal no_files
      [JPut [1], JPut [2], JInsert 0 [3], JGet 0, JLast, JRange 1 None]
    = ([Inr (JRLastSequence 0), Inr (JRLastSequence 1), Inr JRNone, Inr (JREvent [3]),
        Inr (JRLast 1 [2]), Inr (JREvents [(1, [2])])], j', no_files)"
  using journal_refines_list [OF mem.reliable_store_axioms sample_journals,
      of "[JPut [1], JPut [2], JInsert 0 [3], JGet 0, JLast, JRange 1 None]" mem_archive no_files]
  by (auto simp: key_limit_def numbered_def Let_def simp del: journal_run.simps)

text \<open>Opening a journal on a store that a journal left behind restores that
  journal: the next sequence number is the number of events.\<close>

theorem journal_reopen:
  assumes "store_contract S I V" and "journals I V j es"
  shows "journal_new S (j_store j) = j \<and> latest_sequence j = of_nat (length es - 1)"
proof -
  have "journals I V (journal_new S (j_store j)) es"
    using assms(2) by (intro store_contract.journal_new_journals [OF assms(1)]) (auto simp: journals_def)
  with assms(2) have "j_next (journal_new S (j_store j)) = j_next j" by (simp add: journals_def)
  then show ?thesis
    using journals_latest [OF assms(2)] by (cases j) (simp add: journal_new_def Let_def)
qed

theorem journal_reopen_witness:
  "journal_new memory_ops (j_store sample_journal) = sample_journal"
  using journal_reopen [OF mem.store_contract_axioms sample_journals] by blast

text \<open>C14: the format of exported events round-trips. An export that answers success has
  given the encoder exactly the records of the journal's events, in order, each its length in
  four bytes and then its bytes; and if every event is shorter than four gigabytes, any
  import whose reader delivers those bytes, into any journal over a backend that accepts
  its writes, whatever it held before and from whatever file, answers success and leaves exactly those events. Nothing is
  assumed of what the reader of a gzip file delivers: where it hands over the compressed bytes
  instead, \<open>import_compressed_empties\<close> says what happens.\<close>

theorem export_import_roundtrip:
  fixes A :: "'w archive_ops"
  assumes "store_contract S1 I1 V1" and "reliable_store S I V" and "archive A pending stored"
    and "journals I1 V1 j es" and "\<forall>e \<in> set es. length e < 2 ^ 32"
    and "journal_export S1 A j path w = (Inr (), w')"
  shows "stored w' (export_path S1 j path) = Some (concat (map record_bytes es))
    \<and> (\<forall>k dir (reader :: 'b archive_ops) w2. I (j_store k) \<and> ar_open reader w2 (export_path S k dir) = Inr (concat (map record_bytes es), None)
        \<longrightarrow> (\<exists>k'. journal_import S reader k dir w2 = (Inr (), k') \<and> journals I V k' es))"
proof (intro conjI allI impI; (elim conjE)?)
  show "stored w' (export_path S1 j path) = Some (concat (map record_bytes es))"
    by (rule export_stored [OF assms(1,3,4,6)])
  fix k dir w2 and reader :: "'b archive_ops"
  assume k: "I (j_store k)" and "ar_open reader w2 (export_path S k dir) = Inr (concat (map record_bytes es), None)"
  then have "ar_open reader w2 (export_path S k dir) = Inr (concat (map record_bytes es) @ [], None)" by simp
  from reliable_store.journal_import_journals [OF assms(2) k this _ assms(5)] assms(4)
  show "\<exists>k'. journal_import S reader k dir w2 = (Inr (), k') \<and> journals I V k' es"
    by (simp add: journals_def)
qed

definition one_event_journal :: "bytes \<Rightarrow> (memory_store \<times> mem_heap) journal" where
  "one_event_journal e = snd (journal_put memory_ops sample_journal e)"

definition two_event_journal :: "(memory_store \<times> mem_heap) journal" where
  "two_event_journal = snd (journal_put memory_ops (one_event_journal [1, 2]) [3])"

lemma event_journals:
  "journals mem_inv mem_view (one_event_journal e) [e]"
  "journals mem_inv mem_view two_event_journal [[1, 2], [3]]"
proof -
  show one: "journals mem_inv mem_view (one_event_journal e) [e]" for e
    using mem.journal_put_Ok [OF sample_journals, of e] mem.journal_put_journals [OF sample_journals, of e]
    by (auto simp: one_event_journal_def key_limit_def)
  show "journals mem_inv mem_view two_event_journal [[1, 2], [3]]"
    using mem.journal_put_Ok [OF one, of "[1, 2]" "[3]"] mem.journal_put_journals [OF one, of "[1, 2]" "[3]"]
    by (auto simp: two_event_journal_def key_limit_def)
qed

lemma journal_put_prefix:
  "so_prefix memory_ops (j_store (snd (journal_put memory_ops j e))) = so_prefix memory_ops (j_store j)"
  by (cases "j_store j") (auto simp: journal_put_def split: prod.splits sum.splits)

theorem export_import_roundtrip_witness:
  "\<exists>w k'. journal_export memory_ops mem_archive two_event_journal ''d'' no_files = (Inr (), w)
    \<and> journal_import memory_ops mem_archive (one_event_journal [9]) ''d'' w = (Inr (), k')
    \<and> journals mem_inv mem_view k' [[1, 2], [3]]"
proof -
  obtain w where w: "journal_export memory_ops mem_archive two_event_journal ''d'' no_files = (Inr (), w)"
    using mem_archive.export_succeeds [OF mem.store_contract_axioms event_journals(2)] by blast
  have inv: "mem_inv (j_store (one_event_journal [9]))" using event_journals(1) by (simp add: journals_def)
  have path: "export_path memory_ops (one_event_journal [9]) ''d'' = export_path memory_ops two_event_journal ''d''"
    by (simp add: export_path_def one_event_journal_def two_event_journal_def journal_put_prefix)
  have short: "\<forall>e \<in> set [[1, 2], [3 :: 8 word]]. length e < 2 ^ 32" by simp
  note trip = export_import_roundtrip [OF mem.store_contract_axioms mem.reliable_store_axioms
      mem_archive.archive_axioms event_journals(2) short w]
  have "ar_open mem_archive w (export_path memory_ops (one_event_journal [9]) ''d'')
      = Inr (concat (map record_bytes [[1, 2], [3]]), None)"
    unfolding path using conjunct1 [OF trip] by (simp add: mem_archive_def)
  then have "\<exists>k'. journal_import memory_ops mem_archive (one_event_journal [9]) ''d'' w = (Inr (), k')
      \<and> journals mem_inv mem_view k' [[1, 2], [3]]"
    by (intro conjunct2 [OF trip, rule_format] conjI inv)
  with w show ?thesis by blast
qed

text \<open>A file that ends inside a record is imported without an error: the
  complete records before it replace the journal and the answer is success.\<close>

theorem import_truncated_ok:
  assumes "reliable_store S I V" and "I (j_store j)"
    and "ar_open A w (export_path S j path)
      = Inr (concat (map record_bytes ds) @ take n (record_bytes d), e)"
    and "length ds \<le> key_limit" and "\<forall>x \<in> set (d # ds). length x < 2 ^ 32"
    and "n < length (record_bytes d)"
  shows "\<exists>j'. journal_handle S A j (JImport path) w = (Inr JRNone, j', w) \<and> journals I V j' ds"
proof -
  have "broken (take n (record_bytes d), e)"
    using assms(5,6) by (simp add: broken_truncated)
  from reliable_store.journal_import_journals [OF assms(1,2,3,4) _ this] assms(5)
  show ?thesis by auto
qed

definition truncated_archive :: "mem_files archive_ops" where
  "truncated_archive = mem_archive\<lparr>ar_open := (\<lambda>w p. Inr ([0, 0, 0, 1, 9, 0, 0], None))\<rparr>"

theorem import_truncated_ok_witness:
  "\<exists>j'. journal_handle memory_ops truncated_archive sample_journal (JImport ''d'') no_files
      = (Inr JRNone, j', no_files) \<and> journals mem_inv mem_view j' [[9]]"
proof -
  have "mem_inv (j_store sample_journal)" using sample_journals by (simp add: journals_def)
  moreover have "[0, 0, 0, 1, 9, 0, 0]
      = concat (map record_bytes [[9]]) @ take 2 (record_bytes [7])"
    by (simp add: record_bytes_def be_u32_def)
  ultimately show ?thesis
    by (intro import_truncated_ok [OF mem.reliable_store_axioms, where n = 2 and d = "[7]" and e = None])
      (simp_all add: truncated_archive_def key_limit_def record_bytes_def)
qed

text \<open>C34: if the reader hands over the compressed bytes (\<open>import\<close> reads through the
  decoder of the codec's write side), an import of any gzip file of less than half
  a gigabyte succeeds and leaves the journal empty: the gzip header is taken for
  the size of the first record.\<close>

theorem import_compressed_empties:
  assumes "reliable_store S I V" and "I (j_store j)"
    and "ar_open A w (export_path S j path) = Inr ([31, 139, 8, 0] @ rest, e)"
    and "length rest < 529205248"
  shows "\<exists>j'. journal_handle S A j (JImport path) w = (Inr JRNone, j', w) \<and> journals I V j' []"
proof -
  have "broken ([31, 139, 8, 0] @ rest, e)"
    using assms(4) by (simp add: broken_def read_data_def read_exact_def from_be_u32_def)
  from reliable_store.journal_import_journals [where ds = "[]" and A = A and w = w and path = path, OF assms(1,2) _ _ _ this] assms(3)
  show ?thesis by auto
qed

definition raw_archive :: "mem_files archive_ops" where
  "raw_archive = mem_archive\<lparr>ar_open := (\<lambda>w p. Inr ([31, 139, 8, 0, 0, 0, 0, 0, 0, 255], None))\<rparr>"

theorem import_compressed_empties_witness:
  "\<exists>j'. journal_handle memory_ops raw_archive sample_journal (JImport ''d'') no_files
      = (Inr JRNone, j', no_files) \<and> journals mem_inv mem_view j' []"
proof -
  have "mem_inv (j_store sample_journal)" using sample_journals by (simp add: journals_def)
  from import_compressed_empties [OF mem.reliable_store_axioms this,
      where A = raw_archive and w = no_files and path = "''d''" and rest = "[0, 0, 0, 0, 0, 255]" and e = None]
  show ?thesis by (simp add: raw_archive_def)
qed

text \<open>An import whose file cannot be opened reports the error after it has
  already emptied the journal.\<close>

theorem import_missing_purges:
  assumes "reliable_store S I V" and "I (j_store j)"
    and "ar_open A w (export_path S j path) = Inl e"
  shows "\<exists>j' t. journal_handle S A j (JImport path) w = (Inl (actor_error.Store t), j', w)
    \<and> journals I V j' []"
  using reliable_store.journal_import_missing [OF assms] by auto

theorem import_missing_purges_witness:
  "\<exists>j' t. journal_handle memory_ops mem_archive sample_journal (JImport ''d'') no_files
      = (Inl (actor_error.Store t), j', no_files)"
proof -
  have "mem_inv (j_store sample_journal)" using sample_journals by (simp add: journals_def)
  from import_missing_purges [OF mem.reliable_store_axioms this,
      where A = mem_archive and w = no_files and path = "''d''"]
  show ?thesis by (auto simp: mem_archive_def no_files_def)
qed

text \<open>A put that the store refuses leaves the sequence numbers as they were and
  answers the store's error with both contexts.\<close>

theorem journal_put_error:
  assumes "so_put S (j_store j) (j_next j) e = (Inl err, s)"
  shows "journal_handle S A j (JPut e) w
    = (Inl (actor_error.Store (''Failed to put event in journal: Store error: Failed to store event: ''
         @ show_store_error err)), j\<lparr>j_store := s\<rparr>, w)"
  using assms by (simp add: journal_put_def with_context_def)

definition poisoned_journal :: "(memory_store \<times> mem_heap) journal" where
  "poisoned_journal = \<lparr>j_store = (sample_store, \<lparr>mh_cell = (\<lambda>l. \<lparr>mc_map = [], mc_poisoned = True\<rparr>), mh_next = 1\<rparr>),
     j_next = 0\<rparr>"

theorem journal_put_error_witness:
  "\<exists>t. journal_handle memory_ops mem_archive poisoned_journal (JPut [1]) no_files
    = (Inl (actor_error.Store t), poisoned_journal, no_files)"
proof -
  obtain err where "so_put memory_ops (j_store poisoned_journal) (j_next poisoned_journal) [1]
      = (Inl err, j_store poisoned_journal)"
    by (simp add: poisoned_journal_def mem_put_def mem_poisoned_def sample_store_def)
  from journal_put_error [OF this, of mem_archive no_files] show ?thesis by simp
qed

text \<open>An event inserted at the next sequence number is not counted: the latest
  sequence stays, and the next put overwrites the event.\<close>

theorem insert_at_end_lost:
  assumes "reliable_store S I V" and "journals I V j es" and "length es < key_limit"
  shows "\<exists>j1 j2. journal_handle S A j (JInsert (j_next j) x) w = (Inr JRNone, j1, w)
    \<and> latest_sequence j1 = latest_sequence j
    \<and> journal_handle S A j1 (JPut y) w = (Inr (JRLastSequence (j_next j)), j2, w)
    \<and> journals I V j2 (es @ [y])"
proof -
  obtain j1 where ins: "journal_insert S j (j_next j) x = (Inr (), j1)"
    using reliable_store.journal_insert_Ok [OF assms(1,2)] by blast
  have S: "store_contract S I V" using assms(1) by (rule reliable_store.axioms)
  note j = assms(2) [unfolded journals_def]
  have k: "unat (j_next j) < key_limit" using j assms(3) by (simp add: unat_of_nat_u64)
  obtain s1 where s1: "so_put S (j_store j) (j_next j) x = (Inr (), s1)" "j1 = j\<lparr>j_store := s1\<rparr>"
    using ins by (auto simp: journal_insert_def split: prod.splits)
  have v1: "I s1" "V s1 = (list_view es)(j_next j \<mapsto> x)"
    using store_contract.put_inv [OF S _ k s1(1)] store_contract.put_view [OF S _ k s1(1)] j by simp_all
  obtain s2 where s2: "so_put S s1 (j_next j) y = (Inr (), s2)"
    using reliable_store.put_ok [OF assms(1) v1(1)] by blast
  let ?j2 = "\<lparr>j_store = s2, j_next = j_next j + 1\<rparr>"
  have "I s2" "V s2 = (list_view es)(j_next j \<mapsto> y)"
    using store_contract.put_inv [OF S v1(1) k s2] store_contract.put_view [OF S v1(1) k s2] v1(2)
    by simp_all
  then have "journals I V ?j2 (es @ [y])"
    using j assms(3) by (simp add: journals_def list_view_snoc)
  moreover have "journal_put S j1 y = (Inr (), ?j2)"
    using s1(2) s2 by (simp add: journal_put_def)
  ultimately show ?thesis
    using ins s1(2) by (auto simp: latest_sequence_def)
qed

theorem insert_at_end_lost_witness:
  "\<exists>j2. journals mem_inv mem_view j2 [[2]]"
  using insert_at_end_lost [OF mem.reliable_store_axioms sample_journals, of mem_archive "[1]" no_files "[2]"]
  by (auto simp: key_limit_def)

end
