(* ===== verification/Snapshotter.thy ===== *)
theory Snapshotter
  imports Journal
begin

text \<open>
  \<open>store/src/snapshotter.rs\<close>: the snapshot actor, a store of encoded states by
  key. The lemmas show that over a backend that keeps its contract its messages are
  those of a finite map, whose last entry is the one with the greatest key.
\<close>

section \<open>State, messages and operations\<close>

record 's snapshotter =
  sn_store :: 's

datatype snapshot_message =
    SaveSnapshot u64 bytes
  | LoadSnapshot u64
  | LastSnapshot
  | FlushSnapshots

datatype snapshot_response =
    LoadResult "bytes option"
  | LastResult "(u64 \<times> bytes) option"
  | SnapshotNone

definition snapshotter_new :: "'s \<Rightarrow> 's snapshotter" where
  "snapshotter_new store = \<lparr>sn_store = store\<rparr>"

definition save_snapshot ::
  "'s store_ops \<Rightarrow> 's snapshotter \<Rightarrow> u64 \<Rightarrow> bytes \<Rightarrow> (actor_error + unit) \<times> 's snapshotter" where
  "save_snapshot S sn key data =
     (case so_put S (sn_store sn) key data of (r, s) \<Rightarrow>
       (actor_store show_store_error ''Failed to save snapshot'' r, sn\<lparr>sn_store := s\<rparr>))"

definition load_snapshot :: "'s store_ops \<Rightarrow> 's snapshotter \<Rightarrow> u64 \<Rightarrow> bytes option" where
  "load_snapshot S sn key =
     (case so_get S (sn_store sn) key of Inr data \<Rightarrow> Some data | Inl _ \<Rightarrow> None)"

definition last_snapshot :: "'s store_ops \<Rightarrow> 's snapshotter \<Rightarrow> (u64 \<times> bytes) option" where
  "last_snapshot S sn = so_last S (sn_store sn)"

definition snapshotter_flush :: "'s store_ops \<Rightarrow> 's snapshotter \<Rightarrow> actor_error + unit" where
  "snapshotter_flush S sn = actor_store show_store_error ''Failed to flush store'' (so_flush S (sn_store sn))"

fun snapshotter_handle ::
  "'s store_ops \<Rightarrow> 's snapshotter \<Rightarrow> snapshot_message \<Rightarrow> (actor_error + snapshot_response) \<times> 's snapshotter" where
  "snapshotter_handle S sn (SaveSnapshot key data) =
     (case save_snapshot S sn key data of
       (Inl e, sn) \<Rightarrow> (Inl e, sn)
     | (Inr _, sn) \<Rightarrow> (Inr SnapshotNone, sn))"
| "snapshotter_handle S sn (LoadSnapshot key) = (Inr (LoadResult (load_snapshot S sn key)), sn)"
| "snapshotter_handle S sn LastSnapshot = (Inr (LastResult (last_snapshot S sn)), sn)"
| "snapshotter_handle S sn FlushSnapshots =
     (case snapshotter_flush S sn of
       Inl e \<Rightarrow> (Inl e, sn)
     | Inr _ \<Rightarrow> (Inr SnapshotNone, sn))"

definition snapshotter_post_stop :: "'s store_ops \<Rightarrow> 's snapshotter \<Rightarrow> actor_error + unit" where
  "snapshotter_post_stop S sn =
     actor_store show_store_error ''Failed to flush store on snapshotter shutdown'' (so_flush S (sn_store sn))"

section \<open>The snapshotter as a map\<close>

fun snap_step :: "(u64 \<rightharpoonup> bytes) \<Rightarrow> snapshot_message \<Rightarrow> snapshot_response \<times> (u64 \<rightharpoonup> bytes)" where
  "snap_step m (SaveSnapshot k d) = (SnapshotNone, m(k \<mapsto> d))"
| "snap_step m (LoadSnapshot k) = (LoadResult (m k), m)"
| "snap_step m LastSnapshot =
     (LastResult (if m = Map.empty then None else Some (Max (dom m), the (m (Max (dom m))))), m)"
| "snap_step m FlushSnapshots = (SnapshotNone, m)"

fun snap_accepts :: "snapshot_message \<Rightarrow> bool" where
  "snap_accepts (SaveSnapshot k d) \<longleftrightarrow> unat k < key_limit"
| "snap_accepts (LoadSnapshot k) \<longleftrightarrow> unat k < key_limit"
| "snap_accepts _ \<longleftrightarrow> True"

lemma last_entry_Max:
  "finite (dom m) \<Longrightarrow> last_entry (entries m)
    = (if m = Map.empty then None else Some (Max (dom m), the (m (Max (dom m)))))"
  by (simp add: last_entry_def entries_eq_Nil last_entries_Max)

context reliable_store begin

lemma snapshotter_step:
  assumes "inv (sn_store sn)" and "snap_accepts m" and "snap_step (view (sn_store sn)) m = (r, v)"
  shows "\<exists>sn'. snapshotter_handle S sn m = (Inr r, sn') \<and> inv (sn_store sn') \<and> view (sn_store sn') = v"
proof (cases m)
  case (SaveSnapshot k d)
  then have k: "unat k < key_limit" using assms(2) by simp
  obtain s where s: "so_put S (sn_store sn) k d = (Inr (), s)" using put_ok [OF assms(1)] by blast
  then show ?thesis
    using SaveSnapshot assms(3) put_inv [OF assms(1) k s] put_view [OF assms(1) k s]
    by (auto simp: save_snapshot_def)
next
  case (LoadSnapshot k)
  then have k: "unat k < key_limit" using assms(2) by simp
  then show ?thesis
    using LoadSnapshot assms(1,3) get_Some [OF assms(1), of k] get_None [OF assms(1) _ k]
    by (cases "view (sn_store sn) k") (auto simp: load_snapshot_def)
next
  case LastSnapshot
  then show ?thesis
    using assms(1,3) last_view [OF assms(1)] last_entry_Max [OF view_finite [OF assms(1)]]
    by (auto simp: last_snapshot_def)
next
  case FlushSnapshots
  then show ?thesis using assms(1,3) flush_ok [OF assms(1)] by (auto simp: snapshotter_flush_def)
qed

end

section \<open>Properties\<close>

text \<open>C31: over a backend that keeps its contract and whose writes succeed, the snapshotter
  answers every message whose key is below ten to the fourteen (\<open>snap_accepts\<close>), over
  a store that holds only such keys, as a finite map does: a save is the binding that a
  later load finds and the last snapshot is the one with the greatest key. Beyond that
  bound the last claim is false (\<open>mem_last_beyond_limit\<close>).\<close>

theorem snapshotter_refines_map:
  assumes "reliable_store S I V" and "I (sn_store sn)" and "snap_accepts m"
    and "snap_step (V (sn_store sn)) m = (r, v)"
  shows "\<exists>sn'. snapshotter_handle S sn m = (Inr r, sn') \<and> I (sn_store sn') \<and> V (sn_store sn') = v"
  using assms by (rule reliable_store.snapshotter_step)

theorem snapshotter_refines_map_witness:
  "\<exists>sn'. snapshotter_handle memory_ops (snapshotter_new (sample_store, empty_heap)) (SaveSnapshot 4 [1])
      = (Inr SnapshotNone, sn')
    \<and> mem_view (sn_store sn') = (mem_view (sample_store, empty_heap))(4 \<mapsto> [1])"
  using snapshotter_refines_map [OF mem.reliable_store_axioms, of "snapshotter_new (sample_store, empty_heap)"
      "SaveSnapshot 4 [1]"] sample_inv
  by (auto simp: snapshotter_new_def key_limit_def)

end
