(* ===== verification/Path.thy ===== *)
theory Path
  imports Errors
begin

text \<open>
  \<open>actor/src/path.rs\<close>: \<open>ActorPath\<close>, its accessors, parsing from a
  string, the \<open>/\<close> operator and \<open>Display\<close>. The ancestor tests of the
  code compare the printed strings; the lemmas show they decide the strict
  prefix order on the segment lists of well-formed paths.
\<close>

section \<open>The type and its operations\<close>

datatype actor_path = ActorPath "string list"

fun segments :: "actor_path \<Rightarrow> string list" where
  "segments (ActorPath ts) = ts"

text \<open>The derived \<open>Ord\<close>: lexicographic on the segments.\<close>

instantiation actor_path :: linorder
begin

definition less_eq_actor_path :: "actor_path \<Rightarrow> actor_path \<Rightarrow> bool" where
  "less_eq_actor_path p q \<longleftrightarrow> segments p \<le> segments q"

definition less_actor_path :: "actor_path \<Rightarrow> actor_path \<Rightarrow> bool" where
  "less_actor_path p q \<longleftrightarrow> segments p < segments q"

instance
proof
  fix p q r :: actor_path
  show "p < q \<longleftrightarrow> p \<le> q \<and> \<not> q \<le> p"
    by (auto simp: less_eq_actor_path_def less_actor_path_def)
  show "p \<le> p" by (simp add: less_eq_actor_path_def)
  show "p \<le> q \<Longrightarrow> q \<le> r \<Longrightarrow> p \<le> r" by (auto simp: less_eq_actor_path_def)
  show "p \<le> q \<Longrightarrow> q \<le> p \<Longrightarrow> p = q"
    by (cases p; cases q) (auto simp: less_eq_actor_path_def)
  show "p \<le> q \<or> q \<le> p" by (auto simp: less_eq_actor_path_def)
qed

end

definition path_root :: "actor_path \<Rightarrow> actor_path" where
  "path_root p =
     (if length (segments p) = 1 then p
      else if segments p \<noteq> [] then ActorPath (take 1 (segments p))
      else ActorPath [])"

definition path_parent :: "actor_path \<Rightarrow> actor_path" where
  "path_parent p =
     (if length (segments p) > 1
      then ActorPath (take (length (segments p) - 1) (segments p))
      else ActorPath [])"

definition path_key :: "actor_path \<Rightarrow> string" where
  "path_key p = (if segments p = [] then [] else last (segments p))"

definition path_level :: "actor_path \<Rightarrow> nat" where
  "path_level p = length (segments p)"

definition at_level :: "actor_path \<Rightarrow> nat \<Rightarrow> actor_path" where
  "at_level p l =
     (if l < 1 \<or> l \<ge> path_level p then p
      else if l = path_level p - 1 then path_parent p
      else ActorPath (take l (segments p)))"

definition path_is_empty :: "actor_path \<Rightarrow> bool" where
  "path_is_empty p \<longleftrightarrow> segments p = []"

text \<open>\<open>Display\<close> (and \<open>Debug\<close>, which prints the same).\<close>

definition path_to_string :: "actor_path \<Rightarrow> string" where
  "path_to_string p =
     (if path_level p < 1 then ''/''
      else if path_level p = 1 then ''/'' @ segments p ! 0
      else ''/'' @ join_with ''/'' (segments p))"

definition is_ancestor_of :: "actor_path \<Rightarrow> actor_path \<Rightarrow> bool" where
  "is_ancestor_of p other = prefix (path_to_string p @ ''/'') (path_to_string other)"

definition is_descendant_of :: "actor_path \<Rightarrow> actor_path \<Rightarrow> bool" where
  "is_descendant_of p other = prefix (path_to_string other @ ''/'') (path_to_string p)"

definition is_parent_of :: "actor_path \<Rightarrow> actor_path \<Rightarrow> bool" where
  "is_parent_of p other \<longleftrightarrow> p = path_parent other"

definition is_child_of :: "actor_path \<Rightarrow> actor_path \<Rightarrow> bool" where
  "is_child_of p other \<longleftrightarrow> path_parent p = other"

definition is_top_level :: "actor_path \<Rightarrow> bool" where
  "is_top_level p \<longleftrightarrow> length (segments p) = 1"

text \<open>\<open>split('/')\<close>, drop the blank pieces, collect.\<close>

definition path_tokens :: "string \<Rightarrow> string list" where
  "path_tokens s = filter (\<lambda>x. \<not> is_blank x) (split_on (CHR ''/'') s)"

definition path_from :: "string \<Rightarrow> actor_path" where
  "path_from s = ActorPath (path_tokens s)"

definition path_div :: "actor_path \<Rightarrow> string \<Rightarrow> actor_path" where
  "path_div p rhs = ActorPath (segments p @ path_tokens rhs)"

section \<open>Well-formed paths\<close>

text \<open>What every path built by the public operations satisfies: segments that
  are not blank and hold no separator.\<close>

definition wf_segment :: "string \<Rightarrow> bool" where
  "wf_segment s \<longleftrightarrow> \<not> is_blank s \<and> CHR ''/'' \<notin> set s"

definition wf_path :: "actor_path \<Rightarrow> bool" where
  "wf_path p \<longleftrightarrow> list_all wf_segment (segments p)"

lemma wf_path_iff: "wf_path p \<longleftrightarrow> (\<forall>s \<in> set (segments p). wf_segment s)"
  by (simp add: wf_path_def list_all_iff)

lemma segments_inject: "segments p = segments q \<longleftrightarrow> p = q"
  by (cases p; cases q) simp

lemma path_tokens_wf: "s \<in> set (path_tokens t) \<Longrightarrow> wf_segment s"
  by (auto simp: path_tokens_def wf_segment_def dest: split_on_no_sep)

lemma path_tokens_segment: "wf_segment s \<Longrightarrow> path_tokens s = [s]"
  by (simp add: path_tokens_def wf_segment_def split_on_plain)

lemma path_tokens_join:
  assumes "\<forall>s \<in> set ts. wf_segment s"
  shows "path_tokens (CHR ''/'' # join_with ''/'' ts) = ts"
proof (cases "ts = []")
  case True
  then show ?thesis by (simp add: path_tokens_def)
next
  case False
  from assms have "\<forall>s \<in> set ts. CHR ''/'' \<notin> set s"
    by (simp add: wf_segment_def)
  with False have "split_on (CHR ''/'') (join_with ''/'' ts) = ts"
    by (intro split_on_join) auto
  with assms show ?thesis
    by (simp add: path_tokens_def wf_segment_def filter_id_conv)
qed

text \<open>One shape for the three cases of \<open>Display\<close>.\<close>

lemma path_to_string_join: "path_to_string p = ''/'' @ join_with ''/'' (segments p)"
proof (cases "segments p")
  case (Cons t ts)
  then show ?thesis
    by (cases ts) (auto simp: path_to_string_def path_level_def)
qed (simp add: path_to_string_def path_level_def)

lemma path_parent_segments: "segments (path_parent p) = butlast (segments p)"
  by (auto simp: path_parent_def butlast_conv_take)

lemma path_root_segments: "segments (path_root p) = take 1 (segments p)"
  by (auto simp: path_root_def)

lemma at_level_segments:
  "segments (at_level p l) = (if l < 1 \<or> l \<ge> path_level p then segments p else take l (segments p))"
  by (auto simp: at_level_def path_level_def path_parent_segments butlast_conv_take)

lemma path_div_segments: "segments (path_div p s) = segments p @ path_tokens s"
  by (simp add: path_div_def)

lemma path_from_wf: "wf_path (path_from s)"
  by (auto simp: path_from_def wf_path_iff path_tokens_wf)

lemma path_div_wf: "wf_path p \<Longrightarrow> wf_path (path_div p s)"
  by (auto simp: path_div_def wf_path_iff path_tokens_wf)

lemma path_parent_wf: "wf_path p \<Longrightarrow> wf_path (path_parent p)"
  by (auto simp: wf_path_iff path_parent_segments dest: in_set_butlastD)

lemma path_root_wf: "wf_path p \<Longrightarrow> wf_path (path_root p)"
  by (auto simp: wf_path_iff path_root_segments dest: in_set_takeD)

lemma at_level_wf: "wf_path p \<Longrightarrow> wf_path (at_level p l)"
  by (auto simp: wf_path_iff at_level_segments dest: in_set_takeD)

lemma path_parent_div: "wf_segment s \<Longrightarrow> path_parent (path_div p s) = p"
  by (simp add: segments_inject [symmetric] path_parent_segments path_div_segments path_tokens_segment)

lemma join_append: "a \<noteq> [] \<Longrightarrow> b \<noteq> [] \<Longrightarrow> join_with s (a @ b) = join_with s a @ s @ join_with s b"
proof (induction a rule: induct_list012)
  case (2 x)
  then show ?case by (cases b) auto
qed auto

text \<open>
  Splitting after the join: a printed path followed by a separator is a prefix
  of another printed path exactly when its segments are a strict prefix.
\<close>

lemma prefix_joined:
  assumes a: "a \<noteq> []" and wa: "\<forall>s \<in> set a. wf_segment s" and wb: "\<forall>s \<in> set b. wf_segment s"
  shows "prefix (join_with ''/'' a @ ''/'') (join_with ''/'' b) \<longleftrightarrow> strict_prefix a b"
proof
  assume "prefix (join_with ''/'' a @ ''/'') (join_with ''/'' b)"
  then obtain r where r: "join_with ''/'' b = join_with ''/'' a @ CHR ''/'' # r"
    by (auto simp: prefix_def)
  have b: "b \<noteq> []" using r by (cases b) auto
  have sep: "\<forall>s \<in> set a. CHR ''/'' \<notin> set s" "\<forall>s \<in> set b. CHR ''/'' \<notin> set s"
    using wa wb by (auto simp: wf_segment_def)
  have "b = split_on (CHR ''/'') (join_with ''/'' b)"
    using b sep(2) by (simp add: split_on_join)
  also have "\<dots> = a @ split_on (CHR ''/'') r"
    using a sep(1) by (simp add: r split_on_append split_on_join)
  finally show "strict_prefix a b"
    using split_on_not_Nil [of "CHR ''/''" r] by (metis prefix_def append_self_conv strict_prefixI)
next
  assume "strict_prefix a b"
  then obtain c where c: "b = a @ c" "c \<noteq> []"
    by (auto simp: strict_prefix_def prefix_def)
  with a show "prefix (join_with ''/'' a @ ''/'') (join_with ''/'' b)"
    by (auto simp: join_append prefix_def)
qed

lemma prefix_double_slash:
  assumes "\<forall>s \<in> set b. wf_segment s"
  shows "\<not> prefix ''//'' (''/'' @ join_with ''/'' b)"
proof (cases b)
  case (Cons t ts)
  with assms have "t \<noteq> []" "CHR ''/'' \<notin> set t"
    by (auto simp: wf_segment_def)
  with Cons show ?thesis by (cases t; cases ts) auto
qed simp

section \<open>Properties\<close>

text \<open>C30: printing a well-formed path and parsing the text gives the path back.\<close>

theorem path_roundtrip: "wf_path p \<Longrightarrow> path_from (path_to_string p) = p"
  by (cases p) (simp add: path_from_def path_to_string_join path_tokens_join wf_path_iff)

theorem path_roundtrip_witness:
  "path_from (path_to_string (ActorPath [''acme'', ''room''])) = ActorPath [''acme'', ''room'']"
  by (rule path_roundtrip) code_simp

text \<open>Every path the public operations build is well formed: no segment is
  blank or holds a separator, whatever strings and levels they are given.\<close>

theorem path_ops_wf:
  assumes "wf_path p"
  shows "wf_path (path_from s) \<and> wf_path (path_div p s) \<and> wf_path (path_parent p)
    \<and> wf_path (path_root p) \<and> wf_path (at_level p l)"
  using assms by (simp add: path_from_wf path_div_wf path_parent_wf path_root_wf at_level_wf)

theorem path_ops_wf_witness:
  "wf_path (path_div (ActorPath [''acme'']) '' /room/'')"
  using path_ops_wf [of "ActorPath [''acme'']" "'' /room/''" 1] by (simp add: wf_path_def wf_segment_def is_blank_def ws1_def ws2_def ws3_def)

text \<open>C29: on well-formed paths the string comparison of \<open>is_ancestor_of\<close> and
  \<open>is_descendant_of\<close> decides the strict prefix order of the segments, except
  that the empty path, which prints as a lone separator, is an ancestor of nothing.\<close>

theorem ancestor_iff:
  assumes "wf_path p" and "wf_path q"
  shows "(is_ancestor_of p q \<longleftrightarrow> segments p \<noteq> [] \<and> strict_prefix (segments p) (segments q))
    \<and> (is_descendant_of q p \<longleftrightarrow> is_ancestor_of p q)"
proof (cases "segments p = []")
  case True
  then show ?thesis
    using prefix_double_slash [of "segments q"] assms(2)
    by (simp add: is_ancestor_of_def is_descendant_of_def path_to_string_join wf_path_iff)
next
  case False
  then show ?thesis
    using prefix_joined [of "segments p" "segments q"] assms
    by (simp add: is_ancestor_of_def is_descendant_of_def path_to_string_join wf_path_iff)
qed

theorem ancestor_iff_witness:
  "is_ancestor_of (ActorPath [''a'']) (ActorPath [''a'', ''b''])
   \<and> \<not> is_ancestor_of (ActorPath [''a'']) (ActorPath [''ab'', ''b''])
   \<and> \<not> is_ancestor_of (ActorPath []) (ActorPath [''a''])"
proof -
  have wf: "wf_path (ActorPath [''a''])" "wf_path (ActorPath [''a'', ''b''])"
    "wf_path (ActorPath [''ab'', ''b''])" "wf_path (ActorPath [])"
    by code_simp+
  show ?thesis
    using ancestor_iff [OF wf(1) wf(2)] ancestor_iff [OF wf(1) wf(3)] ancestor_iff [OF wf(4) wf(1)]
    by (simp add: strict_prefix_def)
qed

text \<open>Dividing a path by a single valid name makes a child: the parent of the
  result is the path, its key is the name, its level is one more, and
  \<open>at_level\<close> at the old level leads back.\<close>

theorem path_div_child:
  assumes "wf_segment name"
  shows "is_child_of (path_div p name) p \<and> is_parent_of p (path_div p name)
    \<and> path_key (path_div p name) = name \<and> path_level (path_div p name) = Suc (path_level p)
    \<and> (path_level p \<ge> 1 \<longrightarrow> at_level (path_div p name) (path_level p) = p)"
  using assms
  by (auto simp: is_child_of_def is_parent_of_def path_parent_div path_key_def path_level_def
      path_div_segments path_tokens_segment at_level_segments simp flip: segments_inject)

theorem path_div_child_witness:
  "is_child_of (path_div (ActorPath [''user'']) ''echo'') (ActorPath [''user''])"
proof -
  have "wf_segment ''echo''" by code_simp
  from path_div_child [OF this] show ?thesis by blast
qed

end
