(* ===== verification/Supervision.thy ===== *)
theory Supervision
  imports Prelude
begin

text \<open>
  \<open>actor/src/supervision.rs\<close>: the retry strategies. \<open>next_backoff\<close> takes
  \<open>&mut self\<close>, so it returns the strategy it leaves behind; a \<open>usize\<close> that
  only counts attempts is a \<open>nat\<close>, a \<open>VecDeque\<close> popped at the front a
  list. The lemmas give the sequence of delays a strategy produces.
\<close>

record no_interval_strategy =
  ni_max_retries :: nat

record fixed_interval_strategy =
  fi_max_retries :: nat
  fi_duration :: duration

record custom_interval_strategy =
  ci_durations :: "duration list"
  ci_max_retries :: nat

datatype strategy =
    NoInterval no_interval_strategy
  | FixedInterval fixed_interval_strategy
  | CustomInterval custom_interval_strategy

datatype supervision_strategy =
    SStop
  | SRetry strategy

definition no_interval_new :: "nat \<Rightarrow> no_interval_strategy" where
  "no_interval_new n = \<lparr>ni_max_retries = n\<rparr>"

definition fixed_interval_new :: "nat \<Rightarrow> duration \<Rightarrow> fixed_interval_strategy" where
  "fixed_interval_new n d = \<lparr>fi_max_retries = n, fi_duration = d\<rparr>"

definition custom_interval_new :: "duration list \<Rightarrow> custom_interval_strategy" where
  "custom_interval_new ds = \<lparr>ci_durations = ds, ci_max_retries = length ds\<rparr>"

text \<open>\<open>Strategy::default()\<close>: the derived default of \<open>max_retries\<close> is 0.\<close>

definition strategy_default :: strategy where
  "strategy_default = NoInterval \<lparr>ni_max_retries = 0\<rparr>"

definition no_interval_backoff :: "no_interval_strategy \<Rightarrow> duration option \<times> no_interval_strategy" where
  "no_interval_backoff s = (None, s)"

definition fixed_interval_backoff :: "fixed_interval_strategy \<Rightarrow> duration option \<times> fixed_interval_strategy" where
  "fixed_interval_backoff s = (Some (fi_duration s), s)"

definition custom_interval_backoff :: "custom_interval_strategy \<Rightarrow> duration option \<times> custom_interval_strategy" where
  "custom_interval_backoff s =
     (case ci_durations s of
       [] \<Rightarrow> (None, s)
     | d # ds \<Rightarrow> (Some d, s\<lparr>ci_durations := ds\<rparr>))"

fun max_retries :: "strategy \<Rightarrow> nat" where
  "max_retries (NoInterval s) = ni_max_retries s"
| "max_retries (FixedInterval s) = fi_max_retries s"
| "max_retries (CustomInterval s) = ci_max_retries s"

fun next_backoff :: "strategy \<Rightarrow> duration option \<times> strategy" where
  "next_backoff (NoInterval s) = (case no_interval_backoff s of (d, s) \<Rightarrow> (d, NoInterval s))"
| "next_backoff (FixedInterval s) = (case fixed_interval_backoff s of (d, s) \<Rightarrow> (d, FixedInterval s))"
| "next_backoff (CustomInterval s) = (case custom_interval_backoff s of (d, s) \<Rightarrow> (d, CustomInterval s))"

section \<open>The delays of a strategy\<close>

text \<open>The delays of \<open>n\<close> successive calls, and the strategy after them.\<close>

fun backoffs :: "nat \<Rightarrow> strategy \<Rightarrow> duration option list \<times> strategy" where
  "backoffs 0 s = ([], s)"
| "backoffs (Suc n) s =
     (case next_backoff s of (d, s) \<Rightarrow> (case backoffs n s of (ds, s) \<Rightarrow> (d # ds, s)))"

lemma max_retries_next_backoff [simp]: "max_retries (snd (next_backoff s)) = max_retries s"
  by (cases s) (auto simp: no_interval_backoff_def fixed_interval_backoff_def custom_interval_backoff_def
      split: list.splits)

lemma backoffs_no_interval: "backoffs n (NoInterval s) = (replicate n None, NoInterval s)"
  by (induction n) (simp_all add: no_interval_backoff_def)

lemma backoffs_fixed_interval:
  "backoffs n (FixedInterval s) = (replicate n (Some (fi_duration s)), FixedInterval s)"
  by (induction n) (simp_all add: fixed_interval_backoff_def)

lemma backoffs_custom_interval:
  "backoffs n (CustomInterval s)
    = (map Some (take n (ci_durations s)) @ replicate (n - length (ci_durations s)) None,
       CustomInterval (s\<lparr>ci_durations := drop n (ci_durations s)\<rparr>))"
proof (induction n arbitrary: s)
  case (Suc n)
  then show ?case
    by (cases "ci_durations s") (simp_all add: custom_interval_backoff_def)
qed simp

lemma max_retries_backoffs: "max_retries (snd (backoffs n s)) = max_retries s"
proof (induction n arbitrary: s)
  case (Suc n)
  obtain d t where t: "next_backoff s = (d, t)" by (cases "next_backoff s")
  then have "max_retries t = max_retries s" using max_retries_next_backoff [of s] by simp
  with Suc [of t] t show ?case by (cases "backoffs n t") simp
qed simp

text \<open>A custom strategy allows as many retries as it was given delays and
  produces them in order, then no delay; a fixed one repeats its delay and an
  immediate one never waits. The number of retries never changes.\<close>

theorem backoff_sequences:
  "backoffs (length ds + n) (CustomInterval (custom_interval_new ds))
      = (map Some ds @ replicate n None,
         CustomInterval \<lparr>ci_durations = [], ci_max_retries = max_retries (CustomInterval (custom_interval_new ds))\<rparr>)
    \<and> max_retries (CustomInterval (custom_interval_new ds)) = length ds
    \<and> backoffs n (FixedInterval (fixed_interval_new m d))
      = (replicate n (Some d), FixedInterval (fixed_interval_new m d))
    \<and> backoffs n (NoInterval (no_interval_new m)) = (replicate n None, NoInterval (no_interval_new m))
    \<and> max_retries (snd (backoffs n s)) = max_retries s"
  by (simp add: backoffs_custom_interval backoffs_fixed_interval backoffs_no_interval
      custom_interval_new_def fixed_interval_new_def max_retries_backoffs)

end
