(* ===== verification/Handler.thy ===== *)
theory Handler
  imports Path Errors Supervision
begin

text \<open>
  \<open>actor/src/handler.rs\<close> and the \<open>ActorRef\<close> of \<open>actor/src/actor.rs\<close>:
  messages, their handling, \<open>tell\<close>, \<open>ask\<close> and \<open>retry_ask\<close>. The
  channels are tokio's: \<open>channel_ops\<close> holds the calls the code makes, over
  an abstract world \<open>'w\<close>; awaiting a reply is one of them, and the world it
  returns is the one in which the actor has answered. A oneshot channel is named
  by a number. The locale \<open>delivery\<close> states what the code relies on, and a
  mailbox cell (a FIFO queue in front of a handler) provides it.
\<close>

section \<open>Messages and channels\<close>

record 'm actor_message =
  am_sender :: actor_path
  am_msg :: 'm
  am_resp :: "nat option"

definition actor_message_new :: "actor_path \<Rightarrow> 'm \<Rightarrow> nat option \<Rightarrow> 'm actor_message" where
  "actor_message_new sender msg resp = \<lparr>am_sender = sender, am_msg = msg, am_resp = resp\<rparr>"

text \<open>The \<open>Debug\<close> form, in which neither the message nor the channel is shown.\<close>

definition actor_message_debug :: "'m actor_message \<Rightarrow> string" where
  "actor_message_debug m =
     ''ActorMessage { sender: '' @ path_to_string (am_sender m) @ '', msg: \"<message>\", resp: ''
     @ (case am_resp m of None \<Rightarrow> ''None'' | Some _ \<Rightarrow> ''Some(\"<oneshot::Sender>\")'') @ '' }''"

record ('m, 'r, 'w) channel_ops =
  ch_oneshot :: "'w \<Rightarrow> nat \<times> 'w"
  ch_send :: "'m actor_message \<Rightarrow> 'w \<Rightarrow> (string + unit) \<times> 'w"
  ch_await :: "nat \<Rightarrow> 'w \<Rightarrow> (string + (actor_error + 'r)) \<times> 'w"

text \<open>
  \<open>ActorMessage::handle\<close>: \<open>h\<close> is the actor's handler over its state and
  context, \<open>respond\<close> the send on the oneshot channel, whose failure is logged.
\<close>

definition message_handle ::
  "('s \<Rightarrow> actor_path \<Rightarrow> 'm \<Rightarrow> (actor_error + 'r) \<times> 's) \<Rightarrow>
   (nat \<Rightarrow> actor_error + 'r \<Rightarrow> 's \<Rightarrow> 's) \<Rightarrow> 'm actor_message \<Rightarrow> 's \<Rightarrow> 's" where
  "message_handle h respond m s =
     (case h s (am_sender m) (am_msg m) of (result, s) \<Rightarrow>
        (case am_resp m of
          Some resp \<Rightarrow> respond resp result s
        | None \<Rightarrow> s))"

text \<open>\<open>HandlerHelper\<close> is the sending end of the mailbox; its clones send into the same one.\<close>

definition handler_new :: "('m, 'r, 'w) channel_ops \<Rightarrow> ('m, 'r, 'w) channel_ops" where
  "handler_new sender = sender"

definition handler_clone :: "('m, 'r, 'w) channel_ops \<Rightarrow> ('m, 'r, 'w) channel_ops" where
  "handler_clone handler = handler"

definition handler_tell ::
  "('m, 'r, 'w) channel_ops \<Rightarrow> actor_path \<Rightarrow> 'm \<Rightarrow> 'w \<Rightarrow> (actor_error + unit) \<times> 'w" where
  "handler_tell C sender message w =
     (let msg = actor_message_new sender message None
      in (case ch_send C msg w of (r, w) \<Rightarrow>
           (actor_message (\<lambda>e. e) ''Failed to tell message'' r, w)))"

definition handler_ask ::
  "('m, 'r, 'w) channel_ops \<Rightarrow> actor_path \<Rightarrow> 'm \<Rightarrow> 'w \<Rightarrow> (actor_error + 'r) \<times> 'w" where
  "handler_ask C sender message w =
     (case ch_oneshot C w of (response, w) \<Rightarrow>
       (let msg = actor_message_new sender message (Some response)
        in (case ch_send C msg w of
             (Inl e, w) \<Rightarrow> (actor_message (\<lambda>e. e) ''Failed to ask message'' (Inl e), w)
           | (Inr _, w) \<Rightarrow>
               (case ch_await C response w of (r, w) \<Rightarrow>
                 (case actor_message (\<lambda>e. e) ''Response channel closed'' r of
                   Inl e \<Rightarrow> (Inl e, w)
                 | Inr result \<Rightarrow> (result, w))))))"

section \<open>Actor references\<close>

text \<open>A reference is the actor's path and its mailbox; it names itself as sender.\<close>

record ('m, 'r, 'w) actor_ref =
  ar_path :: actor_path
  ar_handler :: "('m, 'r, 'w) channel_ops"

definition ref_tell :: "('m, 'r, 'w) actor_ref \<Rightarrow> 'm \<Rightarrow> 'w \<Rightarrow> (actor_error + unit) \<times> 'w" where
  "ref_tell a msg w = handler_tell (ar_handler a) (ar_path a) msg w"

definition ref_ask :: "('m, 'r, 'w) actor_ref \<Rightarrow> 'm \<Rightarrow> 'w \<Rightarrow> (actor_error + 'r) \<times> 'w" where
  "ref_ask a msg w = handler_ask (ar_handler a) (ar_path a) msg w"

text \<open>The loop of \<open>retry_ask\<close> over the attempts that are left; \<open>sleep\<close> is the timer.\<close>

fun retry_loop ::
  "('m, 'r, 'w) actor_ref \<Rightarrow> (duration \<Rightarrow> 'w \<Rightarrow> 'w) \<Rightarrow> 'm \<Rightarrow> nat \<Rightarrow> nat list \<Rightarrow> strategy \<Rightarrow> 'w
    \<Rightarrow> (actor_error + 'r) \<times> strategy \<times> 'w" where
  "retry_loop a sleep msg max_attempts [] st w = (Inl RetryLimitExceeded, st, w)"
| "retry_loop a sleep msg max_attempts (attempt # attempts) st w =
     (case ref_ask a msg w of
       (Inr response, w) \<Rightarrow> (Inr response, st, w)
     | (Inl e, w) \<Rightarrow>
         (if attempt < max_attempts
          then (case next_backoff st of
                 (Some backoff, st) \<Rightarrow> retry_loop a sleep msg max_attempts attempts st (sleep backoff w)
               | (None, st) \<Rightarrow> retry_loop a sleep msg max_attempts attempts st w)
          else retry_loop a sleep msg max_attempts attempts st w))"

definition retry_ask ::
  "('m, 'r, 'w) actor_ref \<Rightarrow> (duration \<Rightarrow> 'w \<Rightarrow> 'w) \<Rightarrow> 'm \<Rightarrow> strategy \<Rightarrow> 'w
    \<Rightarrow> (actor_error + 'r) \<times> strategy \<times> 'w" where
  "retry_ask a sleep msg st w =
     (let max_attempts = max_retries st
      in if max_attempts = 0 then (Inl RetryLimitExceeded, st, w)
         else retry_loop a sleep msg max_attempts [1..<Suc max_attempts] st w)"

section \<open>What a caller relies on\<close>

text \<open>
  \<open>live w\<close>: the actor takes messages; \<open>settled w\<close>: its state once every
  message already in its mailbox has been handled. A told message is handled
  after those, an asked one as well, and its answer is the handler's.
\<close>

locale delivery =
  fixes a :: "('m, 'r, 'w) actor_ref"
    and h :: "'s \<Rightarrow> actor_path \<Rightarrow> 'm \<Rightarrow> (actor_error + 'r) \<times> 's"
    and live :: "'w \<Rightarrow> bool"
    and settled :: "'w \<Rightarrow> 's"
  assumes tell_delivered: "live w \<Longrightarrow> \<exists>w'. ref_tell a m w = (Inr (), w') \<and> live w'
      \<and> settled w' = snd (h (settled w) (ar_path a) m)"
    and ask_delivered: "live w \<Longrightarrow> \<exists>w'. ref_ask a m w = (fst (h (settled w) (ar_path a) m), w') \<and> live w'
      \<and> settled w' = snd (h (settled w) (ar_path a) m)"
begin

fun tell_all :: "'m list \<Rightarrow> 'w \<Rightarrow> 'w" where
  "tell_all [] w = w"
| "tell_all (m # ms) w = tell_all ms (snd (ref_tell a m w))"

lemma tell_all_delivered:
  "live w \<Longrightarrow> live (tell_all ms w)
    \<and> settled (tell_all ms w) = foldl (\<lambda>s m. snd (h s (ar_path a) m)) (settled w) ms"
proof (induction ms arbitrary: w)
  case (Cons m ms)
  then obtain w' where "ref_tell a m w = (Inr (), w')" "live w'"
    "settled w' = snd (h (settled w) (ar_path a) m)"
    using tell_delivered by blast
  with Cons.IH [of w'] show ?case by simp
qed simp

end

section \<open>A mailbox in front of a handler\<close>

text \<open>
  The actor behind its queue. Sending appends (a full bounded channel makes the
  sender wait, it does not fail) unless the receiver is gone; awaiting a reply
  lets the actor handle its queue in order.
\<close>

record ('s, 'm, 'r) cell =
  ce_state :: 's
  ce_queue :: "'m actor_message list"
  ce_open :: bool
  ce_replies :: "nat \<Rightarrow> (actor_error + 'r) option"
  ce_next :: nat

definition cell_handle ::
  "('s \<Rightarrow> actor_path \<Rightarrow> 'm \<Rightarrow> (actor_error + 'r) \<times> 's) \<Rightarrow> 'm actor_message
    \<Rightarrow> ('s, 'm, 'r) cell \<Rightarrow> ('s, 'm, 'r) cell" where
  "cell_handle h m c =
     message_handle
       (\<lambda>c sender msg. case h (ce_state c) sender msg of (r, s) \<Rightarrow> (r, c\<lparr>ce_state := s\<rparr>))
       (\<lambda>k r c. c\<lparr>ce_replies := (ce_replies c)(k \<mapsto> r)\<rparr>) m c"

definition cell_drain ::
  "('s \<Rightarrow> actor_path \<Rightarrow> 'm \<Rightarrow> (actor_error + 'r) \<times> 's) \<Rightarrow> ('s, 'm, 'r) cell \<Rightarrow> ('s, 'm, 'r) cell" where
  "cell_drain h c = foldl (\<lambda>c m. cell_handle h m c) (c\<lparr>ce_queue := []\<rparr>) (ce_queue c)"

definition cell_channels ::
  "('s \<Rightarrow> actor_path \<Rightarrow> 'm \<Rightarrow> (actor_error + 'r) \<times> 's) \<Rightarrow> ('m, 'r, ('s, 'm, 'r) cell) channel_ops" where
  "cell_channels h = \<lparr>
     ch_oneshot = (\<lambda>c. (ce_next c, c\<lparr>ce_next := Suc (ce_next c)\<rparr>)),
     ch_send = (\<lambda>m c.
       if ce_open c then (Inr (), c\<lparr>ce_queue := ce_queue c @ [m]\<rparr>) else (Inl ''channel closed'', c)),
     ch_await = (\<lambda>k c.
       let c = cell_drain h c
       in (case ce_replies c k of None \<Rightarrow> Inl ''channel closed'' | Some r \<Rightarrow> Inr r, c)) \<rparr>"

definition cell_ref ::
  "actor_path \<Rightarrow> ('s \<Rightarrow> actor_path \<Rightarrow> 'm \<Rightarrow> (actor_error + 'r) \<times> 's)
    \<Rightarrow> ('m, 'r, ('s, 'm, 'r) cell) actor_ref" where
  "cell_ref p h = \<lparr>ar_path = p, ar_handler = cell_channels h\<rparr>"

lemma cell_ref_path [simp]: "ar_path (cell_ref p h) = p"
  by (simp add: cell_ref_def)

lemma cell_handle_simps [simp]:
  "ce_state (cell_handle h m c) = snd (h (ce_state c) (am_sender m) (am_msg m))"
  "ce_queue (cell_handle h m c) = ce_queue c"
  "ce_open (cell_handle h m c) = ce_open c"
  "ce_next (cell_handle h m c) = ce_next c"
  by (simp_all add: cell_handle_def message_handle_def split_beta split: option.split)

lemma cell_handle_reply:
  "am_resp m = Some k \<Longrightarrow> ce_replies (cell_handle h m c) k = Some (fst (h (ce_state c) (am_sender m) (am_msg m)))"
  by (simp add: cell_handle_def message_handle_def split_beta)

lemma cell_foldl_simps:
  "ce_state (foldl (\<lambda>c m. cell_handle h m c) c ms)
    = foldl (\<lambda>s m. snd (h s (am_sender m) (am_msg m))) (ce_state c) ms"
  "ce_queue (foldl (\<lambda>c m. cell_handle h m c) c ms) = ce_queue c"
  "ce_open (foldl (\<lambda>c m. cell_handle h m c) c ms) = ce_open c"
  by (induction ms arbitrary: c) simp_all

lemma cell_drain_simps [simp]:
  "ce_state (cell_drain h c) = foldl (\<lambda>s m. snd (h s (am_sender m) (am_msg m))) (ce_state c) (ce_queue c)"
  "ce_queue (cell_drain h c) = []"
  "ce_open (cell_drain h c) = ce_open c"
  by (simp_all add: cell_drain_def cell_foldl_simps)

text \<open>The settled state of a cell.\<close>

definition cell_settled ::
  "('s \<Rightarrow> actor_path \<Rightarrow> 'm \<Rightarrow> (actor_error + 'r) \<times> 's) \<Rightarrow> ('s, 'm, 'r) cell \<Rightarrow> 's" where
  "cell_settled h c = ce_state (cell_drain h c)"

lemma cell_tell:
  assumes "ce_open c"
  shows "\<exists>c'. ref_tell (cell_ref p h) m c = (Inr (), c') \<and> ce_open c'
    \<and> cell_settled h c' = snd (h (cell_settled h c) p m)"
  using assms
  by (simp add: ref_tell_def handler_tell_def cell_ref_def cell_channels_def Let_def
      cell_settled_def actor_message_new_def)

lemma cell_ask:
  assumes "ce_open c"
  shows "\<exists>c'. ref_ask (cell_ref p h) m c = (fst (h (cell_settled h c) p m), c') \<and> ce_open c'
    \<and> cell_settled h c' = snd (h (cell_settled h c) p m) \<and> ce_queue c' = []"
proof -
  let ?m = "actor_message_new p m (Some (ce_next c))"
  let ?c = "c\<lparr>ce_next := Suc (ce_next c), ce_queue := ce_queue c @ [?m]\<rparr>"
  have "ce_replies (cell_drain h ?c) (ce_next c) = Some (fst (h (cell_settled h c) p m))"
    by (simp add: cell_drain_def cell_handle_reply cell_foldl_simps cell_settled_def actor_message_new_def)
  then show ?thesis
    using assms
    by (simp add: ref_ask_def handler_ask_def cell_ref_def cell_channels_def Let_def)
      (simp add: cell_settled_def actor_message_new_def)
qed

interpretation cell: delivery "cell_ref p h" h ce_open "cell_settled h"
proof (unfold_locales, goal_cases)
  case (1 w m)
  then show ?case using cell_tell [of w p h m] by simp
next
  case (2 w m)
  then show ?case using cell_ask [of w p h m] by simp blast
qed

section \<open>Properties\<close>

text \<open>A mailbox is first in, first out: an answer is computed by the handler on the
  state that all messages told before it, in their order, have left.\<close>

theorem mailbox_fifo:
  assumes "ce_open c" and "ce_queue c = []"
  shows "\<exists>c'. ref_ask (cell_ref p h) m (foldl (\<lambda>c t. snd (ref_tell (cell_ref p h) t c)) c ts)
      = (fst (h (foldl (\<lambda>s t. snd (h s p t)) (ce_state c) ts) p m), c')
    \<and> ce_state c' = snd (h (foldl (\<lambda>s t. snd (h s p t)) (ce_state c) ts) p m) \<and> ce_queue c' = []"
proof -
  have tells: "foldl (\<lambda>c t. snd (ref_tell (cell_ref p h) t c)) c ts = cell.tell_all p h ts c" for c
    by (induction ts arbitrary: c) simp_all
  have s: "cell_settled h c = ce_state c" by (simp add: cell_settled_def assms(2))
  let ?s = "foldl (\<lambda>s t. snd (h s p t)) (ce_state c) ts"
  have t: "ce_open (cell.tell_all p h ts c)" "cell_settled h (cell.tell_all p h ts c) = ?s"
    using cell.tell_all_delivered [OF assms(1), of p h ts] s by simp_all
  then obtain c' where "ref_ask (cell_ref p h) m (cell.tell_all p h ts c) = (fst (h ?s p m), c')"
    "cell_settled h c' = snd (h ?s p m)" "ce_queue c' = []"
    using cell_ask [OF t(1), of p h m] by (simp only: t(2)) blast
  then show ?thesis
    unfolding tells by (simp add: cell_settled_def)
qed

definition counter_handler :: "nat \<Rightarrow> actor_path \<Rightarrow> nat \<Rightarrow> (actor_error + nat) \<times> nat" where
  "counter_handler s sender m = (Inr (s + m), s + m)"

definition open_cell :: "'s \<Rightarrow> ('s, 'm, 'r) cell" where
  "open_cell s = \<lparr>ce_state = s, ce_queue = [], ce_open = True, ce_replies = Map.empty, ce_next = 0\<rparr>"

theorem mailbox_fifo_witness:
  "\<exists>c'. ref_ask (cell_ref (ActorPath [''user'']) counter_handler) 3
      (foldl (\<lambda>c t. snd (ref_tell (cell_ref (ActorPath [''user'']) counter_handler) t c)) (open_cell 0) [1, 2])
    = (Inr 6, c') \<and> ce_state c' = 6 \<and> ce_queue c' = []"
  using mailbox_fifo [of "open_cell 0" "ActorPath [''user'']" counter_handler 3 "[1, 2]"]
  by (simp add: counter_handler_def open_cell_def)

text \<open>Once the receiver of the mailbox is gone every \<open>tell\<close>, \<open>ask\<close> and
  attempt of \<open>retry_ask\<close> fails with the error of its kind and reaches nobody.\<close>

theorem closed_mailbox:
  assumes "\<not> ce_open c"
  shows "ref_tell (cell_ref p h) m c = (Inl (Message ''Failed to tell message: channel closed''), c)
    \<and> (\<exists>c'. ref_ask (cell_ref p h) m c = (Inl (Message ''Failed to ask message: channel closed''), c')
          \<and> ce_state c' = ce_state c \<and> ce_queue c' = ce_queue c)"
  using assms
  by (simp add: ref_tell_def ref_ask_def handler_tell_def handler_ask_def cell_ref_def cell_channels_def
      Let_def with_context_def)

theorem closed_mailbox_witness:
  "\<exists>c. ref_tell (cell_ref p counter_handler) 1 ((open_cell 0)\<lparr>ce_open := False\<rparr>)
    = (Inl (Message ''Failed to tell message: channel closed''), c)"
  using closed_mailbox [of "(open_cell 0)\<lparr>ce_open := False\<rparr>" p counter_handler 1] by simp

section \<open>Attempts of \<open>retry_ask\<close>\<close>

text \<open>The world in which attempt \<open>n\<close> (from 0) is made when all before it failed:
  between attempts the timer sleeps for the strategy's next delay, if it gives one.\<close>

fun attempt_world ::
  "('m, 'r, 'w) actor_ref \<Rightarrow> (duration \<Rightarrow> 'w \<Rightarrow> 'w) \<Rightarrow> 'm \<Rightarrow> strategy \<Rightarrow> 'w \<Rightarrow> nat \<Rightarrow> 'w" where
  "attempt_world a sleep msg st w 0 = w"
| "attempt_world a sleep msg st w (Suc n) =
     (let w' = snd (ref_ask a msg (attempt_world a sleep msg st w n))
      in (case fst (next_backoff (snd (backoffs n st))) of None \<Rightarrow> w' | Some d \<Rightarrow> sleep d w'))"

lemma backoffs_Suc_snd: "snd (backoffs (Suc n) st) = snd (next_backoff (snd (backoffs n st)))"
proof (induction n arbitrary: st)
  case (Suc n)
  obtain d t where "next_backoff st = (d, t)" by (cases "next_backoff st")
  with Suc [of t] show ?case by (simp split: prod.splits)
qed (simp split: prod.splits)

lemma retry_loop_step:
  assumes "\<not> is_ok (fst (ref_ask a msg (attempt_world a sleep msg st w n)))" and "Suc n < k"
  shows "retry_loop a sleep msg k (Suc n # as) (snd (backoffs n st)) (attempt_world a sleep msg st w n)
    = retry_loop a sleep msg k as (snd (backoffs (Suc n) st)) (attempt_world a sleep msg st w (Suc n))"
  using assms backoffs_Suc_snd [of n st]
  by (auto simp: Let_def simp del: backoffs.simps split: prod.splits sum.splits option.splits)

lemma retry_loop_failures:
  assumes "\<And>i. i < n \<Longrightarrow> \<not> is_ok (fst (ref_ask a msg (attempt_world a sleep msg st w i)))" and "n < k"
  shows "retry_loop a sleep msg k [1..<Suc k] st w
    = retry_loop a sleep msg k [Suc n..<Suc k] (snd (backoffs n st)) (attempt_world a sleep msg st w n)"
  using assms
proof (induction n)
  case (Suc n)
  have "[Suc n..<Suc k] = Suc n # [Suc (Suc n)..<Suc k]"
    using Suc.prems(2) by (intro upt_conv_Cons) simp
  with Suc retry_loop_step [of a msg sleep st w n k "[Suc (Suc n)..<Suc k]"] show ?case
    by (simp del: backoffs.simps attempt_world.simps upt_Suc retry_loop.simps)
qed simp

text \<open>C15: \<open>retry_ask\<close> makes at most \<open>max_retries\<close> attempts: it answers the first
  success, after exactly the delays of the strategy between the attempts, and
  \<open>RetryLimitExceeded\<close> once all have failed, without a delay after the last.\<close>

theorem retry_ask_attempts:
  assumes "\<And>i. i < n \<Longrightarrow> \<not> is_ok (fst (ref_ask a msg (attempt_world a sleep msg st w i)))"
  shows "(n < max_retries st \<and> ref_ask a msg (attempt_world a sleep msg st w n) = (Inr r, w')
        \<longrightarrow> retry_ask a sleep msg st w = (Inr r, snd (backoffs n st), w'))
    \<and> (n = max_retries st
        \<longrightarrow> retry_ask a sleep msg st w
          = (Inl RetryLimitExceeded, snd (backoffs (n - 1) st),
             (if n = 0 then w else snd (ref_ask a msg (attempt_world a sleep msg st w (n - 1))))))"
proof (intro conjI impI)
  assume s: "n < max_retries st \<and> ref_ask a msg (attempt_world a sleep msg st w n) = (Inr r, w')"
  then have "[Suc n..<Suc (max_retries st)] = Suc n # [Suc (Suc n)..<Suc (max_retries st)]"
    by (intro upt_conv_Cons) simp
  with s retry_loop_failures [of n, OF assms] show "retry_ask a sleep msg st w = (Inr r, snd (backoffs n st), w')"
    by (simp add: retry_ask_def Let_def del: upt_Suc)
next
  assume n: "n = max_retries st"
  show "retry_ask a sleep msg st w = (Inl RetryLimitExceeded, snd (backoffs (n - 1) st),
      (if n = 0 then w else snd (ref_ask a msg (attempt_world a sleep msg st w (n - 1)))))"
  proof (cases n)
    case (Suc k)
    then have f: "\<not> is_ok (fst (ref_ask a msg (attempt_world a sleep msg st w k)))"
      using assms by blast
    have "retry_loop a sleep msg n [1..<Suc n] st w
        = retry_loop a sleep msg n [n] (snd (backoffs k st)) (attempt_world a sleep msg st w k)"
      using retry_loop_failures [of k a msg sleep st w n] assms Suc by simp
    with f Suc n show ?thesis
      by (auto simp: retry_ask_def Let_def split: prod.splits sum.splits)
  qed (use n in \<open>simp add: retry_ask_def\<close>)
qed

definition failing_handler :: "nat \<Rightarrow> actor_path \<Rightarrow> nat \<Rightarrow> (actor_error + nat) \<times> nat" where
  "failing_handler s sender m = (if s < 2 then (Inl InvalidResponse, s + 1) else (Inr s, s))"

theorem retry_ask_attempts_witness:
  "fst (retry_ask (cell_ref (ActorPath []) failing_handler) (\<lambda>d c. c) 0
      (NoInterval (no_interval_new 2)) (open_cell 0)) = Inl RetryLimitExceeded"
proof -
  let ?a = "cell_ref (ActorPath []) failing_handler"
  let ?st = "NoInterval (no_interval_new 2)"
  have "\<not> is_ok (fst (ref_ask ?a 0 (attempt_world ?a (\<lambda>d c. c) 0 ?st (open_cell 0) i)))" if "i < 2" for i
    using that by (cases i; cases "i - 1")
      (auto simp: ref_ask_def handler_ask_def cell_ref_def cell_channels_def open_cell_def Let_def
        cell_drain_def cell_handle_def message_handle_def actor_message_new_def failing_handler_def
        no_interval_backoff_def)
  from retry_ask_attempts [of 2 ?a 0 "\<lambda>d c. c" ?st "open_cell 0", OF this]
  show ?thesis by (simp add: no_interval_new_def)
qed

end
