(* ===== verification/SnapshotActor.thy ===== *)
theory SnapshotActor
  imports Snapshotter Handler
begin

text \<open>
  \<open>store/src/snapshot.rs\<close>: actors that keep one snapshot of their state, under
  the key 0. The actor type is a record of its name, its identifier and its codec
  (\<open>rmp_serde\<close> is another crate); \<open>child_ops\<close> is what these traits and
  \<open>PersistentActor\<close> use of the actor's context: the lookup and creation of the
  journal and snapshotter children and the store manager, over the context
  \<open>'c\<close> that holds everything those calls change.
\<close>

section \<open>The context and the actor type\<close>

record ('mgr, 's, 'c) child_ops =
  co_manager :: "string \<Rightarrow> 'c \<Rightarrow> 'mgr option"
  co_create_store :: "'mgr \<Rightarrow> string \<Rightarrow> string \<Rightarrow> 'c \<Rightarrow> (store_error + 's) \<times> 'c"
  co_get_journal :: "string \<Rightarrow> 'c \<Rightarrow> (journal_message, journal_response, 'c) actor_ref option"
  co_get_snapshotter :: "string \<Rightarrow> 'c \<Rightarrow> (snapshot_message, snapshot_response, 'c) actor_ref option"
  co_create_journal :: "'s journal \<Rightarrow> string \<Rightarrow> 'c \<Rightarrow> (actor_error + unit) \<times> 'c"
  co_create_snapshotter :: "'s snapshotter \<Rightarrow> string \<Rightarrow> 'c \<Rightarrow> (actor_error + unit) \<times> 'c"

record 'a state_type =
  ty_name :: string
  ty_id :: "'a \<Rightarrow> string"
  ty_to_vec :: "'a \<Rightarrow> string + bytes"
  ty_from_slice :: "bytes \<Rightarrow> string + 'a"

text \<open>\<open>rsplit("::").next()\<close>: what follows the last double colon.\<close>

fun upto_colons :: "string \<Rightarrow> string" where
  "upto_colons [] = []"
| "upto_colons [c] = [c]"
| "upto_colons (c # d # s) =
     (if c = CHR '':'' \<and> d = CHR '':'' then [] else c # upto_colons (d # s))"

definition type_name :: "('a, 'x) state_type_scheme \<Rightarrow> string" where
  "type_name T = rev (upto_colons (rev (ty_name T)))"

definition get_snapshotter ::
  "('mgr, 's, 'c) child_ops \<Rightarrow> 'c \<Rightarrow> (snapshot_message, snapshot_response, 'c) actor_ref option" where
  "get_snapshotter C c = co_get_snapshotter C ''snapshotter'' c"

section \<open>Operations\<close>

definition snap_save ::
  "('mgr, 's, 'c) child_ops \<Rightarrow> ('a, 'x) state_type_scheme \<Rightarrow> 'a \<Rightarrow> 'c \<Rightarrow> (actor_error + unit) \<times> 'c" where
  "snap_save C T self c =
     (case get_snapshotter C c of
       Some snapshotter \<Rightarrow>
         (case actor_serialization (\<lambda>e. e) ''Failed to serialize snapshot'' (ty_to_vec T self) of
           Inl e \<Rightarrow> (Inl e, c)
         | Inr serialized_state \<Rightarrow>
             (case ref_tell snapshotter (SaveSnapshot 0 serialized_state) c of (r, c) \<Rightarrow>
               (actor_store show_actor_error ''Failed to save snapshot'' r, c)))
     | None \<Rightarrow> (Inl (actor_error.Store ''Snapshotter actor not found''), c))"

definition snap_load ::
  "('mgr, 's, 'c) child_ops \<Rightarrow> ('a, 'x) state_type_scheme \<Rightarrow> 'a \<Rightarrow> 'c \<Rightarrow> (actor_error + unit) \<times> 'a \<times> 'c" where
  "snap_load C T self c =
     (case get_snapshotter C c of
       Some snapshotter \<Rightarrow>
         (case ref_ask snapshotter (LoadSnapshot 0) c of
           (Inr (LoadResult (Some data)), c) \<Rightarrow>
             (case actor_deserialization (\<lambda>e. e) ''Failed to deserialize snapshot'' (ty_from_slice T data) of
               Inl e \<Rightarrow> (Inl e, self, c)
             | Inr deserialized_state \<Rightarrow> (Inr (), deserialized_state, c))
         | (Inr (LoadResult None), c) \<Rightarrow> (Inl (actor_error.Store ''Snapshot not found''), self, c)
         | (_, c) \<Rightarrow> (Inl (actor_error.Store ''Failed to load snapshot''), self, c))
     | None \<Rightarrow> (Inl (actor_error.Store ''Snapshotter actor not found''), self, c))"

definition snap_flush :: "('mgr, 's, 'c) child_ops \<Rightarrow> 'c \<Rightarrow> (actor_error + unit) \<times> 'c" where
  "snap_flush C c =
     (case get_snapshotter C c of
       Some snapshotter \<Rightarrow>
         (case ref_tell snapshotter FlushSnapshots c of (r, c) \<Rightarrow>
           (actor_store show_actor_error ''Failed to flush snapshot'' r, c))
     | None \<Rightarrow> (Inl (actor_error.Store ''Snapshotter actor not found''), c))"

definition snap_create_store ::
  "('mgr, 's, 'c) child_ops \<Rightarrow> ('a, 'x) state_type_scheme \<Rightarrow> 'a \<Rightarrow> 'c \<Rightarrow> (actor_error + unit) \<times> 'c" where
  "snap_create_store C T self c =
     (case co_manager C ''storage'' c of
       None \<Rightarrow> (Inl (actor_error.Store ''DB Manager not found''), c)
     | Some store_manager \<Rightarrow>
         (case co_create_store C store_manager (type_name T @ ''-Snapshotter'') (ty_id T self) c of (r, c) \<Rightarrow>
           (case actor_store show_store_error ''Failed to create snapshotter store'' r of
             Inl e \<Rightarrow> (Inl e, c)
           | Inr snapshotter_store \<Rightarrow>
               (case co_create_snapshotter C (snapshotter_new snapshotter_store) ''snapshotter'' c of
                 (Inl e, c) \<Rightarrow>
                   (Inl (actor_error.Store (''Failed to create snapshotter actor: '' @ show_actor_error e)), c)
               | (Inr _, c) \<Rightarrow> (Inr (), c)))))"

text \<open>A failing load is only logged.\<close>

definition snap_init_state ::
  "('mgr, 's, 'c) child_ops \<Rightarrow> ('a, 'x) state_type_scheme \<Rightarrow> 'a \<Rightarrow> 'c \<Rightarrow> (actor_error + unit) \<times> 'a \<times> 'c" where
  "snap_init_state C T self c =
     (case snap_create_store C T self c of
       (Inl e, c) \<Rightarrow> (Inl e, self, c)
     | (Inr _, c) \<Rightarrow> (case snap_load C T self c of (_, self, c) \<Rightarrow> (Inr (), self, c)))"

section \<open>What the snapshotter child promises\<close>

text \<open>\<open>up c\<close>: the child is there; \<open>snaps c\<close>: the map its store will hold once its
  mailbox is empty. Its answers are those of the map.\<close>

locale snapshot_child =
  fixes C :: "('mgr, 's, 'c) child_ops"
    and up :: "'c \<Rightarrow> bool"
    and snapshotter :: "(snapshot_message, snapshot_response, 'c) actor_ref"
    and snaps :: "'c \<Rightarrow> u64 \<rightharpoonup> bytes"
  assumes snapshotter_up: "up c \<Longrightarrow> co_get_snapshotter C ''snapshotter'' c = Some snapshotter"
    and snap_tell: "up c \<Longrightarrow> snap_accepts m \<Longrightarrow>
      \<exists>c'. ref_tell snapshotter m c = (Inr (), c') \<and> up c' \<and> snaps c' = snd (snap_step (snaps c) m)"
    and snap_ask: "up c \<Longrightarrow> snap_accepts m \<Longrightarrow>
      \<exists>c'. ref_ask snapshotter m c = (Inr (fst (snap_step (snaps c) m)), c') \<and> up c'
        \<and> snaps c' = snd (snap_step (snaps c) m)"
begin

lemma get_snapshotter_up: "up c \<Longrightarrow> get_snapshotter C c = Some snapshotter"
  by (simp add: get_snapshotter_def snapshotter_up)

lemma snap_save_saves:
  assumes "up c" and "ty_to_vec T self = Inr d"
  shows "\<exists>c'. snap_save C T self c = (Inr (), c') \<and> up c' \<and> snaps c' = (snaps c)(0 \<mapsto> d)"
  using snap_tell [OF assms(1), of "SaveSnapshot 0 d"] assms(2)
  by (auto simp: snap_save_def get_snapshotter_up [OF assms(1)] key_limit_def)

lemma snap_load_loads:
  assumes "up c" and "snaps c 0 = Some d" and "ty_from_slice T d = Inr s"
  shows "\<exists>c'. snap_load C T self c = (Inr (), s, c') \<and> up c' \<and> snaps c' = snaps c"
  using snap_ask [OF assms(1), of "LoadSnapshot 0"] assms(2,3)
  by (auto simp: snap_load_def get_snapshotter_up [OF assms(1)] key_limit_def)

lemma snap_load_missing:
  assumes "up c" and "snaps c 0 = None"
  shows "\<exists>c'. snap_load C T self c = (Inl (actor_error.Store ''Snapshot not found''), self, c') \<and> up c'"
  using snap_ask [OF assms(1), of "LoadSnapshot 0"] assms(2)
  by (auto simp: snap_load_def get_snapshotter_up [OF assms(1)] key_limit_def)

end

end
