(* ===== verification/Persist.thy ===== *)
theory Persist
  imports SnapshotActor
begin

text \<open>
  \<open>store/src/persist.rs\<close>: event-sourced actors. \<open>persistent_type\<close> extends
  the actor type of \<open>SnapshotActor\<close> by its events, their codec and
  \<open>apply_event\<close>; the context is the same \<open>child_ops\<close>. The lemmas are proved
  under the contract of the two children (\<open>persistent_children\<close>) and of the
  codecs, and lead to what recovery rebuilds from journal and snapshots.
\<close>

section \<open>The actor type\<close>

record ('a, 'e) persistent_type = "'a state_type" +
  pt_event_to_vec :: "'e \<Rightarrow> string + bytes"
  pt_event_from_slice :: "bytes \<Rightarrow> string + 'e"
  pt_apply_event :: "'a \<Rightarrow> 'e \<Rightarrow> (actor_error + unit) \<times> 'a"

definition get_journal ::
  "('mgr, 's, 'c) child_ops \<Rightarrow> 'c \<Rightarrow> (journal_message, journal_response, 'c) actor_ref option" where
  "get_journal C c = co_get_journal C ''journal'' c"

section \<open>Starting and recovering\<close>

definition create_stores ::
  "'s store_ops \<Rightarrow> ('mgr, 's, 'c) child_ops \<Rightarrow> ('a, 'e) persistent_type \<Rightarrow> 'a \<Rightarrow> 'c \<Rightarrow> (actor_error + unit) \<times> 'c"
where
  "create_stores S C T self c =
     (case co_manager C ''storage'' c of
       None \<Rightarrow> (Inl (actor_error.Store ''DB Manager not found''), c)
     | Some store_manager \<Rightarrow>
         (case co_create_store C store_manager (type_name T @ ''-Journal'') (ty_id T self) c of (r, c) \<Rightarrow>
           (case actor_store show_store_error ''Failed to create journal store'' r of
             Inl e \<Rightarrow> (Inl e, c)
           | Inr journal_store \<Rightarrow>
               (case co_create_store C store_manager (type_name T @ ''-Snapshotter'') (ty_id T self) c of (r, c) \<Rightarrow>
                 (case actor_store show_store_error ''Failed to create snapshotter store'' r of
                   Inl e \<Rightarrow> (Inl e, c)
                 | Inr snapshotter_store \<Rightarrow>
                     (case co_create_journal C (journal_new S journal_store) ''journal'' c of (r, c) \<Rightarrow>
                       (case actor_store show_actor_error ''Failed to create journal actor'' r of
                         Inl e \<Rightarrow> (Inl e, c)
                       | Inr _ \<Rightarrow>
                           (case co_create_snapshotter C (snapshotter_new snapshotter_store) ''snapshotter'' c of
                             (r, c) \<Rightarrow>
                               (actor_store show_actor_error ''Failed to create snapshotter actor'' r, c)))))))))"

text \<open>The replay loop: the first event that cannot be decoded or applied ends it.\<close>

fun replay ::
  "('a, 'e) persistent_type \<Rightarrow> (u64 \<times> bytes) list \<Rightarrow> 'a \<Rightarrow> (actor_error + unit) \<times> 'a" where
  "replay T [] self = (Inr (), self)"
| "replay T ((seq, event_data) # events) self =
     (case actor_deserialization (\<lambda>e. e) ''Failed to deserialize event'' (pt_event_from_slice T event_data) of
       Inl e \<Rightarrow> (Inl e, self)
     | Inr event \<Rightarrow>
         (case pt_apply_event T self event of
           (Inl e, self) \<Rightarrow> (Inl e, self)
         | (Inr _, self) \<Rightarrow> replay T events self))"

definition replay_from ::
  "('mgr, 's, 'c) child_ops \<Rightarrow> ('a, 'e) persistent_type \<Rightarrow> u64 \<Rightarrow> 'a \<Rightarrow> 'c \<Rightarrow> (actor_error + unit) \<times> 'a \<times> 'c"
where
  "replay_from C T from self c =
     (case get_journal C c of
       None \<Rightarrow> (Inl (actor_error.Store ''Journal not found''), self, c)
     | Some journal \<Rightarrow>
         (case ref_ask journal (JRange (from + 1) None) c of (r, c) \<Rightarrow>
           (case actor_store show_actor_error ''Failed to get events from journal'' r of
             Inl e \<Rightarrow> (Inl e, self, c)
           | Inr (JREvents events) \<Rightarrow> (case replay T events self of (r, self) \<Rightarrow> (r, self, c))
           | Inr _ \<Rightarrow> (Inr (), self, c))))"

definition init_state ::
  "'s store_ops \<Rightarrow> ('mgr, 's, 'c) child_ops \<Rightarrow> ('a, 'e) persistent_type \<Rightarrow> 'a \<Rightarrow> 'c
    \<Rightarrow> (actor_error + unit) \<times> 'a \<times> 'c" where
  "init_state S C T self c =
     (case create_stores S C T self c of
       (Inl e, c) \<Rightarrow> (Inl e, self, c)
     | (Inr _, c) \<Rightarrow>
         (case get_snapshotter C c of
           None \<Rightarrow> (Inl (actor_error.Store ''Snapshotter not found''), self, c)
         | Some snapshotter \<Rightarrow>
             (case ref_ask snapshotter LastSnapshot c of (r, c) \<Rightarrow>
               (case actor_store show_actor_error ''Failed to get last snapshot'' r of
                 Inl e \<Rightarrow> (Inl e, self, c)
               | Inr (LastResult (Some (snapshot_from, snapshot_data))) \<Rightarrow>
                   (case actor_deserialization (\<lambda>e. e) ''Failed to deserialize snapshot''
                           (ty_from_slice T snapshot_data) of
                     Inl e \<Rightarrow> (Inl e, self, c)
                   | Inr deserialized_state \<Rightarrow> replay_from C T snapshot_from deserialized_state c)
               | Inr _ \<Rightarrow> replay_from C T 0 self c))))"

section \<open>Events\<close>

definition last_sequence :: "('mgr, 's, 'c) child_ops \<Rightarrow> 'c \<Rightarrow> (actor_error + u64) \<times> 'c" where
  "last_sequence C c =
     (case get_journal C c of
       Some journal \<Rightarrow>
         (case ref_ask journal JLastSequence c of
           (Inl e, c) \<Rightarrow> (Inl e, c)
         | (Inr (JRLastSequence seq), c) \<Rightarrow> (Inr seq, c)
         | (Inr _, c) \<Rightarrow> (Inl (actor_error.Store ''Journal not found''), c))
     | None \<Rightarrow> (Inl (actor_error.Store ''Journal not found''), c))"

definition persist ::
  "('mgr, 's, 'c) child_ops \<Rightarrow> ('a, 'e) persistent_type \<Rightarrow> 'a \<Rightarrow> 'e \<Rightarrow> 'c \<Rightarrow> (actor_error + u64) \<times> 'a \<times> 'c" where
  "persist C T self event c =
     (case actor_serialization (\<lambda>e. e) ''Failed to serialize event'' (pt_event_to_vec T event) of
       Inl e \<Rightarrow> (Inl e, self, c)
     | Inr serialized_event \<Rightarrow>
         (case get_journal C c of
           Some journal \<Rightarrow>
             (case ref_ask journal (JPut serialized_event) c of (r, c) \<Rightarrow>
               (case actor_store show_actor_error ''Failed to send event to journal'' r of
                 Inl e \<Rightarrow> (Inl e, self, c)
               | Inr (JRLastSequence sn) \<Rightarrow>
                   (case pt_apply_event T self event of
                     (Inl e, self) \<Rightarrow> (Inl e, self, c)
                   | (Inr _, self) \<Rightarrow> (Inr sn, self, c))
               | Inr _ \<Rightarrow>
                   (Inl (actor_error.Store ''Unexpected response when putting event in journal''), self, c)))
         | None \<Rightarrow> (Inl (actor_error.Store ''Journal not found''), self, c)))"

definition last_event ::
  "('mgr, 's, 'c) child_ops \<Rightarrow> ('a, 'e) persistent_type \<Rightarrow> 'c \<Rightarrow> (u64 \<times> 'e) option \<times> 'c" where
  "last_event C T c =
     (case get_journal C c of
       Some journal \<Rightarrow>
         (case ref_ask journal JLast c of
           (Inr (JRLast seq bytes), c) \<Rightarrow>
             (case pt_event_from_slice T bytes of
               Inr event \<Rightarrow> (Some (seq, event), c)
             | Inl e \<Rightarrow> (None, c))
         | (_, c) \<Rightarrow> (None, c))
     | None \<Rightarrow> (None, c))"

definition insert_event ::
  "('mgr, 's, 'c) child_ops \<Rightarrow> ('a, 'e) persistent_type \<Rightarrow> u64 \<Rightarrow> 'e \<Rightarrow> 'c \<Rightarrow> (actor_error + unit) \<times> 'c" where
  "insert_event C T sequence new_event c =
     (case get_journal C c of
       Some journal \<Rightarrow>
         (case actor_serialization (\<lambda>e. e) ''Failed to serialize event'' (pt_event_to_vec T new_event) of
           Inl e \<Rightarrow> (Inl e, c)
         | Inr bytes \<Rightarrow>
             (case ref_ask journal (JInsert sequence bytes) c of (r, c) \<Rightarrow>
               (case actor_store show_actor_error ''Failed to send insert request to journal'' r of
                 Inl e \<Rightarrow> (Inl e, c)
               | Inr JRNone \<Rightarrow> (Inr (), c)
               | Inr _ \<Rightarrow>
                   (Inl (actor_error.Store ''Unexpected response when requesting insert to journal''), c))))
     | None \<Rightarrow> (Inl (actor_error.Store ''Journal not found''), c))"

fun decode_events :: "('a, 'e) persistent_type \<Rightarrow> (u64 \<times> bytes) list \<Rightarrow> actor_error + 'e list" where
  "decode_events T [] = Inr []"
| "decode_events T ((seq, bytes) # records) =
     (case actor_deserialization (\<lambda>e. e) ''Failed to deserialize event'' (pt_event_from_slice T bytes) of
       Inl e \<Rightarrow> Inl e
     | Inr event \<Rightarrow>
         (case decode_events T records of Inl e \<Rightarrow> Inl e | Inr events \<Rightarrow> Inr (event # events)))"

definition get_events ::
  "('mgr, 's, 'c) child_ops \<Rightarrow> ('a, 'e) persistent_type \<Rightarrow> u64 \<Rightarrow> u64 option \<Rightarrow> 'c
    \<Rightarrow> (actor_error + 'e list) \<times> 'c" where
  "get_events C T from_sequence to_sequence c =
     (case get_journal C c of
       Some journal \<Rightarrow>
         (case ref_ask journal (JRange from_sequence to_sequence) c of (r, c) \<Rightarrow>
           (case actor_store show_actor_error ''Failed to send get events request to journal'' r of
             Inl e \<Rightarrow> (Inl e, c)
           | Inr (JREvents records) \<Rightarrow> (decode_events T records, c)
           | Inr _ \<Rightarrow>
               (Inl (actor_error.Store ''Unexpected response when requesting events from journal''), c)))
     | None \<Rightarrow> (Inl (actor_error.Store ''Journal not found''), c))"

definition get_event ::
  "('mgr, 's, 'c) child_ops \<Rightarrow> ('a, 'e) persistent_type \<Rightarrow> u64 \<Rightarrow> 'c \<Rightarrow> (actor_error + 'e) \<times> 'c" where
  "get_event C T sequence c =
     (case get_journal C c of
       Some journal \<Rightarrow>
         (case ref_ask journal (JGet sequence) c of (r, c) \<Rightarrow>
           (case actor_store show_actor_error ''Failed to send get event request to journal'' r of
             Inl e \<Rightarrow> (Inl e, c)
           | Inr (JREvent bytes) \<Rightarrow>
               (actor_deserialization (\<lambda>e. e) ''Failed to deserialize event'' (pt_event_from_slice T bytes), c)
           | Inr _ \<Rightarrow>
               (Inl (actor_error.Store ''Unexpected response when requesting event from journal''), c)))
     | None \<Rightarrow> (Inl (actor_error.Store ''Journal not found''), c))"

section \<open>Snapshots\<close>

definition snapshot ::
  "('mgr, 's, 'c) child_ops \<Rightarrow> ('a, 'e) persistent_type \<Rightarrow> 'a \<Rightarrow> 'c \<Rightarrow> (actor_error + unit) \<times> 'c" where
  "snapshot C T self c =
     (case last_sequence C c of (r, c) \<Rightarrow>
       (case actor_store show_actor_error ''Failed to get last journal sequence'' r of
         Inl e \<Rightarrow> (Inl e, c)
       | Inr sn \<Rightarrow>
           (case actor_serialization (\<lambda>e. e) ''Failed to serialize state'' (ty_to_vec T self) of
             Inl e \<Rightarrow> (Inl e, c)
           | Inr serialized_state \<Rightarrow>
               (case get_snapshotter C c of
                 Some snapshotter \<Rightarrow>
                   (case ref_tell snapshotter (SaveSnapshot sn serialized_state) c of (r, c) \<Rightarrow>
                     (actor_store show_actor_error ''Failed to send snapshot to snapshotter'' r, c))
               | None \<Rightarrow> (Inl (actor_error.Store ''Snapshotter not found''), c)))))"

definition flush ::
  "('mgr, 's, 'c) child_ops \<Rightarrow> ('a, 'e) persistent_type \<Rightarrow> 'a \<Rightarrow> 'c \<Rightarrow> (actor_error + unit) \<times> 'c" where
  "flush C T self c =
     (case snapshot C T self c of
       (Inl e, c) \<Rightarrow> (Inl e, c)
     | (Inr _, c) \<Rightarrow>
         (case get_journal C c of
           None \<Rightarrow> (Inl (actor_error.Store ''Journal not found''), c)
         | Some journal \<Rightarrow>
             (case get_snapshotter C c of
               None \<Rightarrow> (Inl (actor_error.Store ''Snapshotter not found''), c)
             | Some snapshotter \<Rightarrow>
                 (case ref_tell journal JFlush c of (r, c) \<Rightarrow>
                   (case actor_store show_actor_error ''Failed to send flush message to journal'' r of
                     Inl e \<Rightarrow> (Inl e, c)
                   | Inr _ \<Rightarrow>
                       (case ref_tell snapshotter FlushSnapshots c of (r, c) \<Rightarrow>
                         (actor_store show_actor_error ''Failed to send flush message to snapshotter'' r, c)))))))"

definition persistent_last_snapshot ::
  "('mgr, 's, 'c) child_ops \<Rightarrow> ('a, 'e) persistent_type \<Rightarrow> 'c \<Rightarrow> (u64 \<times> 'a) option \<times> 'c" where
  "persistent_last_snapshot C T c =
     (case get_snapshotter C c of
       Some snapshotter \<Rightarrow>
         (case ref_ask snapshotter LastSnapshot c of
           (Inr (LastResult (Some (sn, data))), c) \<Rightarrow>
             (case ok (ty_from_slice T data) of
               Some deserialized_state \<Rightarrow> (Some (sn, deserialized_state), c)
             | None \<Rightarrow> (None, c))
         | (_, c) \<Rightarrow> (None, c))
     | None \<Rightarrow> (None, c))"

section \<open>What the children and the codec promise\<close>

text \<open>The journal child next to the snapshotter child: its answers are those of the
  list of events, and neither child touches the other's data.\<close>

locale persistent_children = snapshot_child C up snapshotter snaps
  for C :: "('mgr, 's, 'c) child_ops" and up :: "'c \<Rightarrow> bool"
    and snapshotter :: "(snapshot_message, snapshot_response, 'c) actor_ref" and snaps :: "'c \<Rightarrow> u64 \<rightharpoonup> bytes" +
  fixes journal :: "(journal_message, journal_response, 'c) actor_ref"
    and events :: "'c \<Rightarrow> bytes list"
  assumes journal_up: "up c \<Longrightarrow> co_get_journal C ''journal'' c = Some journal"
    and journal_ask: "up c \<Longrightarrow> log_accepts (events c) jm \<Longrightarrow>
      \<exists>c'. ref_ask journal jm c = (Inr (fst (log_step (events c) jm)), c') \<and> up c'
        \<and> events c' = snd (log_step (events c) jm) \<and> snaps c' = snaps c"
    and journal_tell: "up c \<Longrightarrow> log_accepts (events c) jm \<Longrightarrow>
      \<exists>c'. ref_tell journal jm c = (Inr (), c') \<and> up c'
        \<and> events c' = snd (log_step (events c) jm) \<and> snaps c' = snaps c"
    and snap_tell_events: "up c \<Longrightarrow> snap_accepts sm \<Longrightarrow> events (snd (ref_tell snapshotter sm c)) = events c"
    and snap_ask_events: "up c \<Longrightarrow> snap_accepts sm \<Longrightarrow> events (snd (ref_ask snapshotter sm c)) = events c"
    and events_limit: "up c \<Longrightarrow> length (events c) \<le> key_limit"
    and snaps_finite: "up c \<Longrightarrow> finite (dom (snaps c))"
begin

lemma get_journal_up: "up c \<Longrightarrow> get_journal C c = Some journal"
  by (simp add: get_journal_def journal_up)

end

text \<open>Encoding succeeds and decoding inverts it.\<close>

locale persistent_codec =
  fixes T :: "('a, 'e) persistent_type"
  assumes event_codec: "\<exists>b. pt_event_to_vec T e = Inr b \<and> pt_event_from_slice T b = Inr e"
    and state_codec: "\<exists>b. ty_to_vec T s = Inr b \<and> ty_from_slice T b = Inr s"

definition event_bytes :: "('a, 'e) persistent_type \<Rightarrow> 'e \<Rightarrow> bytes" where
  "event_bytes T e = (case pt_event_to_vec T e of Inl _ \<Rightarrow> [] | Inr b \<Rightarrow> b)"

fun apply_all :: "('a, 'e) persistent_type \<Rightarrow> 'e list \<Rightarrow> 'a \<Rightarrow> (actor_error + unit) \<times> 'a" where
  "apply_all T [] a = (Inr (), a)"
| "apply_all T (e # es) a =
     (case pt_apply_event T a e of
       (Inl err, a) \<Rightarrow> (Inl err, a)
     | (Inr _, a) \<Rightarrow> apply_all T es a)"

lemma apply_all_append:
  "apply_all T (xs @ ys) a =
     (case apply_all T xs a of (Inl e, a) \<Rightarrow> (Inl e, a) | (Inr _, a) \<Rightarrow> apply_all T ys a)"
  by (induction xs arbitrary: a) (auto split: prod.splits sum.splits)

context persistent_codec begin

lemma event_bytes [simp]:
  "pt_event_to_vec T e = Inr (event_bytes T e)" "pt_event_from_slice T (event_bytes T e) = Inr e"
  using event_codec [of e] by (auto simp: event_bytes_def)

lemma replay_numbered:
  "map snd rs = map (event_bytes T) es \<Longrightarrow> replay T rs a = apply_all T es a"
proof (induction es arbitrary: rs a)
  case (Cons e es)
  then obtain k rs' where "rs = (k, event_bytes T e) # rs'" "map snd rs' = map (event_bytes T) es"
    by (cases rs) auto
  with Cons.IH [of rs'] show ?case by (auto split: prod.splits sum.splits)
qed simp

lemma decode_numbered:
  "map snd rs = map (event_bytes T) es \<Longrightarrow> decode_events T rs = Inr es"
proof (induction es arbitrary: rs)
  case (Cons e es)
  then obtain k rs' where "rs = (k, event_bytes T e) # rs'" "map snd rs' = map (event_bytes T) es"
    by (cases rs) auto
  with Cons.IH [of rs'] show ?case by auto
qed simp

end

lemma filter_ge_upt: "m \<le> n \<Longrightarrow> filter (\<lambda>i. m \<le> i) [0..<n] = [m..<n]"
  by (induction n) (auto simp: le_Suc_eq filter_empty_conv)

lemma drop_map_nth: "drop k xs = map (\<lambda>i. xs ! i) [k..<length xs]"
  by (rule nth_equalityI) simp_all

text \<open>The records that a range from \<open>k\<close> to the end answers.\<close>

lemma numbered_from:
  assumes "length es \<le> key_limit" and "k \<le> length es"
  shows "map snd (filter (\<lambda>e. (of_nat k :: u64) \<le> fst e \<and> fst e \<le> of_nat (length es - 1)) (numbered es)) = drop k es"
proof -
  have "filter (\<lambda>i. (of_nat k :: u64) \<le> of_nat i \<and> (of_nat i :: u64) \<le> of_nat (length es - 1)) [0..<length es]
      = filter (\<lambda>i. k \<le> i) [0..<length es]"
  proof (rule filter_cong)
    fix i assume "i \<in> set [0..<length es]"
    then have "i \<le> key_limit" "k \<le> key_limit" "length es - 1 \<le> key_limit" "i \<le> length es - 1"
      using assms by auto
    then show "((of_nat k :: u64) \<le> of_nat i \<and> (of_nat i :: u64) \<le> of_nat (length es - 1)) = (k \<le> i)"
      by (simp add: word_le_nat_alt unat_of_nat_u64)
  qed simp
  then show ?thesis
    using assms(2) by (simp add: numbered_def filter_map comp_def filter_ge_upt drop_map_nth)
qed

section \<open>Histories of a persistent actor\<close>

text \<open>
  From a fresh actor with an empty journal: events are persisted and applied, and
  the state is snapshotted once there is an event (by \<open>snapshot\<close>, or by
  \<open>flush\<close>, which begins with one). The last argument is the list of events.
\<close>

inductive persisted ::
  "('mgr, 's, 'c) child_ops \<Rightarrow> ('a, 'e) persistent_type \<Rightarrow> ('c \<Rightarrow> bool) \<Rightarrow> ('c \<Rightarrow> u64 \<rightharpoonup> bytes) \<Rightarrow> ('c \<Rightarrow> bytes list)
    \<Rightarrow> 'a \<Rightarrow> 'a \<Rightarrow> 'c \<Rightarrow> 'e list \<Rightarrow> bool"
  for C T up snaps events a0 where
  fresh: "\<lbrakk>up c; events c = []; snaps c = Map.empty\<rbrakk> \<Longrightarrow> persisted C T up snaps events a0 a0 c []"
| put: "\<lbrakk>persisted C T up snaps events a0 a c es; length es < key_limit; persist C T a e c = (Inr sn, a', c')\<rbrakk>
    \<Longrightarrow> persisted C T up snaps events a0 a' c' (es @ [e])"
| snap: "\<lbrakk>persisted C T up snaps events a0 a c es; es \<noteq> []; snapshot C T a c = (Inr (), c')\<rbrakk>
    \<Longrightarrow> persisted C T up snaps events a0 a c' es"
| flush: "\<lbrakk>persisted C T up snaps events a0 a c es; es \<noteq> []; flush C T a c = (Inr (), c')\<rbrakk>
    \<Longrightarrow> persisted C T up snaps events a0 a c' es"

locale persistent_actor = persistent_children C up snapshotter snaps journal events + persistent_codec T
  for C :: "('mgr, 's, 'c) child_ops" and up :: "'c \<Rightarrow> bool"
    and snapshotter :: "(snapshot_message, snapshot_response, 'c) actor_ref" and snaps :: "'c \<Rightarrow> u64 \<rightharpoonup> bytes"
    and journal :: "(journal_message, journal_response, 'c) actor_ref" and events :: "'c \<Rightarrow> bytes list"
    and T :: "('a, 'e) persistent_type"
begin

lemma persist_appends:
  assumes "up c" and "length (events c) < key_limit"
  shows "\<exists>c'. persist C T a e c
      = ((case fst (pt_apply_event T a e) of Inl err \<Rightarrow> Inl err | Inr _ \<Rightarrow> Inr (of_nat (length (events c)))),
         snd (pt_apply_event T a e), c')
    \<and> up c' \<and> events c' = events c @ [event_bytes T e] \<and> snaps c' = snaps c"
proof -
  obtain c' where "ref_ask journal (JPut (event_bytes T e)) c = (Inr (JRLastSequence (of_nat (length (events c)))), c')"
    "up c'" "events c' = events c @ [event_bytes T e]" "snaps c' = snaps c"
    using journal_ask [OF assms(1), of "JPut (event_bytes T e)"] assms(2) by auto
  then show ?thesis
    by (cases "pt_apply_event T a e"; cases "fst (pt_apply_event T a e)")
      (auto simp: persist_def get_journal_up [OF assms(1)])
qed

lemma last_sequence_ask:
  assumes "up c"
  shows "\<exists>c'. last_sequence C c = (Inr (of_nat (length (events c) - 1)), c')
    \<and> up c' \<and> events c' = events c \<and> snaps c' = snaps c"
  using journal_ask [OF assms, of JLastSequence] by (auto simp: last_sequence_def get_journal_up [OF assms])

lemma snap_tell_frame:
  assumes "up c" and "snap_accepts m"
  shows "\<exists>c'. ref_tell snapshotter m c = (Inr (), c') \<and> up c'
    \<and> snaps c' = snd (snap_step (snaps c) m) \<and> events c' = events c"
  using snap_tell [OF assms] snap_tell_events [OF assms] by force

lemma snap_ask_frame:
  assumes "up c" and "snap_accepts m"
  shows "\<exists>c'. ref_ask snapshotter m c = (Inr (fst (snap_step (snaps c) m)), c') \<and> up c'
    \<and> snaps c' = snd (snap_step (snaps c) m) \<and> events c' = events c"
  using snap_ask [OF assms] snap_ask_events [OF assms] by force

lemma snapshot_saves:
  assumes "up c"
  shows "\<exists>c' d. snapshot C T a c = (Inr (), c') \<and> up c' \<and> events c' = events c
    \<and> ty_from_slice T d = Inr a \<and> snaps c' = (snaps c)(of_nat (length (events c) - 1) \<mapsto> d)"
proof -
  obtain d where d: "ty_to_vec T a = Inr d" "ty_from_slice T d = Inr a" using state_codec by blast
  let ?k = "of_nat (length (events c) - 1) :: u64"
  obtain c1 where c1: "last_sequence C c = (Inr ?k, c1)" "up c1" "events c1 = events c" "snaps c1 = snaps c"
    using last_sequence_ask [OF assms] by blast
  have "unat ?k < key_limit"
    using events_limit [OF assms] by (subst unat_of_nat_u64) (auto simp: key_limit_def)
  then obtain c2 where c2: "ref_tell snapshotter (SaveSnapshot ?k d) c1 = (Inr (), c2)" "up c2"
    "snaps c2 = (snaps c1)(?k \<mapsto> d)" "events c2 = events c1"
    using snap_tell_frame [OF c1(2), of "SaveSnapshot ?k d"] by auto
  have "snapshot C T a c = (Inr (), c2)"
    using c1(1) c2(1) d(1) by (simp add: snapshot_def get_snapshotter_up [OF c1(2)])
  with c1 c2 d show ?thesis by auto
qed

lemma flush_saves:
  assumes "up c"
  shows "\<exists>c' d. flush C T a c = (Inr (), c') \<and> up c' \<and> events c' = events c
    \<and> ty_from_slice T d = Inr a \<and> snaps c' = (snaps c)(of_nat (length (events c) - 1) \<mapsto> d)"
proof -
  obtain c1 d where c1: "snapshot C T a c = (Inr (), c1)" "up c1" "events c1 = events c"
    "ty_from_slice T d = Inr a" "snaps c1 = (snaps c)(of_nat (length (events c) - 1) \<mapsto> d)"
    using snapshot_saves [OF assms] by blast
  obtain c2 where c2: "ref_tell journal JFlush c1 = (Inr (), c2)" "up c2" "events c2 = events c1" "snaps c2 = snaps c1"
    using journal_tell [OF c1(2), of JFlush] by auto
  obtain c3 where c3: "ref_tell snapshotter FlushSnapshots c2 = (Inr (), c3)" "up c3" "snaps c3 = snaps c2"
    "events c3 = events c2"
    using snap_tell_frame [OF c2(2), of FlushSnapshots] by auto
  have "flush C T a c = (Inr (), c3)"
    using c1(1) c2(1) c3(1) by (simp add: flush_def get_journal_up [OF c1(2)] get_snapshotter_up [OF c1(2)])
  with c1 c2 c3 show ?thesis by auto
qed

end

section \<open>Recovery\<close>

text \<open>Every snapshot is the state after the events up to its key.\<close>

definition snaps_ok :: "('a, 'e) persistent_type \<Rightarrow> 'a \<Rightarrow> (u64 \<rightharpoonup> bytes) \<Rightarrow> 'e list \<Rightarrow> bool" where
  "snaps_ok T a0 m es \<longleftrightarrow>
     (\<forall>k d. m k = Some d \<longrightarrow> unat k < length es
        \<and> (\<exists>s. ty_from_slice T d = Inr s \<and> apply_all T (take (Suc (unat k)) es) a0 = (Inr (), s)))"

context persistent_actor begin

lemma persisted_facts:
  assumes "persisted C T up snaps events a0 a c es"
  shows "up c \<and> events c = map (event_bytes T) es \<and> apply_all T es a0 = (Inr (), a) \<and> snaps_ok T a0 (snaps c) es"
  using assms
proof (induction rule: persisted.induct)
  case (fresh c)
  then show ?case by (simp add: snaps_ok_def)
next
  case (put a c es e sn a' c')
  then have up: "up c" and len: "length (events c) < key_limit" by auto
  obtain r s where r: "pt_apply_event T a e = (r, s)" by (cases "pt_apply_event T a e")
  with persist_appends [OF up len, of a e] put.hyps(3)
  have c': "up c'" "events c' = events c @ [event_bytes T e]" "snaps c' = snaps c"
    and ap: "pt_apply_event T a e = (Inr (), a')"
    by (cases r; auto)+
  have "snaps_ok T a0 (snaps c') (es @ [e])"
    using put.IH c'(3) by (fastforce simp: snaps_ok_def)
  with put.IH c' ap show ?case by (simp add: apply_all_append)
next
  case (snap a c es c')
  then have up: "up c" by simp
  obtain d where d: "up c'" "events c' = events c" "ty_from_slice T d = Inr a"
    "snaps c' = (snaps c)(of_nat (length (events c) - 1) \<mapsto> d)"
    using snapshot_saves [OF up, of a] snap.hyps(3) by auto
  have "unat (of_nat (length es - 1) :: u64) = length es - 1"
    using events_limit [OF up] snap.IH by (intro unat_of_nat_u64) simp
  with d snap show ?case by (auto simp: snaps_ok_def)
next
  case (flush a c es c')
  then have up: "up c" by simp
  obtain d where d: "up c'" "events c' = events c" "ty_from_slice T d = Inr a"
    "snaps c' = (snaps c)(of_nat (length (events c) - 1) \<mapsto> d)"
    using flush_saves [OF up, of a] flush.hyps(3) by auto
  have "unat (of_nat (length es - 1) :: u64) = length es - 1"
    using events_limit [OF up] flush.IH by (intro unat_of_nat_u64) simp
  with d flush show ?case by (auto simp: snaps_ok_def)
qed

lemma replay_from_events:
  assumes "up c" and "events c = map (event_bytes T) es" and "unat from < length es \<or> from = 0 \<and> es = []"
  shows "\<exists>c'. replay_from C T from a c
    = (fst (apply_all T (drop (Suc (unat from)) es) a), snd (apply_all T (drop (Suc (unat from)) es) a), c')
    \<and> up c' \<and> events c' = events c \<and> snaps c' = snaps c"
proof -
  let ?rs = "filter (\<lambda>e. from + 1 \<le> fst e \<and> fst e \<le> of_nat (length (events c) - 1)) (numbered (events c))"
  obtain c' where c': "ref_ask journal (JRange (from + 1) None) c = (Inr (JREvents ?rs), c')" "up c'"
    "events c' = events c" "snaps c' = snaps c"
    using journal_ask [OF assms(1), of "JRange (from + 1) None"] by auto
  have "map snd ?rs = drop (Suc (unat from)) (events c)"
  proof (cases "es = []")
    case True
    then show ?thesis using assms(2) by (simp add: numbered_def)
  next
    case False
    then have k: "Suc (unat from) \<le> length (events c)" using assms(2,3) by auto
    have "(of_nat (Suc (unat from)) :: u64) = from + 1" by simp
    then show ?thesis
      using numbered_from [OF events_limit [OF assms(1)] k] by (simp add: add.commute)
  qed
  then have "map snd ?rs = map (event_bytes T) (drop (Suc (unat from)) es)"
    using assms(2) by (simp add: drop_map)
  from replay_numbered [OF this] c' show ?thesis
    by (auto simp: replay_from_def get_journal_up [OF assms(1)] split: prod.splits)
qed

text \<open>Recovery over children that came back with the data of \<open>c\<close>.\<close>

lemma init_state_no_snapshot:
  assumes "create_stores S C T a c0 = (Inr (), c1)" and "up c1"
    and "events c1 = map (event_bytes T) es" and "snaps c1 = Map.empty"
  shows "\<exists>c2. init_state S C T a c0 = (fst (apply_all T (tl es) a), snd (apply_all T (tl es) a), c2)
    \<and> up c2 \<and> events c2 = events c1 \<and> snaps c2 = snaps c1"
proof -
  obtain c2 where c2: "ref_ask snapshotter LastSnapshot c1 = (Inr (LastResult None), c2)" "up c2"
    "events c2 = events c1" "snaps c2 = snaps c1"
    using snap_ask_frame [OF assms(2), of LastSnapshot] assms(4) by auto
  have "unat (0 :: u64) < length es \<or> (0 :: u64) = 0 \<and> es = []" by auto
  from replay_from_events [OF c2(2) _ this, of a] c2(3) assms(3)
  obtain c3 where "replay_from C T 0 a c2 = (fst (apply_all T (tl es) a), snd (apply_all T (tl es) a), c3)"
    "up c3" "events c3 = events c2" "snaps c3 = snaps c2"
    by (auto simp: drop_Suc)
  with assms(1) c2 show ?thesis
    by (simp add: init_state_def get_snapshotter_up [OF assms(2)])
qed

lemma init_state_snapshot:
  assumes "create_stores S C T a c0 = (Inr (), c1)" and "up c1"
    and "events c1 = map (event_bytes T) es" and "snaps c1 \<noteq> Map.empty"
    and "k = Max (dom (snaps c1))" and "snaps c1 k = Some d" and "ty_from_slice T d = Inr s"
    and "unat k < length es \<or> k = 0 \<and> es = []"
  shows "\<exists>c2. init_state S C T a c0
    = (fst (apply_all T (drop (Suc (unat k)) es) s), snd (apply_all T (drop (Suc (unat k)) es) s), c2)
    \<and> up c2 \<and> events c2 = events c1 \<and> snaps c2 = snaps c1"
proof -
  obtain c2 where c2: "ref_ask snapshotter LastSnapshot c1 = (Inr (LastResult (Some (k, d))), c2)" "up c2"
    "events c2 = events c1" "snaps c2 = snaps c1"
    using snap_ask_frame [OF assms(2), of LastSnapshot] assms(4-6) by auto
  from replay_from_events [OF c2(2) _ assms(8), of s] c2(3) assms(3)
  obtain c3 where "replay_from C T k s c2
      = (fst (apply_all T (drop (Suc (unat k)) es) s), snd (apply_all T (drop (Suc (unat k)) es) s), c3)"
    "up c3" "events c3 = events c2" "snaps c3 = snaps c2"
    by auto
  with assms(1,7) c2 show ?thesis
    by (simp add: init_state_def get_snapshotter_up [OF assms(2)])
qed

lemma recovery_exact:
  assumes "persisted C T up snaps events a0 a c es" and "snaps c \<noteq> Map.empty"
    and "create_stores S C T fresh c0 = (Inr (), c1)" and "up c1" and "events c1 = events c" and "snaps c1 = snaps c"
  shows "\<exists>c2. init_state S C T fresh c0 = (Inr (), a, c2)"
proof -
  note f = persisted_facts [OF assms(1)]
  let ?k = "Max (dom (snaps c1))"
  have "finite (dom (snaps c1))" "dom (snaps c1) \<noteq> {}"
    using snaps_finite [OF assms(4)] assms(2,6) by auto
  then have "?k \<in> dom (snaps c1)" by (rule Max_in)
  then obtain d where d: "snaps c1 ?k = Some d" by auto
  with f assms(6) obtain s where s: "ty_from_slice T d = Inr s" "unat ?k < length es"
    "apply_all T (take (Suc (unat ?k)) es) a0 = (Inr (), s)"
    by (auto simp: snaps_ok_def)
  have "apply_all T (take (Suc (unat ?k)) es @ drop (Suc (unat ?k)) es) a0 = (Inr (), a)"
    using f by simp
  then have "apply_all T (drop (Suc (unat ?k)) es) s = (Inr (), a)"
    using s(3) by (simp only: apply_all_append) simp
  moreover have "events c1 = map (event_bytes T) es" using f assms(5) by simp
  ultimately show ?thesis
    using init_state_snapshot [OF assms(3,4) _ _ refl d s(1), of es] s(2) assms(2,6) by auto
qed

text \<open>A snapshot of the empty journal has the key of the first event.\<close>

lemma empty_snapshot_key:
  assumes "up c" and "events c = []" and "snaps c = Map.empty" and "pt_apply_event T a0 e = (Inr (), a1)"
  shows "\<exists>c1 c2 d. snapshot C T a0 c = (Inr (), c1) \<and> persist C T a0 e c1 = (Inr 0, a1, c2) \<and> up c2
    \<and> events c2 = [event_bytes T e] \<and> snaps c2 = [0 \<mapsto> d] \<and> ty_from_slice T d = Inr a0"
proof -
  obtain c1 d where c1: "snapshot C T a0 c = (Inr (), c1)" "up c1" "events c1 = []" "ty_from_slice T d = Inr a0"
    "snaps c1 = [0 \<mapsto> d]"
    using snapshot_saves [OF assms(1), of a0] assms(2,3) by auto
  have "length (events c1) < key_limit" using c1(3) by (simp add: key_limit_def)
  from persist_appends [OF c1(2) this, of a0 e] assms(4) c1 show ?thesis by auto
qed

text \<open>The queries, each with what it leaves.\<close>

lemma get_events_answer:
  assumes "up c" and "events c = map (event_bytes T) es"
  shows "\<exists>c'. get_events C T 0 None c = (Inr es, c') \<and> up c' \<and> events c' = events c \<and> snaps c' = snaps c"
proof -
  let ?rs = "filter (\<lambda>e. (0 :: u64) \<le> fst e \<and> fst e \<le> of_nat (length (events c) - 1)) (numbered (events c))"
  have "map snd ?rs = map (event_bytes T) es"
    using numbered_from [OF events_limit [OF assms(1)], of 0] assms(2) by simp
  then show ?thesis
    using journal_ask [OF assms(1), of "JRange 0 None"]
    by (auto simp: get_events_def get_journal_up [OF assms(1)] decode_numbered)
qed

lemma get_event_answer:
  assumes "up c" and "events c = map (event_bytes T) es" and "unat k < length es"
  shows "\<exists>c'. get_event C T k c = (Inr (es ! unat k), c') \<and> up c' \<and> events c' = events c \<and> snaps c' = snaps c"
  using journal_ask [OF assms(1), of "JGet k"] assms(2,3)
  by (auto simp: get_event_def get_journal_up [OF assms(1)])

lemma last_event_answer:
  assumes "up c" and "events c = map (event_bytes T) es" and "es \<noteq> []"
  shows "\<exists>c'. last_event C T c = (Some (of_nat (length es - 1), last es), c') \<and> up c'
    \<and> events c' = events c \<and> snaps c' = snaps c"
  using journal_ask [OF assms(1), of JLast] assms(2,3)
  by (auto simp: last_event_def last_map get_journal_up [OF assms(1)])

lemma insert_event_answer:
  assumes "up c" and "events c = map (event_bytes T) es" and "unat k < length es"
  shows "\<exists>c'. insert_event C T k e c = (Inr (), c') \<and> up c'
    \<and> events c' = map (event_bytes T) (es[unat k := e]) \<and> snaps c' = snaps c"
  using journal_ask [OF assms(1), of "JInsert k (event_bytes T e)"] assms(2,3)
  by (auto simp: insert_event_def map_update get_journal_up [OF assms(1)])

lemma last_snapshot_answer:
  assumes "up c" and "snaps c \<noteq> Map.empty" and "k = Max (dom (snaps c))" and "snaps c k = Some d" and "ty_from_slice T d = Inr s"
  shows "\<exists>c'. persistent_last_snapshot C T c = (Some (k, s), c') \<and> up c' \<and> events c' = events c \<and> snaps c' = snaps c"
  using snap_ask_frame [OF assms(1), of LastSnapshot] assms(2-5)
  by (auto simp: persistent_last_snapshot_def get_snapshotter_up [OF assms(1)])

lemma queries:
  assumes "persisted C T up snaps events a0 a c es" and "es \<noteq> []" and "k < length es"
  shows "\<exists>c1 c2 c3. get_events C T 0 None c = (Inr es, c1) \<and> get_event C T (of_nat k) c = (Inr (es ! k), c2)
    \<and> last_event C T c = (Some (of_nat (length es - 1), last es), c3)"
proof -
  note f = persisted_facts [OF assms(1)]
  then have up: "up c" and ev: "events c = map (event_bytes T) es" by auto
  have "length es \<le> key_limit" using events_limit [OF up] ev by simp
  then have "unat (of_nat k :: u64) = k" using assms(3) by (intro unat_of_nat_u64) simp
  then show ?thesis
    using get_events_answer [OF up ev] get_event_answer [OF up ev, of "of_nat k"] last_event_answer [OF up ev assms(2)] assms(3)
    by auto
qed

end

end
