(* ===== verification/Children.thy ===== *)
theory Children
  imports Persist
begin

text \<open>
  The children of a persistent actor put together from the models of the parts: a
  journal (\<open>Journal\<close>) and a snapshotter (\<open>Snapshotter\<close>), each behind its
  mailbox (\<open>Handler\<close>), over stores that a manager opens by name and prefix and
  that outlive the process. They keep the contract that \<open>Persist\<close> relies on
  whenever the backend is a \<open>reliable_store\<close>; the in-memory backend is one. On
  this rest the end-to-end properties of recovery.
\<close>

section \<open>Channels of a part of the context\<close>

definition lift_channels ::
  "('c \<Rightarrow> 'x) \<Rightarrow> ('x \<Rightarrow> 'c \<Rightarrow> 'c) \<Rightarrow> ('m, 'r, 'x) channel_ops \<Rightarrow> ('m, 'r, 'c) channel_ops" where
  "lift_channels get put C = \<lparr>
     ch_oneshot = (\<lambda>c. case ch_oneshot C (get c) of (k, x) \<Rightarrow> (k, put x c)),
     ch_send = (\<lambda>m c. case ch_send C m (get c) of (r, x) \<Rightarrow> (r, put x c)),
     ch_await = (\<lambda>k c. case ch_await C k (get c) of (r, x) \<Rightarrow> (r, put x c)) \<rparr>"

definition lift_ref ::
  "('c \<Rightarrow> 'x) \<Rightarrow> ('x \<Rightarrow> 'c \<Rightarrow> 'c) \<Rightarrow> ('m, 'r, 'x) actor_ref \<Rightarrow> ('m, 'r, 'c) actor_ref" where
  "lift_ref get put a = \<lparr>ar_path = ar_path a, ar_handler = lift_channels get put (ar_handler a)\<rparr>"

lemma lift_tell:
  "ref_tell (lift_ref get put a) m c = (case ref_tell a m (get c) of (r, x) \<Rightarrow> (r, put x c))"
  by (simp add: ref_tell_def handler_tell_def lift_ref_def lift_channels_def Let_def split: prod.splits)

lemma lift_ask:
  assumes "\<And>x c. get (put x c) = x" and "\<And>x y c. put x (put y c) = put x c"
  shows "ref_ask (lift_ref get put a) m c = (case ref_ask a m (get c) of (r, x) \<Rightarrow> (r, put x c))"
  by (simp add: ref_ask_def handler_ask_def lift_ref_def lift_channels_def Let_def assms
      split: prod.splits sum.splits)

section \<open>The household\<close>

record 's household =
  hh_journal :: "('s journal, journal_message, journal_response) cell option"
  hh_snap :: "('s snapshotter, snapshot_message, snapshot_response) cell option"
  hh_disk :: "string \<times> string \<Rightarrow> 's"

definition journal_actor ::
  "'s store_ops \<Rightarrow> 'w archive_ops \<Rightarrow> 'w \<Rightarrow> 's journal \<Rightarrow> actor_path \<Rightarrow> journal_message
    \<Rightarrow> (actor_error + journal_response) \<times> 's journal" where
  "journal_actor S A w j sender m = (case journal_handle S A j m w of (r, j, w) \<Rightarrow> (r, j))"

definition snapshotter_actor ::
  "'s store_ops \<Rightarrow> 's snapshotter \<Rightarrow> actor_path \<Rightarrow> snapshot_message
    \<Rightarrow> (actor_error + snapshot_response) \<times> 's snapshotter" where
  "snapshotter_actor S sn sender m = snapshotter_handle S sn m"

definition journal_ref ::
  "'s store_ops \<Rightarrow> 'w archive_ops \<Rightarrow> 'w \<Rightarrow> actor_path \<Rightarrow> (journal_message, journal_response, 's household) actor_ref"
where
  "journal_ref S A w p =
     lift_ref (\<lambda>c. the (hh_journal c)) (\<lambda>x c. c\<lparr>hh_journal := Some x\<rparr>)
       (cell_ref (path_div p ''journal'') (journal_actor S A w))"

definition snapshotter_ref ::
  "'s store_ops \<Rightarrow> actor_path \<Rightarrow> (snapshot_message, snapshot_response, 's household) actor_ref" where
  "snapshotter_ref S p =
     lift_ref (\<lambda>c. the (hh_snap c)) (\<lambda>x c. c\<lparr>hh_snap := Some x\<rparr>)
       (cell_ref (path_div p ''snapshotter'') (snapshotter_actor S))"

definition household_ops ::
  "'s store_ops \<Rightarrow> 'w archive_ops \<Rightarrow> 'w \<Rightarrow> actor_path \<Rightarrow> (unit, 's, 's household) child_ops" where
  "household_ops S A w p = \<lparr>
     co_manager = (\<lambda>name c. if name = ''storage'' then Some () else None),
     co_create_store = (\<lambda>mgr name pre c. (Inr (hh_disk c (name, pre)), c)),
     co_get_journal = (\<lambda>name c.
       if name = ''journal'' then map_option (\<lambda>x. journal_ref S A w p) (hh_journal c) else None),
     co_get_snapshotter = (\<lambda>name c.
       if name = ''snapshotter'' then map_option (\<lambda>x. snapshotter_ref S p) (hh_snap c) else None),
     co_create_journal = (\<lambda>j name c. (Inr (), c\<lparr>hh_journal := Some (open_cell j)\<rparr>)),
     co_create_snapshotter = (\<lambda>sn name c. (Inr (), c\<lparr>hh_snap := Some (open_cell sn)\<rparr>)) \<rparr>"

text \<open>The children once their mailboxes are empty.\<close>

definition settled_journal :: "'s store_ops \<Rightarrow> 'w archive_ops \<Rightarrow> 'w \<Rightarrow> 's household \<Rightarrow> 's journal" where
  "settled_journal S A w c = cell_settled (journal_actor S A w) (the (hh_journal c))"

definition settled_snapshotter :: "'s store_ops \<Rightarrow> 's household \<Rightarrow> 's snapshotter" where
  "settled_snapshotter S c = cell_settled (snapshotter_actor S) (the (hh_snap c))"

definition household_events ::
  "'s store_ops \<Rightarrow> ('s \<Rightarrow> u64 \<rightharpoonup> bytes) \<Rightarrow> 'w archive_ops \<Rightarrow> 'w \<Rightarrow> 's household \<Rightarrow> bytes list" where
  "household_events S V A w c = map snd (entries (V (j_store (settled_journal S A w c))))"

definition household_snaps ::
  "'s store_ops \<Rightarrow> ('s \<Rightarrow> u64 \<rightharpoonup> bytes) \<Rightarrow> 's household \<Rightarrow> u64 \<rightharpoonup> bytes" where
  "household_snaps S V c = V (sn_store (settled_snapshotter S c))"

definition household_up ::
  "'s store_ops \<Rightarrow> ('s \<Rightarrow> bool) \<Rightarrow> ('s \<Rightarrow> u64 \<rightharpoonup> bytes) \<Rightarrow> 'w archive_ops \<Rightarrow> 'w \<Rightarrow> 's household \<Rightarrow> bool" where
  "household_up S I V A w c \<longleftrightarrow>
     (\<exists>j s. hh_journal c = Some j \<and> ce_open j \<and> hh_snap c = Some s \<and> ce_open s)
   \<and> journals I V (settled_journal S A w c) (household_events S V A w c)
   \<and> I (sn_store (settled_snapshotter S c))"

text \<open>The process ends and starts again: the stores keep what the children wrote, the
  children and their mailboxes are gone.\<close>

definition restart_household ::
  "'s store_ops \<Rightarrow> 'w archive_ops \<Rightarrow> 'w \<Rightarrow> string \<Rightarrow> string \<Rightarrow> 's household \<Rightarrow> 's household" where
  "restart_household S A w name ident c =
     \<lparr>hh_journal = None, hh_snap = None,
      hh_disk = (hh_disk c)((name @ ''-Journal'', ident) := j_store (settled_journal S A w c),
        (name @ ''-Snapshotter'', ident) := sn_store (settled_snapshotter S c))\<rparr>"

text \<open>Only the snapshotter ends, as \<open>sn\<close>; its store keeps what it wrote.\<close>

definition close_snapshotter :: "string \<Rightarrow> string \<Rightarrow> 's snapshotter \<Rightarrow> 's household \<Rightarrow> 's household" where
  "close_snapshotter name ident sn c =
     c\<lparr>hh_snap := None, hh_disk := (hh_disk c)((name @ ''-Snapshotter'', ident) := sn_store sn)\<rparr>"

text \<open>A household whose snapshotter is there, with or without a journal: a \<open>SnapshotActor\<close> has none.\<close>

definition snap_up :: "'s store_ops \<Rightarrow> ('s \<Rightarrow> bool) \<Rightarrow> 's household \<Rightarrow> bool" where
  "snap_up S I c \<longleftrightarrow> (\<exists>s. hh_snap c = Some s \<and> ce_open s) \<and> I (sn_store (settled_snapshotter S c))"

lemma map_snd_numbered [simp]: "map snd (numbered es) = es"
  by (simp add: numbered_def comp_def map_nth)

lemma household_eventsI:
  "journals I V (settled_journal S A w c) es \<Longrightarrow> household_events S V A w c = es"
  by (simp add: household_events_def journals_def entries_list_view)

lemma settled_journal_snap [simp]: "settled_journal S A w (c\<lparr>hh_snap := x\<rparr>) = settled_journal S A w c"
  by (simp add: settled_journal_def)

lemma settled_snapshotter_journal [simp]: "settled_snapshotter S (c\<lparr>hh_journal := x\<rparr>) = settled_snapshotter S c"
  by (simp add: settled_snapshotter_def)

context reliable_store begin

lemma household_journal_step:
  assumes up: "household_up S inv view A w c" and acc: "log_accepts (household_events S view A w c) m"
    and c': "hh_snap c' = hh_snap c" "hh_journal c' = Some j'" "ce_open j'"
    and st: "settled_journal S A w c' = snd (journal_actor S A w (settled_journal S A w c) q m)"
  shows "fst (journal_actor S A w (settled_journal S A w c) q m) = Inr (fst (log_step (household_events S view A w c) m))
    \<and> household_up S inv view A w c'
    \<and> household_events S view A w c' = snd (log_step (household_events S view A w c) m)
    \<and> household_snaps S view c' = household_snaps S view c"
proof -
  have j: "journals inv view (settled_journal S A w c) (household_events S view A w c)"
    using up by (simp add: household_up_def)
  obtain r es where log: "log_step (household_events S view A w c) m = (r, es)"
    by (cases "log_step (household_events S view A w c) m")
  from journal_step [OF j acc log, of A w] obtain j1 where
    j1: "journal_handle S A (settled_journal S A w c) m w = (Inr r, j1, w)" "journals inv view j1 es" by blast
  then have s1: "settled_journal S A w c' = j1" using st by (simp add: journal_actor_def)
  then have es: "household_events S view A w c' = es"
    using j1(2) by (intro household_eventsI [where I = inv]) simp
  have sn: "settled_snapshotter S c' = settled_snapshotter S c"
    by (simp add: settled_snapshotter_def c'(1))
  show ?thesis
    using j1 s1 es log sn up c' by (auto simp: journal_actor_def household_up_def household_snaps_def)
qed

lemma household_snap_step:
  assumes up: "household_up S inv view A w c" and acc: "snap_accepts m"
    and c': "hh_journal c' = hh_journal c" "hh_snap c' = Some s'" "ce_open s'"
    and st: "settled_snapshotter S c' = snd (snapshotter_actor S (settled_snapshotter S c) q m)"
  shows "fst (snapshotter_actor S (settled_snapshotter S c) q m) = Inr (fst (snap_step (household_snaps S view c) m))
    \<and> household_up S inv view A w c'
    \<and> household_snaps S view c' = snd (snap_step (household_snaps S view c) m)
    \<and> household_events S view A w c' = household_events S view A w c"
proof -
  have i: "inv (sn_store (settled_snapshotter S c))" using up by (simp add: household_up_def)
  obtain r v where sn: "snap_step (view (sn_store (settled_snapshotter S c))) m = (r, v)"
    by (cases "snap_step (view (sn_store (settled_snapshotter S c))) m")
  from snapshotter_step [OF i acc sn] obtain s1 where
    s1: "snapshotter_handle S (settled_snapshotter S c) m = (Inr r, s1)" "inv (sn_store s1)" "view (sn_store s1) = v"
    by blast
  have j: "settled_journal S A w c' = settled_journal S A w c"
    by (simp add: settled_journal_def c'(1))
  then have e: "household_events S view A w c' = household_events S view A w c"
    by (simp add: household_events_def)
  show ?thesis
    using s1 st sn j e up c' by (auto simp: snapshotter_actor_def household_up_def household_snaps_def)
qed

lemma household_snap_tell:
  assumes "household_up S inv view A w c" and "snap_accepts m"
  shows "\<exists>c'. ref_tell (snapshotter_ref S p) m c = (Inr (), c') \<and> household_up S inv view A w c'
    \<and> household_snaps S view c' = snd (snap_step (household_snaps S view c) m)
    \<and> household_events S view A w c' = household_events S view A w c"
proof -
  let ?h = "snapshotter_actor S" and ?q = "path_div p ''snapshotter''"
  obtain x where x: "hh_snap c = Some x" "ce_open x" using assms(1) by (auto simp: household_up_def)
  from cell_tell [OF x(2), of ?q ?h m] obtain x' where
    x': "ref_tell (cell_ref ?q ?h) m x = (Inr (), x')" "ce_open x'"
    "cell_settled ?h x' = snd (?h (cell_settled ?h x) ?q m)"
    by blast
  let ?c = "c\<lparr>hh_snap := Some x'\<rparr>"
  have "ref_tell (snapshotter_ref S p) m c = (Inr (), ?c)"
    by (simp add: snapshotter_ref_def lift_tell x(1) x'(1) settled_snapshotter_def)
  moreover have "settled_snapshotter S ?c = snd (?h (settled_snapshotter S c) ?q m)"
    by (simp add: settled_snapshotter_def x(1) x'(3))
  ultimately show ?thesis
    using household_snap_step [OF assms, of ?c x' ?q] x'(2) by simp
qed

lemma household_snap_ask:
  assumes "household_up S inv view A w c" and "snap_accepts m"
  shows "\<exists>c'. ref_ask (snapshotter_ref S p) m c = (Inr (fst (snap_step (household_snaps S view c) m)), c') \<and> household_up S inv view A w c'
    \<and> household_snaps S view c' = snd (snap_step (household_snaps S view c) m)
    \<and> household_events S view A w c' = household_events S view A w c"
proof -
  let ?h = "snapshotter_actor S" and ?q = "path_div p ''snapshotter''"
  obtain x where x: "hh_snap c = Some x" "ce_open x" using assms(1) by (auto simp: household_up_def)
  from cell_ask [OF x(2), of ?q ?h m] obtain x' where
    x': "ref_ask (cell_ref ?q ?h) m x = (fst (?h (cell_settled ?h x) ?q m), x')" "ce_open x'"
    "cell_settled ?h x' = snd (?h (cell_settled ?h x) ?q m)"
    by blast
  let ?c = "c\<lparr>hh_snap := Some x'\<rparr>"
  have "ref_ask (snapshotter_ref S p) m c = (fst (snapshotter_actor S (settled_snapshotter S c) (path_div p ''snapshotter'') m), ?c)"
    by (simp add: snapshotter_ref_def lift_ask x(1) x'(1) settled_snapshotter_def)
  moreover have "settled_snapshotter S ?c = snd (?h (settled_snapshotter S c) ?q m)"
    by (simp add: settled_snapshotter_def x(1) x'(3))
  ultimately show ?thesis
    using household_snap_step [OF assms, of ?c x' ?q] x'(2) by simp
qed

lemma household_journal_tell:
  assumes "household_up S inv view A w c" and "log_accepts (household_events S view A w c) m"
  shows "\<exists>c'. ref_tell (journal_ref S A w p) m c = (Inr (), c') \<and> household_up S inv view A w c'
    \<and> household_events S view A w c' = snd (log_step (household_events S view A w c) m)
    \<and> household_snaps S view c' = household_snaps S view c"
proof -
  let ?h = "journal_actor S A w" and ?q = "path_div p ''journal''"
  obtain x where x: "hh_journal c = Some x" "ce_open x" using assms(1) by (auto simp: household_up_def)
  from cell_tell [OF x(2), of ?q ?h m] obtain x' where
    x': "ref_tell (cell_ref ?q ?h) m x = (Inr (), x')" "ce_open x'"
    "cell_settled ?h x' = snd (?h (cell_settled ?h x) ?q m)"
    by blast
  let ?c = "c\<lparr>hh_journal := Some x'\<rparr>"
  have "ref_tell (journal_ref S A w p) m c = (Inr (), ?c)"
    by (simp add: journal_ref_def lift_tell x(1) x'(1) settled_journal_def)
  moreover have "settled_journal S A w ?c = snd (?h (settled_journal S A w c) ?q m)"
    by (simp add: settled_journal_def x(1) x'(3))
  ultimately show ?thesis
    using household_journal_step [OF assms, of ?c x' ?q] x'(2) by simp
qed

lemma household_journal_ask:
  assumes "household_up S inv view A w c" and "log_accepts (household_events S view A w c) m"
  shows "\<exists>c'. ref_ask (journal_ref S A w p) m c = (Inr (fst (log_step (household_events S view A w c) m)), c') \<and> household_up S inv view A w c'
    \<and> household_events S view A w c' = snd (log_step (household_events S view A w c) m)
    \<and> household_snaps S view c' = household_snaps S view c"
proof -
  let ?h = "journal_actor S A w" and ?q = "path_div p ''journal''"
  obtain x where x: "hh_journal c = Some x" "ce_open x" using assms(1) by (auto simp: household_up_def)
  from cell_ask [OF x(2), of ?q ?h m] obtain x' where
    x': "ref_ask (cell_ref ?q ?h) m x = (fst (?h (cell_settled ?h x) ?q m), x')" "ce_open x'"
    "cell_settled ?h x' = snd (?h (cell_settled ?h x) ?q m)"
    by blast
  let ?c = "c\<lparr>hh_journal := Some x'\<rparr>"
  have "ref_ask (journal_ref S A w p) m c = (fst (journal_actor S A w (settled_journal S A w c) (path_div p ''journal'') m), ?c)"
    by (simp add: journal_ref_def lift_ask x(1) x'(1) settled_journal_def)
  moreover have "settled_journal S A w ?c = snd (?h (settled_journal S A w c) ?q m)"
    by (simp add: settled_journal_def x(1) x'(3))
  ultimately show ?thesis
    using household_journal_step [OF assms, of ?c x' ?q] x'(2) by simp
qed

lemma household_children:
  "persistent_children (household_ops S A w p) (household_up S inv view A w) (snapshotter_ref S p)
     (household_snaps S view) (journal_ref S A w p) (household_events S view A w)"
proof (unfold_locales, goal_cases)
  case (1 c)
  then show ?case by (auto simp: household_ops_def household_up_def)
next
  case (2 c m)
  then show ?case using household_snap_tell [of A w c m p] by blast
next
  case (3 c m)
  then show ?case using household_snap_ask [of A w c m p] by blast
next
  case (4 c)
  then show ?case by (auto simp: household_ops_def household_up_def)
next
  case (5 c m)
  then show ?case by (rule household_journal_ask)
next
  case (6 c m)
  then show ?case by (rule household_journal_tell)
next
  case (7 c m)
  then show ?case using household_snap_tell [of A w c m p] by fastforce
next
  case (8 c m)
  then show ?case using household_snap_ask [of A w c m p] by fastforce
next
  case (9 c)
  then show ?case by (simp add: household_up_def journals_def)
next
  case (10 c)
  then show ?case by (simp add: household_up_def household_snaps_def view_finite)
qed

text \<open>Opening the stores after a restart brings back what the children held.\<close>

lemma restart_stores:
  assumes "household_up S inv view A w c" and "ty_id T fresh = ident"
  shows "\<exists>c'. create_stores S (household_ops S A w p) T fresh (restart_household S A w (type_name T) ident c)
      = (Inr (), c') \<and> household_up S inv view A w c'
    \<and> household_events S view A w c' = household_events S view A w c
    \<and> household_snaps S view c' = household_snaps S view c"
proof -
  let ?j = "settled_journal S A w c" and ?s = "settled_snapshotter S c"
  let ?old = "restart_household S A w (type_name T) ident c"
  let ?c = "?old\<lparr>hh_journal := Some (open_cell (journal_new S (j_store ?j))),
    hh_snap := Some (open_cell (snapshotter_new (sn_store ?s)))\<rparr>"
  have j: "journals inv view ?j (household_events S view A w c)"
    using assms(1) by (simp add: household_up_def)
  have create: "create_stores S (household_ops S A w p) T fresh ?old = (Inr (), ?c)"
    using assms(2) by (simp add: create_stores_def household_ops_def restart_household_def)
  have sj: "settled_journal S A w ?c = journal_new S (j_store ?j)"
    by (simp add: settled_journal_def cell_settled_def open_cell_def)
  have ss: "settled_snapshotter S ?c = snapshotter_new (sn_store ?s)"
    by (simp add: settled_snapshotter_def cell_settled_def open_cell_def)
  have j': "journals inv view (journal_new S (j_store ?j)) (household_events S view A w c)"
    using j by (intro journal_new_journals) (auto simp: journals_def)
  then have ev: "household_events S view A w ?c = household_events S view A w c"
    using household_eventsI [of inv view S A w ?c] unfolding sj by blast
  have "household_up S inv view A w ?c"
    unfolding household_up_def ev sj ss
    using j' assms(1) by (simp add: household_up_def snapshotter_new_def open_cell_def)
  moreover have "household_snaps S view ?c = household_snaps S view c"
    unfolding household_snaps_def ss by (simp add: snapshotter_new_def)
  ultimately show ?thesis using create ev by blast
qed

text \<open>The first start, over empty stores.\<close>

lemma fresh_stores:
  assumes "inv s0" and "view s0 = Map.empty" and "hh_disk c = (\<lambda>_. s0)"
  shows "\<exists>c'. create_stores S (household_ops S A w p) T fresh c = (Inr (), c') \<and> household_up S inv view A w c'
    \<and> household_events S view A w c' = [] \<and> household_snaps S view c' = Map.empty"
proof -
  let ?c = "c\<lparr>hh_journal := Some (open_cell (journal_new S s0)), hh_snap := Some (open_cell (snapshotter_new s0))\<rparr>"
  have create: "create_stores S (household_ops S A w p) T fresh c = (Inr (), ?c)"
    using assms(3) by (simp add: create_stores_def household_ops_def)
  have sj: "settled_journal S A w ?c = journal_new S s0" and ss: "settled_snapshotter S ?c = snapshotter_new s0"
    by (simp_all add: settled_journal_def settled_snapshotter_def cell_settled_def open_cell_def)
  have j: "journals inv view (journal_new S s0) []"
    by (rule journal_new_journals) (use assms(1,2) in simp_all)
  then have ev: "household_events S view A w ?c = []"
    using household_eventsI [of inv view S A w ?c] unfolding sj by blast
  have "household_up S inv view A w ?c"
    unfolding household_up_def ev sj ss using j assms(1) by (simp add: snapshotter_new_def open_cell_def)
  moreover have "household_snaps S view ?c = Map.empty"
    unfolding household_snaps_def ss by (simp add: snapshotter_new_def assms(2))
  ultimately show ?thesis using create ev by blast
qed

text \<open>A household with a snapshotter keeps the contract of \<open>SnapshotActor\<close>.\<close>

lemma snap_up_step:
  assumes "snap_up S inv c" and "snap_accepts m"
  obtains x s where "hh_snap c = Some x" "ce_open x" "inv (sn_store s)"
    "snapshotter_actor S (cell_settled (snapshotter_actor S) x) q m = (Inr (fst (snap_step (household_snaps S view c) m)), s)"
    "view (sn_store s) = snd (snap_step (household_snaps S view c) m)"
proof -
  obtain x where x: "hh_snap c = Some x" "ce_open x" using assms(1) by (auto simp: snap_up_def)
  then have "inv (sn_store (cell_settled (snapshotter_actor S) x))"
    "household_snaps S view c = view (sn_store (cell_settled (snapshotter_actor S) x))"
    using assms(1) by (simp_all add: household_snaps_def snap_up_def settled_snapshotter_def)
  with snapshotter_step [OF _ assms(2) surjective_pairing, of "cell_settled (snapshotter_actor S) x"] x that
  show ?thesis by (auto simp: snapshotter_actor_def)
qed

lemma snap_household:
  "snapshot_child (household_ops S A w p) (snap_up S inv) (snapshotter_ref S p) (household_snaps S view)"
proof (unfold_locales, goal_cases)
  case (1 c)
  then show ?case by (auto simp: household_ops_def snap_up_def)
next
  case (2 c m)
  let ?h = "snapshotter_actor S" and ?q = "path_div p ''snapshotter''"
  obtain x s where x: "hh_snap c = Some x" "ce_open x" "inv (sn_store s)"
    "?h (cell_settled ?h x) ?q m = (Inr (fst (snap_step (household_snaps S view c) m)), s)"
    "view (sn_store s) = snd (snap_step (household_snaps S view c) m)"
    using snap_up_step [OF 2] .
  from cell_tell [OF x(2), of ?q ?h m] obtain x' where
    "ref_tell (cell_ref ?q ?h) m x = (Inr (), x')" "ce_open x'" "cell_settled ?h x' = s"
    using x(4) by auto
  with x(3,5) show ?case
    by (intro exI [of _ "c\<lparr>hh_snap := Some x'\<rparr>"])
      (simp add: snapshotter_ref_def lift_tell x(1) snap_up_def household_snaps_def settled_snapshotter_def)
next
  case (3 c m)
  let ?h = "snapshotter_actor S" and ?q = "path_div p ''snapshotter''"
  obtain x s where x: "hh_snap c = Some x" "ce_open x" "inv (sn_store s)"
    "?h (cell_settled ?h x) ?q m = (Inr (fst (snap_step (household_snaps S view c) m)), s)"
    "view (sn_store s) = snd (snap_step (household_snaps S view c) m)"
    using snap_up_step [OF 3] .
  from cell_ask [OF x(2), of ?q ?h m] obtain x' where
    "ref_ask (cell_ref ?q ?h) m x = (Inr (fst (snap_step (household_snaps S view c) m)), x')" "ce_open x'"
      "cell_settled ?h x' = s"
    using x(4) by auto
  with x(3,5) show ?case
    by (intro exI [of _ "c\<lparr>hh_snap := Some x'\<rparr>"])
      (simp add: snapshotter_ref_def lift_ask x(1) snap_up_def household_snaps_def settled_snapshotter_def)
qed

text \<open>Opening the snapshotter's store.\<close>

lemma snap_opened:
  assumes "hh_disk c (type_name T @ ''-Snapshotter'', ty_id T self) = s0" and "inv s0"
  obtains c' where "snap_create_store (household_ops S A w p) T self c = (Inr (), c')" "snap_up S inv c'"
    "household_snaps S view c' = view s0"
proof -
  let ?c = "c\<lparr>hh_snap := Some (open_cell (snapshotter_new s0))\<rparr>"
  have "snap_create_store (household_ops S A w p) T self c = (Inr (), ?c)"
    using assms(1) by (simp add: snap_create_store_def household_ops_def)
  moreover have "settled_snapshotter S ?c = snapshotter_new s0" by (simp add: settled_snapshotter_def cell_settled_def open_cell_def)
  ultimately show ?thesis
    using assms(2) by (intro that [of ?c]) (simp_all add: snap_up_def household_snaps_def snapshotter_new_def open_cell_def)
qed

end

section \<open>On the in-memory backend\<close>

interpretation mem_house: persistent_children "household_ops memory_ops mem_archive no_files p"
  "household_up memory_ops mem_inv mem_view mem_archive no_files" "snapshotter_ref memory_ops p"
  "household_snaps memory_ops mem_view" "journal_ref memory_ops mem_archive no_files p"
  "household_events memory_ops mem_view mem_archive no_files"
  by (rule mem.household_children)

text \<open>A counter of bytes as an actor type.\<close>

definition byte_codec :: "bytes \<Rightarrow> string + u8" where
  "byte_codec bs = (case bs of [b] \<Rightarrow> Inr b | _ \<Rightarrow> Inl ''invalid length'')"

definition counter_type :: "(u8, u8) persistent_type" where
  "counter_type = \<lparr>ty_name = ''demo::Counter'', ty_id = (\<lambda>a. ''1''), ty_to_vec = (\<lambda>a. Inr [a]),
     ty_from_slice = byte_codec, pt_event_to_vec = (\<lambda>e. Inr [e]), pt_event_from_slice = byte_codec,
     pt_apply_event = (\<lambda>a e. if e = 0 then (Inl (Event ''zero''), a) else (Inr (), a + e))\<rparr>"

interpretation counter: persistent_codec counter_type
  by unfold_locales (simp_all add: counter_type_def byte_codec_def)

interpretation counter_actor: persistent_actor "household_ops memory_ops mem_archive no_files p"
  "household_up memory_ops mem_inv mem_view mem_archive no_files" "snapshotter_ref memory_ops p"
  "household_snaps memory_ops mem_view" "journal_ref memory_ops mem_archive no_files p"
  "household_events memory_ops mem_view mem_archive no_files" counter_type
  by unfold_locales

definition new_house :: "(memory_store \<times> mem_heap) household" where
  "new_house = \<lparr>hh_journal = Some (open_cell sample_journal),
     hh_snap = Some (open_cell (snapshotter_new (sample_store, empty_heap))),
     hh_disk = (\<lambda>k. (sample_store, empty_heap))\<rparr>"

lemma new_house_journal: "settled_journal memory_ops mem_archive no_files new_house = sample_journal"
  by (simp add: settled_journal_def cell_settled_def new_house_def open_cell_def)

lemma new_house_events [simp]: "household_events memory_ops mem_view mem_archive no_files new_house = []"
  using household_eventsI [of mem_inv mem_view memory_ops mem_archive no_files new_house]
  by (simp add: new_house_journal sample_journals)

lemma new_house_snaps [simp]: "household_snaps memory_ops mem_view new_house = Map.empty"
  by (simp add: household_snaps_def settled_snapshotter_def cell_settled_def new_house_def open_cell_def
      snapshotter_new_def sample_view)

lemma new_house_up: "household_up memory_ops mem_inv mem_view mem_archive no_files new_house"
  using sample_journals sample_inv
  by (simp add: household_up_def new_house_journal)
    (simp add: new_house_def open_cell_def settled_snapshotter_def cell_settled_def snapshotter_new_def)

text \<open>The parts together are a persistent actor.\<close>

lemma household_actor:
  assumes "reliable_store S I V" and "persistent_codec T"
  shows "persistent_actor (household_ops S A w p) (household_up S I V A w) (snapshotter_ref S p)
    (household_snaps S V) (journal_ref S A w p) (household_events S V A w) T"
  by (rule persistent_actor.intro [OF reliable_store.household_children [OF assms(1)] assms(2)])

section \<open>Properties\<close>

text \<open>C21: \<open>persist\<close> appends the event to the journal and then applies it: on success
  it answers the event's index; when \<open>apply_event\<close> refuses the event the answer is
  that error, and the event stays in the journal all the same.\<close>

theorem persist_records_then_applies:
  assumes "reliable_store S I V" and "persistent_codec T"
    and "household_up S I V A w c" and "length (household_events S V A w c) < key_limit"
  shows "\<exists>c'. persist (household_ops S A w p) T a e c
      = ((case fst (pt_apply_event T a e) of
            Inl err \<Rightarrow> Inl err
          | Inr _ \<Rightarrow> Inr (of_nat (length (household_events S V A w c)))),
         snd (pt_apply_event T a e), c')
    \<and> household_up S I V A w c' \<and> household_events S V A w c' = household_events S V A w c @ [event_bytes T e]
    \<and> household_snaps S V c' = household_snaps S V c"
  using assms(3,4) by (rule persistent_actor.persist_appends [OF household_actor [OF assms(1,2)]])

theorem persist_records_then_applies_witness:
  "\<exists>c'. persist (household_ops memory_ops mem_archive no_files (ActorPath [''user''])) counter_type 7 0 new_house
      = (Inl (Event ''zero''), 7, c')
    \<and> household_events memory_ops mem_view mem_archive no_files c' = [[0]]"
proof -
  have "event_bytes counter_type 0 = [0]" by (simp add: event_bytes_def counter_type_def)
  moreover have "pt_apply_event counter_type 7 0 = (Inl (Event ''zero''), 7)" by (simp add: counter_type_def)
  ultimately show ?thesis
    using persist_records_then_applies [OF mem.reliable_store_axioms counter.persistent_codec_axioms new_house_up,
      of "ActorPath [''user'']" 7 0] by (auto simp: key_limit_def)
qed

text \<open>C2: recovery after a restart. Take a backend that keeps its contract and accepts
  writes, and an actor whose codec decodes what it encodes; let it have persisted fewer
  than ten to the fourteen events, every one of them with success, and taken its snapshots
  and flushes in between, each after at least one event, and at least one of them
  (\<open>persisted\<close>); and let its journal and
  snapshotter have handled what was in their mailboxes when the process ends. Then
  \<open>init_state\<close> of a fresh actor over the stores that they left rebuilds exactly the
  state before the restart. Without a snapshot, or after one of an empty journal, it does
  not (\<open>recovery_drops_first_event\<close>, \<open>empty_snapshot_loses_event\<close>).\<close>

theorem recovery_after_restart:
  assumes "reliable_store S I V" and "persistent_codec T"
    and "persisted (household_ops S A w p) T (household_up S I V A w) (household_snaps S V)
      (household_events S V A w) a0 a c es"
    and "household_snaps S V c \<noteq> Map.empty"
  shows "\<exists>c'. init_state S (household_ops S A w p) T fresh
      (restart_household S A w (type_name T) (ty_id T fresh) c) = (Inr (), a, c')"
proof -
  note act = household_actor [OF assms(1,2)]
  have up: "household_up S I V A w c"
    using persistent_actor.persisted_facts [OF act assms(3)] by blast
  obtain c1 where "create_stores S (household_ops S A w p) T fresh
      (restart_household S A w (type_name T) (ty_id T fresh) c) = (Inr (), c1)"
    "household_up S I V A w c1" "household_events S V A w c1 = household_events S V A w c"
    "household_snaps S V c1 = household_snaps S V c"
    using reliable_store.restart_stores [OF assms(1) up refl, where T = T and fresh = fresh and p = p] by auto
  then show ?thesis by (rule persistent_actor.recovery_exact [OF act assms(3,4)])
qed

theorem recovery_after_restart_witness:
  "\<exists>c c'. household_events memory_ops mem_view mem_archive no_files c = [[5], [6]]
    \<and> init_state memory_ops (household_ops memory_ops mem_archive no_files (ActorPath [''user''])) counter_type 0
        (restart_household memory_ops mem_archive no_files (type_name counter_type) (ty_id counter_type 0) c)
      = (Inr (), 11, c')"
proof -
  let ?C = "household_ops memory_ops mem_archive no_files (ActorPath [''user''])"
  let ?up = "household_up memory_ops mem_inv mem_view mem_archive no_files"
  let ?ev = "household_events memory_ops mem_view mem_archive no_files"
  let ?sn = "household_snaps memory_ops mem_view"
  have bytes: "event_bytes counter_type e = [e]" for e by (simp add: event_bytes_def counter_type_def)
  have app: "pt_apply_event counter_type 0 5 = (Inr (), 5)" "pt_apply_event counter_type 5 6 = (Inr (), 11)"
    by (simp_all add: counter_type_def)
  have h0: "persisted ?C counter_type ?up ?sn ?ev 0 0 new_house []"
    by (rule persisted.fresh) (simp_all add: new_house_up)
  obtain c1 where c1: "persist ?C counter_type 0 5 new_house = (Inr 0, 5, c1)" "?up c1" "?ev c1 = [[5]]"
    using counter_actor.persist_appends [OF new_house_up, of "ActorPath [''user'']" 0 5] app bytes
    by (auto simp: key_limit_def)
  have h1: "persisted ?C counter_type ?up ?sn ?ev 0 5 c1 [5]"
    using persisted.put [OF h0 _ c1(1)] by (simp add: key_limit_def)
  obtain c2 d where c2: "snapshot ?C counter_type 5 c1 = (Inr (), c2)" "?up c2" "?ev c2 = [[5]]" "?sn c2 0 = Some d"
    using counter_actor.snapshot_saves [OF c1(2), of "ActorPath [''user'']" 5] c1(3) by auto
  have h2: "persisted ?C counter_type ?up ?sn ?ev 0 5 c2 [5]"
    using persisted.snap [OF h1 _ c2(1)] by simp
  obtain c3 where c3: "persist ?C counter_type 5 6 c2 = (Inr 1, 11, c3)" "?ev c3 = [[5], [6]]" "?sn c3 = ?sn c2"
    using counter_actor.persist_appends [OF c2(2), of "ActorPath [''user'']" 5 6] app bytes c2(3)
    by (auto simp: key_limit_def)
  have h3: "persisted ?C counter_type ?up ?sn ?ev 0 11 c3 [5, 6]"
    using persisted.put [OF h2 _ c3(1)] by (simp add: key_limit_def)
  have "?sn c3 \<noteq> Map.empty" using c3(3) c2(4) by auto
  from recovery_after_restart [OF mem.reliable_store_axioms counter.persistent_codec_axioms h3 this, of 0] c3(2)
  show ?thesis by blast
qed

text \<open>C22: without a snapshot recovery replays from sequence 1: a fresh actor is
  brought to the state of all events but the first.\<close>

theorem recovery_drops_first_event:
  assumes "reliable_store S I V" and "persistent_codec T"
    and "persisted (household_ops S A w p) T (household_up S I V A w) (household_snaps S V)
      (household_events S V A w) a0 a c (e # es)"
    and "household_snaps S V c = Map.empty"
  shows "\<exists>c'. init_state S (household_ops S A w p) T a0
      (restart_household S A w (type_name T) (ty_id T a0) c)
    = (fst (apply_all T es a0), snd (apply_all T es a0), c')"
proof -
  note act = household_actor [OF assms(1,2)]
  note f = persistent_actor.persisted_facts [OF act assms(3)]
  obtain c1 where c1: "create_stores S (household_ops S A w p) T a0
      (restart_household S A w (type_name T) (ty_id T a0) c) = (Inr (), c1)"
    "household_up S I V A w c1" "household_events S V A w c1 = map (event_bytes T) (e # es)"
    "household_snaps S V c1 = Map.empty"
    using reliable_store.restart_stores [OF assms(1) _ refl, where A = A and w = w and c = c and T = T and fresh = a0 and p = p]
      f assms(4) by auto
  from persistent_actor.init_state_no_snapshot [OF act c1] show ?thesis by auto
qed

theorem recovery_drops_first_event_witness:
  "\<exists>c c'. household_events memory_ops mem_view mem_archive no_files c = [[5]]
    \<and> init_state memory_ops (household_ops memory_ops mem_archive no_files (ActorPath [''user''])) counter_type 0
        (restart_household memory_ops mem_archive no_files (type_name counter_type) (ty_id counter_type 0) c)
      = (Inr (), 0, c')"
proof -
  let ?C = "household_ops memory_ops mem_archive no_files (ActorPath [''user''])"
  let ?up = "household_up memory_ops mem_inv mem_view mem_archive no_files"
  let ?ev = "household_events memory_ops mem_view mem_archive no_files"
  let ?sn = "household_snaps memory_ops mem_view"
  have h0: "persisted ?C counter_type ?up ?sn ?ev 0 0 new_house []"
    by (rule persisted.fresh) (simp_all add: new_house_up)
  obtain c1 where c1: "persist ?C counter_type 0 5 new_house = (Inr 0, 5, c1)" "?ev c1 = [[5]]" "?sn c1 = Map.empty"
    using counter_actor.persist_appends [OF new_house_up, of "ActorPath [''user'']" 0 5]
    by (auto simp: key_limit_def) (auto simp: counter_type_def event_bytes_def)
  have h1: "persisted ?C counter_type ?up ?sn ?ev 0 5 c1 [5]"
    using persisted.put [OF h0 _ c1(1)] by (simp add: key_limit_def)
  from recovery_drops_first_event [OF mem.reliable_store_axioms counter.persistent_codec_axioms h1 c1(3)] c1(2)
  show ?thesis by auto
qed

text \<open>C23: a snapshot taken before the first event (a flush of a fresh actor takes one)
  has the key of that event: the event that is persisted next is in the journal, but
  recovery starts after it and rebuilds the state without it.\<close>

theorem empty_snapshot_loses_event:
  assumes "reliable_store S I V" and "persistent_codec T"
    and "household_up S I V A w c" and "household_events S V A w c = []" and "household_snaps S V c = Map.empty"
    and "pt_apply_event T a0 e = (Inr (), a1)"
  shows "\<exists>c1 c2 c3. snapshot (household_ops S A w p) T a0 c = (Inr (), c1)
    \<and> persist (household_ops S A w p) T a0 e c1 = (Inr 0, a1, c2)
    \<and> household_events S V A w c2 = [event_bytes T e]
    \<and> init_state S (household_ops S A w p) T fresh (restart_household S A w (type_name T) (ty_id T fresh) c2)
      = (Inr (), a0, c3)"
proof -
  note act = household_actor [OF assms(1,2)]
  from persistent_actor.empty_snapshot_key [OF household_actor [OF assms(1,2)] assms(3-6), of p] obtain c1 c2 d where
    c: "snapshot (household_ops S A w p) T a0 c = (Inr (), c1)"
    "persist (household_ops S A w p) T a0 e c1 = (Inr 0, a1, c2)" "household_up S I V A w c2"
    "household_events S V A w c2 = [event_bytes T e]" "household_snaps S V c2 = [0 \<mapsto> d]" "ty_from_slice T d = Inr a0"
    by auto
  obtain c3 where c3: "create_stores S (household_ops S A w p) T fresh
      (restart_household S A w (type_name T) (ty_id T fresh) c2) = (Inr (), c3)"
    "household_up S I V A w c3" "household_events S V A w c3 = household_events S V A w c2"
    "household_snaps S V c3 = household_snaps S V c2"
    using reliable_store.restart_stores [OF assms(1) c(3) refl, where T = T and fresh = fresh and p = p] by auto
  obtain c4 where "init_state S (household_ops S A w p) T fresh
      (restart_household S A w (type_name T) (ty_id T fresh) c2) = (Inr (), a0, c4)"
    using persistent_actor.init_state_snapshot [OF act c3(1,2), where es = "[e]" and k = 0 and d = d and s = a0] c c3
    by auto
  with c show ?thesis by blast
qed

theorem empty_snapshot_loses_event_witness:
  "\<exists>c1 c2 c3. persist (household_ops memory_ops mem_archive no_files (ActorPath [''user''])) counter_type 0 5 c1
      = (Inr 0, 5, c2)
    \<and> init_state memory_ops (household_ops memory_ops mem_archive no_files (ActorPath [''user''])) counter_type 0
        (restart_household memory_ops mem_archive no_files (type_name counter_type) (ty_id counter_type 0) c2)
      = (Inr (), 0, c3)"
proof -
  have "pt_apply_event counter_type 0 5 = (Inr (), 5)" by (simp add: counter_type_def)
  from empty_snapshot_loses_event [OF mem.reliable_store_axioms counter.persistent_codec_axioms new_house_up
      new_house_events new_house_snaps this, where p = "ActorPath [''user'']" and fresh = 0]
  show ?thesis by blast
qed

text \<open>C32: the queries of a persistent actor answer its history: all events in order,
  each event by its index, and the last one with its index.\<close>

theorem queries_answer_history:
  assumes "reliable_store S I V" and "persistent_codec T"
    and "persisted (household_ops S A w p) T (household_up S I V A w) (household_snaps S V)
      (household_events S V A w) a0 a c es"
    and "es \<noteq> []" and "k < length es"
  shows "\<exists>c1 c2 c3. get_events (household_ops S A w p) T 0 None c = (Inr es, c1)
    \<and> get_event (household_ops S A w p) T (of_nat k) c = (Inr (es ! k), c2)
    \<and> last_event (household_ops S A w p) T c = (Some (of_nat (length es - 1), last es), c3)"
  using persistent_actor.queries [OF household_actor [OF assms(1,2)] assms(3-5)] .

theorem queries_answer_history_witness:
  "\<exists>c c1. get_events (household_ops memory_ops mem_archive no_files (ActorPath [''user''])) counter_type 0 None c
    = (Inr [5], c1)"
proof -
  let ?C = "household_ops memory_ops mem_archive no_files (ActorPath [''user''])"
  let ?up = "household_up memory_ops mem_inv mem_view mem_archive no_files"
  let ?ev = "household_events memory_ops mem_view mem_archive no_files"
  let ?sn = "household_snaps memory_ops mem_view"
  have h0: "persisted ?C counter_type ?up ?sn ?ev 0 0 new_house []"
    by (rule persisted.fresh) (simp_all add: new_house_up)
  obtain c1 where c1: "persist ?C counter_type 0 5 new_house = (Inr 0, 5, c1)"
    using counter_actor.persist_appends [OF new_house_up, of "ActorPath [''user'']" 0 5]
    by (auto simp: key_limit_def) (auto simp: counter_type_def)
  have h1: "persisted ?C counter_type ?up ?sn ?ev 0 5 c1 [5]"
    using persisted.put [OF h0 _ c1(1)] by (simp add: key_limit_def)
  from queries_answer_history [OF mem.reliable_store_axioms counter.persistent_codec_axioms h1, of 0]
  show ?thesis by auto
qed

end
