(* ===== verification/FjallStore.thy ===== *)
theory FjallStore
  imports MemoryStore
begin

text \<open>
  \<open>store/src/stores/fjall.rs\<close>: the on-disk backend. The database engine is
  another crate, so a keyspace is an abstract state with the operations the code
  calls (\<open>keyspace_ops\<close>), and what the code relies on is the locale
  \<open>fjall_keyspace\<close>: reads succeed and answer the current contents, a write
  that reports success has been made, and a prefix scan yields the entries whose
  key starts with the prefix in the order of the keys. Keys are only ever written
  by this module, from \<open>String\<close>s, so the lossy UTF-8 decoding of a key is
  the identity. Errors of the engine are their display texts.
\<close>

section \<open>The engine's interface\<close>

text \<open>A \<open>Guard\<close> of a scan: reading it gives the entry or an error.\<close>

type_synonym guard = "string + (string \<times> bytes)"

record 'ks keyspace_ops =
  ks_get :: "'ks \<Rightarrow> string \<Rightarrow> string + bytes option"
  ks_insert :: "'ks \<Rightarrow> string \<Rightarrow> bytes \<Rightarrow> (string + unit) \<times> 'ks"
  ks_remove :: "'ks \<Rightarrow> string \<Rightarrow> (string + unit) \<times> 'ks"
  ks_prefix :: "'ks \<Rightarrow> string \<Rightarrow> guard list"

section \<open>The manager\<close>

record 'db fjall_db_manager =
  fdm_path :: string
  fdm_db :: 'db

definition fjall_db_new :: "(string \<Rightarrow> string + 'db) \<Rightarrow> string \<Rightarrow> store_error + 'db fjall_db_manager" where
  "fjall_db_new open_db path =
     (case open_db path of
       Inl e \<Rightarrow> Inl (Fjall e)
     | Inr db \<Rightarrow> Inr \<lparr>fdm_path = path, fdm_db = db\<rparr>)"

record fjall_store =
  fs_name :: string
  fs_prefix :: string

text \<open>The keyspace is the one named after the store: stores of one name and
  different prefixes share it.\<close>

definition fjall_create_store ::
  "('db \<Rightarrow> string \<Rightarrow> string + 'ks) \<Rightarrow> 'db fjall_db_manager \<Rightarrow> string \<Rightarrow> string
    \<Rightarrow> store_error + fjall_store \<times> 'ks" where
  "fjall_create_store keyspace mgr name pre =
     (case keyspace (fdm_db mgr) name of
       Inl e \<Rightarrow> Inl (Fjall e)
     | Inr ks \<Rightarrow> Inr (\<lparr>fs_name = name, fs_prefix = pre\<rparr>, ks))"

definition fjall_drop :: "(string \<Rightarrow> string + unit) \<Rightarrow> 'db fjall_db_manager \<Rightarrow> store_error + unit" where
  "fjall_drop remove_dir_all mgr = map_err Io (remove_dir_all (fdm_path mgr))"

section \<open>The operations of a store\<close>

definition into_key_value :: "guard \<Rightarrow> store_error + u64 \<times> bytes" where
  "into_key_value g =
     (case g of
       Inl e \<Rightarrow> Inl (Fjall e)
     | Inr (key, v) \<Rightarrow>
         (case key_num key of
           None \<Rightarrow> Inl (Reading (''failed to parse key from fjall -> '' @ key))
         | Some n \<Rightarrow> Inr (n, v)))"

text \<open>\<open>Iterator::last\<close>.\<close>

definition iter_last :: "'a list \<Rightarrow> 'a option" where
  "iter_last xs = (if xs = [] then None else Some (last xs))"

definition fjall_last_key :: "'ks keyspace_ops \<Rightarrow> fjall_store \<Rightarrow> 'ks \<Rightarrow> u64" where
  "fjall_last_key K st ks =
     (case iter_last (ks_prefix K ks (fs_prefix st)) of
       None \<Rightarrow> 0
     | Some g \<Rightarrow> (case ok (into_key_value g) of None \<Rightarrow> 0 | Some (k, _) \<Rightarrow> k))"

definition prefix_iterator :: "'ks keyspace_ops \<Rightarrow> fjall_store \<Rightarrow> 'ks \<Rightarrow> (u64 \<times> bytes) list" where
  "prefix_iterator K st ks = List.map_filter (\<lambda>g. ok (into_key_value g)) (ks_prefix K ks (fs_prefix st))"

definition fjall_get :: "'ks keyspace_ops \<Rightarrow> fjall_store \<Rightarrow> 'ks \<Rightarrow> u64 \<Rightarrow> store_error + bytes" where
  "fjall_get K st ks key =
     (let k = store_key (fs_prefix st) key
      in (case ks_get K ks k of
           Inl e \<Rightarrow> Inl (Fjall e)
         | Inr (Some v) \<Rightarrow> Inr v
         | Inr None \<Rightarrow> Inl (EntryNotFound (''Key not found: '' @ k))))"

definition fjall_put ::
  "'ks keyspace_ops \<Rightarrow> fjall_store \<Rightarrow> 'ks \<Rightarrow> u64 \<Rightarrow> bytes \<Rightarrow> (store_error + unit) \<times> 'ks" where
  "fjall_put K st ks key v =
     (let (r, ks') = ks_insert K ks (store_key (fs_prefix st) key) v in (map_err Fjall r, ks'))"

definition fjall_del ::
  "'ks keyspace_ops \<Rightarrow> fjall_store \<Rightarrow> 'ks \<Rightarrow> u64 \<Rightarrow> (store_error + unit) \<times> 'ks" where
  "fjall_del K st ks key =
     (let (r, ks') = ks_remove K ks (store_key (fs_prefix st) key) in (map_err Fjall r, ks'))"

definition fjall_last :: "'ks keyspace_ops \<Rightarrow> fjall_store \<Rightarrow> 'ks \<Rightarrow> (u64 \<times> bytes) option" where
  "fjall_last K st ks =
     (case iter_last (ks_prefix K ks (fs_prefix st)) of
       None \<Rightarrow> None
     | Some g \<Rightarrow> ok (into_key_value g))"

text \<open>The loop of \<open>purge\<close>: the first failing read or removal ends it.\<close>

fun purge_loop :: "'ks keyspace_ops \<Rightarrow> guard list \<Rightarrow> 'ks \<Rightarrow> (store_error + unit) \<times> 'ks" where
  "purge_loop K [] ks = (Inr (), ks)"
| "purge_loop K (Inl e # gs) ks = (Inl (Fjall e), ks)"
| "purge_loop K (Inr (key, v) # gs) ks =
     (case ks_remove K ks key of
       (Inl e, ks') \<Rightarrow> (Inl (Fjall e), ks')
     | (Inr _, ks') \<Rightarrow> purge_loop K gs ks')"

definition fjall_purge :: "'ks keyspace_ops \<Rightarrow> fjall_store \<Rightarrow> 'ks \<Rightarrow> (store_error + unit) \<times> 'ks" where
  "fjall_purge K st ks = purge_loop K (ks_prefix K ks (fs_prefix st)) ks"

fun fjall_iter :: "'ks keyspace_ops \<Rightarrow> fjall_store \<Rightarrow> 'ks \<Rightarrow> iterator_options \<Rightarrow> (u64 \<times> bytes) list" where
  "fjall_iter K st ks (Forward from count) =
     (let f = (case from of Some f \<Rightarrow> f | None \<Rightarrow> 0);
          c = (case count of Some c \<Rightarrow> c | None \<Rightarrow> - 1)
      in take (unat c) (filter (\<lambda>e. \<not> fst e < f) (prefix_iterator K st ks)))"
| "fjall_iter K st ks (Reverse from count) =
     (let f = (case from of Some f \<Rightarrow> f | None \<Rightarrow> fjall_last_key K st ks);
          c = (case count of Some c \<Rightarrow> c | None \<Rightarrow> - 1)
      in take (unat c) (filter (\<lambda>e. \<not> fst e > f) (rev (prefix_iterator K st ks))))"
| "fjall_iter K st ks (Range from to) =
     (let t = (case to of Some t \<Rightarrow> t | None \<Rightarrow> fjall_last_key K st ks)
      in filter (\<lambda>e. fst e \<ge> from \<and> fst e \<le> t) (prefix_iterator K st ks))"

text \<open>The dictionary; \<open>flush\<close> is the trait's default, which does nothing.\<close>

definition fjall_ops :: "'ks keyspace_ops \<Rightarrow> (fjall_store \<times> 'ks) store_ops" where
  "fjall_ops K = \<lparr>
     so_name = (\<lambda>(st, ks). fs_name st),
     so_prefix = (\<lambda>(st, ks). fs_prefix st),
     so_get = (\<lambda>(st, ks) k. fjall_get K st ks k),
     so_put = (\<lambda>(st, ks) k v. let (r, ks') = fjall_put K st ks k v in (r, (st, ks'))),
     so_del = (\<lambda>(st, ks) k. let (r, ks') = fjall_del K st ks k in (r, (st, ks'))),
     so_last = (\<lambda>(st, ks). fjall_last K st ks),
     so_purge = (\<lambda>(st, ks). let (r, ks') = fjall_purge K st ks in (r, (st, ks'))),
     so_iter = (\<lambda>(st, ks) opts. fjall_iter K st ks opts),
     so_flush = default_flush \<rparr>"

text \<open>
  What a store of the shared keyspace needs: every key that starts with its
  prefix is one of its own. It fails as soon as another store of the keyspace has
  a prefix that extends this one.
\<close>

definition fjall_inv ::
  "('ks \<Rightarrow> bool) \<Rightarrow> ('ks \<Rightarrow> string \<rightharpoonup> bytes) \<Rightarrow> fjall_store \<times> 'ks \<Rightarrow> bool" where
  "fjall_inv kinv kview s =
     (case s of (st, ks) \<Rightarrow>
        kinv ks \<and> (\<forall>key \<in> dom (kview ks). prefix (fs_prefix st) key \<longrightarrow> own_key (fs_prefix st) key))"

definition fjall_view :: "('ks \<Rightarrow> string \<rightharpoonup> bytes) \<Rightarrow> fjall_store \<times> 'ks \<Rightarrow> u64 \<rightharpoonup> bytes" where
  "fjall_view kview s k =
     (case s of (st, ks) \<Rightarrow>
        if unat k < key_limit then kview ks (store_key (fs_prefix st) k) else None)"

lemma fjall_ops_sel [simp]:
  "so_name (fjall_ops K) (st, ks) = fs_name st"
  "so_prefix (fjall_ops K) (st, ks) = fs_prefix st"
  "so_get (fjall_ops K) (st, ks) k = fjall_get K st ks k"
  "so_put (fjall_ops K) (st, ks) k v = (fst (fjall_put K st ks k v), (st, snd (fjall_put K st ks k v)))"
  "so_del (fjall_ops K) (st, ks) k = (fst (fjall_del K st ks k), (st, snd (fjall_del K st ks k)))"
  "so_last (fjall_ops K) (st, ks) = fjall_last K st ks"
  "so_purge (fjall_ops K) (st, ks) = (fst (fjall_purge K st ks), (st, snd (fjall_purge K st ks)))"
  "so_iter (fjall_ops K) (st, ks) opts = fjall_iter K st ks opts"
  "so_flush (fjall_ops K) s = Inr ()"
  by (simp_all add: fjall_ops_def default_flush_def split_beta Let_def)

lemma ok_into_key_value [simp]:
  "ok (into_key_value (Inl e)) = None"
  "ok (into_key_value (Inr (key, v))) = map_option (\<lambda>k. (k, v)) (key_num key)"
  by (auto simp: into_key_value_def split: option.splits)

lemma map_filter_guards: "List.map_filter (\<lambda>g. ok (into_key_value g)) (map Inr es) = decode_entries es"
  by (induction es) (auto simp: List.map_filter_def decode_entries_def)

text \<open>\<open>purge\<close> that reports success has removed every key the scan gave.\<close>

lemma iter_last_map: "iter_last (map f xs) = map_option f (iter_last xs)"
  by (simp add: iter_last_def last_map)

lemma iter_last_decode:
  assumes "\<forall>e \<in> set es. own_key pre (fst e)"
  shows "(case iter_last es of None \<Rightarrow> None | Some e \<Rightarrow> ok (into_key_value (Inr e)))
    = last_entry (decode_entries es)"
  using assms
proof (induction es rule: rev_induct)
  case Nil
  then show ?case by (simp add: iter_last_def last_entry_def)
next
  case (snoc e es)
  obtain s v where e: "e = (s, v)" by (cases e)
  with snoc.prems obtain k where "key_num s = Some k"
    by (auto simp: own_key_iff)
  with e show ?case
    by (simp add: iter_last_def last_entry_def decode_entries_def List.map_filter_def)
qed

section \<open>What the engine promises\<close>

locale fjall_keyspace =
  fixes K :: "'ks keyspace_ops"
    and kinv :: "'ks \<Rightarrow> bool"
    and kview :: "'ks \<Rightarrow> string \<rightharpoonup> bytes"
  assumes kview_finite: "kinv ks \<Longrightarrow> finite (dom (kview ks))"
    and kget: "kinv ks \<Longrightarrow> ks_get K ks key = Inr (kview ks key)"
    and kinsert: "kinv ks \<Longrightarrow> ks_insert K ks key v = (Inr (), ks')
      \<Longrightarrow> kinv ks' \<and> kview ks' = (kview ks)(key \<mapsto> v)"
    and kremove: "kinv ks \<Longrightarrow> ks_remove K ks key = (Inr (), ks')
      \<Longrightarrow> kinv ks' \<and> kview ks' = (kview ks)(key := None)"
    and kscan: "kinv ks \<Longrightarrow> ks_prefix K ks pre
      = map Inr (filter (\<lambda>e. prefix pre (fst e)) (entries (kview ks)))"
begin

text \<open>The entries of one store: the part of the keyspace its scans see.\<close>

definition scan :: "fjall_store \<Rightarrow> 'ks \<Rightarrow> (string \<times> bytes) list" where
  "scan st ks = filter (\<lambda>e. prefix (fs_prefix st) (fst e)) (entries (kview ks))"

lemma scan_ok: "bt_ok (scan st ks)"
  by (simp add: scan_def bt_filter_ok bt_ok_entries)

lemma scan_own:
  assumes "fjall_inv kinv kview (st, ks)"
  shows "\<forall>e \<in> set (scan st ks). own_key (fs_prefix st) (fst e)"
proof
  fix e assume "e \<in> set (scan st ks)"
  then have "(fst e, snd e) \<in> set (entries (kview ks))" and pre: "prefix (fs_prefix st) (fst e)"
    by (simp_all add: scan_def)
  then have "fst e \<in> dom (kview ks)"
    using assms by (simp only: set_entries kview_finite fjall_inv_def prod.case) blast
  with assms pre show "own_key (fs_prefix st) (fst e)"
    by (simp add: fjall_inv_def)
qed

lemma map_of_scan:
  "kinv ks \<Longrightarrow> map_of (scan st ks) key = (if prefix (fs_prefix st) key then kview ks key else None)"
  by (simp add: scan_def map_of_filter_fst map_of_entries kview_finite)

lemma ks_prefix_scan: "kinv ks \<Longrightarrow> ks_prefix K ks (fs_prefix st) = map Inr (scan st ks)"
  by (simp add: kscan scan_def)

lemma prefix_iterator_decode: "kinv ks \<Longrightarrow> prefix_iterator K st ks = decode_entries (scan st ks)"
  by (simp add: prefix_iterator_def ks_prefix_scan map_filter_guards)

lemma fjall_invD: "fjall_inv kinv kview (st, ks) \<Longrightarrow> kinv ks"
  by (simp add: fjall_inv_def)

lemma fjall_entries:
  assumes "fjall_inv kinv kview (st, ks)"
  shows "entries (fjall_view kview (st, ks)) = decode_entries (scan st ks)"
proof (rule entries_eqI)
  note own = scan_own [OF assms]
  show "bt_ok (decode_entries (scan st ks))"
    by (rule decode_entries_ok [OF scan_ok own])
  show "map_of (decode_entries (scan st ks)) = fjall_view kview (st, ks)"
    using fjall_invD [OF assms]
    by (simp add: map_of_decode_entries [OF scan_ok own] map_of_scan fjall_view_def fun_eq_iff)
qed

lemma fjall_last_entry:
  assumes "fjall_inv kinv kview (st, ks)"
  shows "fjall_last K st ks = last_entry (decode_entries (scan st ks))"
  using iter_last_decode [OF scan_own [OF assms]] fjall_invD [OF assms]
  by (auto simp: fjall_last_def ks_prefix_scan iter_last_map split: option.splits)

lemma fjall_last_key_entry:
  assumes "fjall_inv kinv kview (st, ks)"
  shows "fjall_last_key K st ks
    = (case last_entry (decode_entries (scan st ks)) of None \<Rightarrow> 0 | Some (k, _) \<Rightarrow> k)"
  using iter_last_decode [OF scan_own [OF assms]] fjall_invD [OF assms]
  by (auto simp: fjall_last_key_def ks_prefix_scan iter_last_map split: option.splits)

lemma fjall_iter_spec:
  assumes "fjall_inv kinv kview (st, ks)"
  shows "fjall_iter K st ks opts = iter_spec (decode_entries (scan st ks)) opts"
proof -
  let ?es = "decode_entries (scan st ks)"
  note own = scan_own [OF assms] and it = prefix_iterator_decode [OF fjall_invD [OF assms]]
  have ok: "bt_ok ?es" by (rule decode_entries_ok [OF scan_ok own])
  have "length ?es \<le> key_limit" by (rule length_decode_entries [OF scan_ok own])
  then have len: "length ?es \<le> unat (- 1 :: u64)"
    by (simp add: key_limit_def unsigned_minus_1_eq_mask mask_eq_exp_minus_1)
  have all: "take (unat (- 1 :: u64)) (filter P ?es) = filter P ?es"
    "take (unat (- 1 :: u64)) (filter P (rev ?es)) = filter P (rev ?es)" for P
    using len by (simp_all add: order_trans [OF length_filter_le])
  have lk: "?es \<noteq> [] \<Longrightarrow> fjall_last_key K st ks = fst (last ?es)"
    by (simp add: fjall_last_key_entry [OF assms] last_entry_def split: prod.splits)
  show ?thesis
  proof (cases "?es = []")
    case True
    then show ?thesis by (cases opts) (simp_all add: it Let_def split: option.splits)
  next
    case False
    have le: "fst e \<le> fst (last ?es)" if "e \<in> set ?es" for e
      using ok that by (rule bt_ok_le_last)
    have rev_all: "filter (\<lambda>e. fst e \<le> fst (last ?es)) (rev ?es) = rev ?es"
      by (rule iter_reverse_default [OF ok False])
    have default: "filter (\<lambda>e. f \<le> fst e \<and> fst e \<le> fst (last ?es)) ?es = filter (\<lambda>e. f \<le> fst e) ?es" for f
      using le by (intro filter_cong) auto
    show ?thesis
      using all rev_all default
      by (cases opts) (auto simp: it lk [OF False] Let_def not_less split: option.splits)
  qed
qed

lemma fjall_inv_mono:
  assumes "fjall_inv kinv kview (st, ks)" and "kinv ks'"
    and "\<And>key. key \<in> dom (kview ks') \<Longrightarrow> key \<in> dom (kview ks) \<or> own_key (fs_prefix st) key"
  shows "fjall_inv kinv kview (st, ks')"
  using assms unfolding fjall_inv_def prod.case by blast

lemma fjall_put_state:
  assumes "fjall_inv kinv kview (st, ks)" and "unat k < key_limit"
    and "fjall_put K st ks k v = (Inr (), ks')"
  shows "fjall_inv kinv kview (st, ks') \<and> fjall_view kview (st, ks') = (fjall_view kview (st, ks))(k \<mapsto> v)"
proof -
  have "ks_insert K ks (store_key (fs_prefix st) k) v = (Inr (), ks')"
    using assms(3) by (auto simp: fjall_put_def split: prod.splits)
  with kinsert [OF fjall_invD [OF assms(1)]]
  have k': "kinv ks'" "kview ks' = (kview ks)(store_key (fs_prefix st) k \<mapsto> v)" by blast+
  have "fjall_inv kinv kview (st, ks')"
    by (rule fjall_inv_mono [OF assms(1) k'(1)])
      (use k'(2) own_key_store_key [OF assms(2)] in \<open>auto split: if_splits\<close>)
  then show ?thesis
    using assms(2) by (auto simp: fjall_view_def k'(2) fun_eq_iff)
qed

lemma fjall_del_state:
  assumes "fjall_inv kinv kview (st, ks)" and "fjall_del K st ks k = (Inr (), ks')"
  shows "fjall_inv kinv kview (st, ks') \<and> fjall_view kview (st, ks') = (fjall_view kview (st, ks))(k := None)"
proof -
  have "ks_remove K ks (store_key (fs_prefix st) k) = (Inr (), ks')"
    using assms(2) by (auto simp: fjall_del_def split: prod.splits)
  with kremove [OF fjall_invD [OF assms(1)]]
  have k': "kinv ks'" "kview ks' = (kview ks)(store_key (fs_prefix st) k := None)" by blast+
  have "fjall_inv kinv kview (st, ks')"
    by (rule fjall_inv_mono [OF assms(1) k'(1)]) (use k'(2) in \<open>auto split: if_splits\<close>)
  then show ?thesis
    by (auto simp: fjall_view_def k'(2) fun_eq_iff)
qed

lemma purge_loop_state:
  "kinv ks \<Longrightarrow> purge_loop K (map Inr es) ks = (Inr (), ks')
    \<Longrightarrow> kinv ks' \<and> kview ks' = (\<lambda>key. if key \<in> fst ` set es then None else kview ks key)"
proof (induction es arbitrary: ks)
  case (Cons e es)
  obtain key v where e: "e = (key, v)" by (cases e)
  with Cons.prems(2) obtain ks1 where
    r: "ks_remove K ks key = (Inr (), ks1)" "purge_loop K (map Inr es) ks1 = (Inr (), ks')"
    by (auto split: prod.splits sum.splits)
  from kremove [OF Cons.prems(1) r(1)] have k1: "kinv ks1" "kview ks1 = (kview ks)(key := None)"
    by simp_all
  from Cons.IH [OF k1(1) r(2)] k1(2) e show ?case by (auto simp: fun_eq_iff)
qed auto

lemma fjall_purge_all:
  assumes "kinv ks" and "fjall_purge K st ks = (Inr (), ks')"
  shows "kinv ks' \<and> kview ks' = (\<lambda>key. if prefix (fs_prefix st) key then None else kview ks key)"
proof -
  have "fst ` set (scan st ks) = {key \<in> dom (kview ks). prefix (fs_prefix st) key}"
    using set_entries [OF kview_finite [OF assms(1)]] by (force simp: scan_def dom_def)
  then show ?thesis
    using purge_loop_state [OF assms(1), of "scan st ks" ks'] assms
    by (auto simp: fjall_purge_def ks_prefix_scan fun_eq_iff domIff)
qed

lemma fjall_purge_state:
  assumes "fjall_inv kinv kview (st, ks)" and "fjall_purge K st ks = (Inr (), ks')"
  shows "fjall_inv kinv kview (st, ks') \<and> fjall_view kview (st, ks') = Map.empty"
  using fjall_purge_all [OF fjall_invD [OF assms(1)] assms(2)]
  by (auto simp: fjall_inv_def fjall_view_def fun_eq_iff split: if_splits)

end

sublocale fjall_keyspace \<subseteq> fjall: store_contract "fjall_ops K" "fjall_inv kinv kview" "fjall_view kview"
proof (unfold_locales, goal_cases)
  case (1 s)
  obtain st ks where s: "s = (st, ks)" by (cases s)
  have "fjall_view kview s = map_of (decode_entries (scan st ks))"
    using 1 scan_own [of st ks] fjall_invD [of st ks]
    by (simp add: s map_of_decode_entries [OF scan_ok] map_of_scan fjall_view_def fun_eq_iff)
  then show ?case by (simp add: finite_dom_map_of)
next
  case (2 s k v)
  then show ?case by (cases s) (auto simp: fjall_view_def split: if_splits)
next
  case (3 s k v)
  then show ?case
    by (cases s) (auto simp: fjall_view_def fjall_get_def Let_def kget dest: fjall_invD split: if_splits)
next
  case (4 s k)
  then show ?case
    by (cases s) (auto simp: fjall_view_def fjall_get_def Let_def kget dest: fjall_invD split: if_splits)
next
  case (11 s)
  then show ?case by (cases s) (simp add: fjall_entries fjall_last_entry)
next
  case (12 s opts)
  then show ?case by (cases s) (simp add: fjall_entries fjall_iter_spec)
qed (auto simp: prod_eq_iff dest: fjall_put_state fjall_del_state fjall_purge_state)

section \<open>The ordered map as an engine\<close>

text \<open>The \<open>BTreeMap\<close> that the in-memory backend runs on provides the engine's
  interface: a keyspace held in memory.\<close>

definition btree_keyspace :: "(string, bytes) btree keyspace_ops" where
  "btree_keyspace = \<lparr>
     ks_get = (\<lambda>t key. Inr (map_of t key)),
     ks_insert = (\<lambda>t key v. (Inr (), bt_insert key v t)),
     ks_remove = (\<lambda>t key. (Inr (), bt_remove key t)),
     ks_prefix = (\<lambda>t pre. map Inr (filter (\<lambda>e. prefix pre (fst e)) t)) \<rparr>"

interpretation bt: fjall_keyspace btree_keyspace bt_ok map_of
proof (unfold_locales, goal_cases)
  case (5 ks pre)
  then show ?case by (simp add: btree_keyspace_def entries_eqI)
qed (auto simp: btree_keyspace_def finite_dom_map_of bt_insert_ok bt_remove_ok)

section \<open>Properties\<close>

definition store_p1 :: fjall_store where
  "store_p1 = \<lparr>fs_name = ''Counter-Journal'', fs_prefix = ''counter-1''\<rparr>"

definition store_p10 :: fjall_store where
  "store_p10 = \<lparr>fs_name = ''Counter-Journal'', fs_prefix = ''counter-10''\<rparr>"

definition store_p2 :: fjall_store where
  "store_p2 = \<lparr>fs_name = ''Counter-Journal'', fs_prefix = ''counter-2''\<rparr>"

lemma p1_empty_inv: "fjall_inv bt_ok map_of (store_p1, [])"
  by (simp add: fjall_inv_def)

context fjall_keyspace begin

text \<open>What a reader observes, put together from the contract.\<close>

lemma put_observed:
  assumes inv: "fjall_inv kinv kview (st, ks)" and k: "unat k < key_limit"
    and put: "fjall_put K st ks k v = (Inr (), ks')"
  shows "fjall_inv kinv kview (st, ks') \<and> fjall_get K st ks' k = Inr v
    \<and> (\<forall>j. unat j < key_limit \<and> j \<noteq> k \<longrightarrow> fjall_get K st ks' j = fjall_get K st ks j)
    \<and> fjall_iter K st ks' opts = iter_spec (entries ((fjall_view kview (st, ks))(k \<mapsto> v))) opts
    \<and> fjall_last K st ks' = last_entry (entries ((fjall_view kview (st, ks))(k \<mapsto> v)))"
proof -
  note st = fjall_put_state [OF inv k put]
  have inv': "fjall_inv kinv kview (st, ks')" using st by blast
  have "fjall_get K st ks' k = Inr v"
    using fjall.get_Some [OF inv', of k v] st by simp
  moreover have "fjall_get K st ks' j = fjall_get K st ks j" if "unat j < key_limit \<and> j \<noteq> k" for j
    using that fjall.get_Some [OF inv', of j] fjall.get_None [OF inv', of j]
      fjall.get_Some [OF inv, of j] fjall.get_None [OF inv, of j] st
    by (cases "fjall_view kview (st, ks) j") auto
  ultimately show ?thesis
    using inv' fjall.iter_view [OF inv', of opts] fjall.last_view [OF inv'] st by simp
qed

text \<open>Two stores of one keyspace whose prefixes do not extend one another.\<close>

lemma put_isolated:
  assumes "fjall_inv kinv kview (st, ks)" and "kinv ks"
    and "\<not> prefix (fs_prefix st) (store_key (fs_prefix st2) k)"
    and "fjall_put K st2 ks k v = (Inr (), ks')"
  shows "fjall_inv kinv kview (st, ks') \<and> fjall_view kview (st, ks') = fjall_view kview (st, ks)"
proof -
  have "ks_insert K ks (store_key (fs_prefix st2) k) v = (Inr (), ks')"
    using assms(4) by (auto simp: fjall_put_def split: prod.splits)
  with kinsert [OF assms(2)]
  have k': "kinv ks'" "kview ks' = (kview ks)(store_key (fs_prefix st2) k \<mapsto> v)" by blast+
  have ne: "store_key (fs_prefix st) j \<noteq> store_key (fs_prefix st2) k" for j
    using assms(3) prefix_store_key [of "fs_prefix st" j] by metis
  have "fjall_inv kinv kview (st, ks')"
    using assms(1,3) k' by (auto simp: fjall_inv_def split: if_splits)
  then show ?thesis
    using ne by (auto simp: fjall_view_def k'(2) fun_eq_iff)
qed

lemma foreign_scan:
  assumes "kinv ks" and "kview ks = Map.empty" and "prefix (fs_prefix stp) (fs_prefix stq)"
    and "fjall_put K stq ks k v = (Inr (), ks')"
  shows "kinv ks' \<and> kview ks' = [store_key (fs_prefix stq) k \<mapsto> v]
    \<and> ks_prefix K ks' (fs_prefix stp) = [Inr (store_key (fs_prefix stq) k, v)]"
proof -
  let ?q = "store_key (fs_prefix stq) k"
  have "ks_insert K ks ?q v = (Inr (), ks')"
    using assms(4) by (auto simp: fjall_put_def split: prod.splits)
  with kinsert [OF assms(1)] assms(2) have k': "kinv ks'" "kview ks' = [?q \<mapsto> v]" by auto
  have pq: "prefix (fs_prefix stp) ?q"
    using assms(3) by (rule prefix_order.trans) simp
  have "entries (kview ks') = [(?q, v)]"
    by (rule entries_eqI) (simp_all add: k'(2) bt_ok_def)
  with pq k' show ?thesis by (simp add: kscan)
qed

lemma prefix_leak:
  assumes "kinv ks" and "kview ks = Map.empty" and "prefix (fs_prefix stp) (fs_prefix stq)"
    and "fs_prefix stp \<noteq> fs_prefix stq" and "fjall_put K stq ks k v = (Inr (), ks')"
  shows "fjall_last K stp ks' = Some (k, v)
    \<and> fjall_get K stp ks' k = Inl (EntryNotFound (''Key not found: '' @ store_key (fs_prefix stp) k))
    \<and> (\<forall>ks''. fjall_purge K stp ks' = (Inr (), ks'') \<longrightarrow> fjall_last K stq ks'' = None)"
proof -
  note s = foreign_scan [OF assms(1-3,5)]
  have "prefix (fs_prefix stp) (store_key (fs_prefix stq) k)"
    using assms(3) by (rule prefix_order.trans) simp
  then have "kinv ks'' \<and> kview ks'' = Map.empty" if "fjall_purge K stp ks' = (Inr (), ks'')" for ks''
    using fjall_purge_all [of ks' stp ks''] that s by (auto simp: fun_eq_iff)
  then have "fjall_last K stq ks'' = None" if "fjall_purge K stp ks' = (Inr (), ks'')" for ks''
    using that by (simp add: fjall_last_def kscan iter_last_def)
  moreover have "store_key (fs_prefix stp) k \<noteq> store_key (fs_prefix stq) k"
    using assms(4) by (simp add: store_key_def)
  ultimately show ?thesis
    using s by (simp add: fjall_last_def fjall_get_def kget iter_last_def into_key_value_def Let_def)
qed

end

lemma not_prefix_store_key:
  assumes "\<not> prefix p q" and "\<not> prefix q p"
  shows "\<not> prefix p (store_key q k)"
  using assms prefix_same_cases [of p "store_key q k" q] by auto

text \<open>C9: on a keyspace where the store's prefix is its own, a write below the key
  limit that reports success is what a later read returns and changes no other
  key; scans and \<open>last\<close> then give the updated entries in the numeric order of
  the keys.\<close>

theorem fjall_store_correct:
  assumes "fjall_keyspace K kinv kview" and "fjall_inv kinv kview (st, ks)"
    and "unat k < key_limit" and "fjall_put K st ks k v = (Inr (), ks')"
  shows "fjall_inv kinv kview (st, ks') \<and> fjall_get K st ks' k = Inr v
    \<and> (\<forall>j. unat j < key_limit \<and> j \<noteq> k \<longrightarrow> fjall_get K st ks' j = fjall_get K st ks j)
    \<and> fjall_iter K st ks' opts = iter_spec (entries ((fjall_view kview (st, ks))(k \<mapsto> v))) opts
    \<and> fjall_last K st ks' = last_entry (entries ((fjall_view kview (st, ks))(k \<mapsto> v)))"
  using assms by (rule fjall_keyspace.put_observed)

theorem fjall_store_correct_witness:
  "fjall_get btree_keyspace store_p1 (snd (fjall_put btree_keyspace store_p1 [] 7 [1])) 7 = Inr [1]"
  using fjall_store_correct [OF bt.fjall_keyspace_axioms p1_empty_inv, of 7 "[1]"]
  by (simp add: fjall_put_def btree_keyspace_def key_limit_def)

text \<open>A write through one store leaves another store of the same keyspace as
  it was, provided neither prefix extends the other.\<close>

theorem fjall_stores_isolated:
  assumes "fjall_keyspace K kinv kview" and "fjall_inv kinv kview (st, ks)"
    and "\<not> prefix (fs_prefix st) (fs_prefix st2)" and "\<not> prefix (fs_prefix st2) (fs_prefix st)"
    and "fjall_put K st2 ks k v = (Inr (), ks')"
  shows "fjall_inv kinv kview (st, ks') \<and> fjall_view kview (st, ks') = fjall_view kview (st, ks)"
  using fjall_keyspace.put_isolated [OF assms(1,2) _ not_prefix_store_key [OF assms(3,4)] assms(5)]
    fjall_keyspace.fjall_invD [OF assms(1,2)] by blast

theorem fjall_stores_isolated_witness:
  "fjall_inv bt_ok map_of (store_p1, snd (fjall_put btree_keyspace store_p2 [] 7 [1]))"
  using fjall_stores_isolated [OF bt.fjall_keyspace_axioms p1_empty_inv, of store_p2 7 "[1]"]
  by (simp add: fjall_put_def btree_keyspace_def store_p1_def store_p2_def)

text \<open>Where one prefix does extend the other (the actors \<open>counter-1\<close> and
  \<open>counter-10\<close>), the shorter one's scans see the longer one's entries: in an
  otherwise empty keyspace its \<open>last\<close> answers an entry that it cannot read,
  and its \<open>purge\<close> empties the other store.\<close>

theorem fjall_prefix_leak:
  assumes "fjall_keyspace K kinv kview" and "kinv ks" and "kview ks = Map.empty"
    and "prefix (fs_prefix stp) (fs_prefix stq)" and "fs_prefix stp \<noteq> fs_prefix stq"
    and "fjall_put K stq ks k v = (Inr (), ks')"
  shows "fjall_last K stp ks' = Some (k, v)
    \<and> fjall_get K stp ks' k = Inl (EntryNotFound (''Key not found: '' @ store_key (fs_prefix stp) k))
    \<and> (\<forall>ks''. fjall_purge K stp ks' = (Inr (), ks'') \<longrightarrow> fjall_last K stq ks'' = None)"
  using assms by (rule fjall_keyspace.prefix_leak)

theorem fjall_prefix_leak_witness:
  "fjall_last btree_keyspace store_p1 (snd (fjall_put btree_keyspace store_p10 [] 7 [1])) = Some (7, [1])"
  using fjall_prefix_leak [OF bt.fjall_keyspace_axioms, of "[]" store_p1 store_p10 7 "[1]"]
  by (simp add: store_p1_def store_p10_def fjall_put_def btree_keyspace_def)

end
