(* ===== verification/Backends.thy ===== *)
theory Backends
  imports FjallStore Journal
begin

text \<open>
  The two backends of \<open>store/src/stores\<close> side by side: a program that uses a store
  through the \<open>Store\<close> trait, seen as the sequence of its calls, is answered the same
  by either, because both refine one finite map (\<open>map_call\<close>). The build picks the
  backend by a feature flag, so this is what makes the choice one of durability only.
\<close>

section \<open>Calls and answers\<close>

datatype store_call =
    Get_Call u64
  | Put_Call u64 bytes
  | Del_Call u64
  | Last_Call
  | Purge_Call
  | Iter_Call iterator_options
  | Flush_Call

datatype store_answer =
    Got "store_error + bytes"
  | Done "store_error + unit"
  | Last_Was "(u64 \<times> bytes) option"
  | Listed "(u64 \<times> bytes) list"

fun run_call :: "'s store_ops \<Rightarrow> store_call \<Rightarrow> 's \<Rightarrow> store_answer \<times> 's" where
  "run_call S (Get_Call k) s = (Got (so_get S s k), s)"
| "run_call S (Put_Call k v) s = (case so_put S s k v of (r, s) \<Rightarrow> (Done r, s))"
| "run_call S (Del_Call k) s = (case so_del S s k of (r, s) \<Rightarrow> (Done r, s))"
| "run_call S Last_Call s = (Last_Was (so_last S s), s)"
| "run_call S Purge_Call s = (case so_purge S s of (r, s) \<Rightarrow> (Done r, s))"
| "run_call S (Iter_Call opts) s = (Listed (so_iter S s opts), s)"
| "run_call S Flush_Call s = (Done (so_flush S s), s)"

fun run_calls :: "'s store_ops \<Rightarrow> store_call list \<Rightarrow> 's \<Rightarrow> store_answer list \<times> 's" where
  "run_calls S [] s = ([], s)"
| "run_calls S (c # cs) s =
     (case run_call S c s of (a, s) \<Rightarrow> (case run_calls S cs s of (as, s) \<Rightarrow> (a # as, s)))"

text \<open>The same calls on a finite map.\<close>

fun map_call :: "string \<Rightarrow> store_call \<Rightarrow> (u64 \<rightharpoonup> bytes) \<Rightarrow> store_answer \<times> (u64 \<rightharpoonup> bytes)" where
  "map_call pre (Get_Call k) m =
     (Got (case m k of Some v \<Rightarrow> Inr v | None \<Rightarrow> Inl (EntryNotFound (''Key not found: '' @ store_key pre k))), m)"
| "map_call pre (Put_Call k v) m = (Done (Inr ()), m(k \<mapsto> v))"
| "map_call pre (Del_Call k) m = (Done (Inr ()), m(k := None))"
| "map_call pre Last_Call m = (Last_Was (last_entry (entries m)), m)"
| "map_call pre Purge_Call m = (Done (Inr ()), Map.empty)"
| "map_call pre (Iter_Call opts) m = (Listed (iter_spec (entries m) opts), m)"
| "map_call pre Flush_Call m = (Done (Inr ()), m)"

fun map_calls :: "string \<Rightarrow> store_call list \<Rightarrow> (u64 \<rightharpoonup> bytes) \<Rightarrow> store_answer list \<times> (u64 \<rightharpoonup> bytes)" where
  "map_calls pre [] m = ([], m)"
| "map_calls pre (c # cs) m =
     (case map_call pre c m of (a, m) \<Rightarrow> (case map_calls pre cs m of (as, m) \<Rightarrow> (a # as, m)))"

text \<open>Keys within the width of the padding.\<close>

fun call_ok :: "store_call \<Rightarrow> bool" where
  "call_ok (Get_Call k) \<longleftrightarrow> unat k < key_limit"
| "call_ok (Put_Call k v) \<longleftrightarrow> unat k < key_limit"
| "call_ok (Del_Call k) \<longleftrightarrow> unat k < key_limit"
| "call_ok _ \<longleftrightarrow> True"

section \<open>A backend refines the map\<close>

locale faithful_store = reliable_store +
  assumes put_prefix: "inv s \<Longrightarrow> so_prefix S (snd (so_put S s k v)) = so_prefix S s"
    and del_prefix: "inv s \<Longrightarrow> so_prefix S (snd (so_del S s k)) = so_prefix S s"
begin

lemma call_refines:
  assumes "inv s" and "call_ok c"
  shows "\<exists>s'. run_call S c s = (fst (map_call (so_prefix S s) c (view s)), s') \<and> inv s'
    \<and> view s' = snd (map_call (so_prefix S s) c (view s)) \<and> so_prefix S s' = so_prefix S s"
proof (cases c)
  case (Get_Call k)
  then show ?thesis
    using assms get_Some [OF assms(1), of k] get_None [OF assms(1), of k] by (cases "view s k") auto
next
  case (Put_Call k v)
  obtain s' where s': "so_put S s k v = (Inr (), s')" using put_ok [OF assms(1)] by blast
  have k: "unat k < key_limit" using assms(2) Put_Call by simp
  show ?thesis
    using Put_Call s' put_inv [OF assms(1) k s'] put_view [OF assms(1) k s'] put_prefix [OF assms(1), of k v] by simp
next
  case (Del_Call k)
  obtain s' where s': "so_del S s k = (Inr (), s')" using del_ok [OF assms(1)] by blast
  have k: "unat k < key_limit" using assms(2) Del_Call by simp
  show ?thesis
    using Del_Call s' del_inv [OF assms(1) k s'] del_view [OF assms(1) k s'] del_prefix [OF assms(1), of k] by simp
next
  case Purge_Call
  obtain s' where s': "so_purge S s = (Inr (), s')" using purge_ok [OF assms(1)] by blast
  show ?thesis
    using Purge_Call s' purge_inv [OF assms(1) s'] purge_view [OF assms(1) s'] purge_prefix [OF assms(1) s'] by simp
next
  case Last_Call
  then show ?thesis using assms by (simp add: last_view)
next
  case (Iter_Call opts)
  then show ?thesis using assms by (simp add: iter_view)
next
  case Flush_Call
  then show ?thesis using assms by (simp add: flush_ok)
qed

lemma calls_refine:
  assumes "inv s" and "\<forall>c \<in> set cs. call_ok c"
  shows "\<exists>s'. run_calls S cs s = (fst (map_calls (so_prefix S s) cs (view s)), s') \<and> inv s'
    \<and> view s' = snd (map_calls (so_prefix S s) cs (view s))"
  using assms
proof (induction cs arbitrary: s)
  case (Cons c cs)
  then obtain s1 where s1: "run_call S c s = (fst (map_call (so_prefix S s) c (view s)), s1)" "inv s1"
    "view s1 = snd (map_call (so_prefix S s) c (view s))" "so_prefix S s1 = so_prefix S s"
    using call_refines [of s c] by auto
  from Cons.IH [OF s1(2)] Cons.prems(2) obtain s2 where
    "run_calls S cs s1 = (fst (map_calls (so_prefix S s1) cs (view s1)), s2)" "inv s2"
    "view s2 = snd (map_calls (so_prefix S s1) cs (view s1))" by auto
  with s1 show ?case by (simp add: split_beta)
qed simp

end

interpretation mem: faithful_store memory_ops mem_inv mem_view
  by unfold_locales (auto split: prod.splits)

text \<open>An engine whose writes do not fail.\<close>

locale steady_keyspace = fjall_keyspace +
  assumes insert_ok: "kinv ks \<Longrightarrow> fst (ks_insert K ks key v) = Inr ()"
    and remove_ok: "kinv ks \<Longrightarrow> fst (ks_remove K ks key) = Inr ()"
begin

lemma purge_loop_ok: "kinv ks \<Longrightarrow> \<exists>ks'. purge_loop K (map Inr es) ks = (Inr (), ks')"
proof (induction es arbitrary: ks)
  case (Cons e es)
  obtain key v where e: "e = (key, v)" by (cases e)
  obtain ks1 where r: "ks_remove K ks key = (Inr (), ks1)"
    using remove_ok [OF Cons.prems, of key] by (cases "ks_remove K ks key") auto
  with kremove [OF Cons.prems r] Cons.IH [of ks1] show ?case by (simp add: e)
qed simp

lemma writes_ok:
  assumes "kinv ks"
  shows "fst (fjall_put K st ks k v) = Inr ()" and "fst (fjall_del K st ks k) = Inr ()" and "fst (fjall_purge K st ks) = Inr ()"
  using insert_ok [OF assms] remove_ok [OF assms] purge_loop_ok [OF assms, of "scan st ks"]
  by (auto simp: fjall_put_def fjall_del_def fjall_purge_def ks_prefix_scan [OF assms] split_beta Let_def)

end

sublocale steady_keyspace \<subseteq> steady: faithful_store "fjall_ops K" "fjall_inv kinv kview" "fjall_view kview"
proof (unfold_locales, goal_cases)
  case (1 s k v)
  then show ?case by (cases s) (auto simp: writes_ok dest: fjall_invD)
next
  case (2 s k)
  then show ?case by (cases s) (auto simp: writes_ok dest: fjall_invD)
next
  case (3 s)
  then show ?case by (cases s) (auto simp: writes_ok dest: fjall_invD)
next
  case (4 s)
  then show ?case by (cases s) simp
next
  case (5 s k v)
  then show ?case by (cases s) simp
next
  case (6 s k)
  then show ?case by (cases s) simp
qed

context steady_keyspace begin

lemma answers_as_map:
  assumes "fjall_inv kinv kview (st, ks)" and "\<forall>c \<in> set cs. call_ok c"
  shows "fst (run_calls (fjall_ops K) cs (st, ks)) = fst (map_calls (fs_prefix st) cs (fjall_view kview (st, ks)))"
  using steady.calls_refine [OF assms] by auto

end

interpretation bt: steady_keyspace btree_keyspace bt_ok map_of
  by unfold_locales (auto simp: btree_keyspace_def)

context fjall_keyspace begin

lemma foreign_journal:
  assumes "kinv ks" and "kview ks = Map.empty" and "prefix (fs_prefix stp) (fs_prefix stq)"
    and "fs_prefix stp \<noteq> fs_prefix stq" and "fjall_put K stq ks k v = (Inr (), ks')" and "unat k < key_limit" and "from \<le> k"
    and "j = journal_new (fjall_ops K) (stp, ks')"
  shows "j_next j = k + 1 \<and> latest_sequence j = k
    \<and> journal_range (fjall_ops K) j from None = [(k, v)]
    \<and> journal_last (fjall_ops K) j = None"
proof -
  have it: "prefix_iterator K stp ks' = [(k, v)]"
    using foreign_scan [OF assms(1-3,5)] by (simp add: prefix_iterator_def List.map_filter_def into_key_value_def)
  note leak = prefix_leak [OF assms(1-5)]
  have "k + 1 \<noteq> 0"
    using assms(6) by (auto simp: key_limit_def unat_eq_zero [symmetric] unat_word_ariths)
  with leak have j: "j = \<lparr>j_store = (stp, ks'), j_next = k + 1\<rparr>" "latest_sequence j = k"
    using assms(8) by (simp_all add: journal_new_def latest_sequence_def)
  then show ?thesis
    using it leak assms(7) by (simp add: journal_range_def journal_last_def journal_get_def)
qed

end

section \<open>Properties\<close>

text \<open>C7: the backends are interchangeable: a memory store and a fjall store with the
  same prefix and the same contents, the latter alone under its prefix on an engine
  whose writes do not fail, give the same answers, errors included, to every sequence
  of calls on keys below the limit; both answer as a finite map.\<close>

theorem backends_equivalent:
  assumes "mem_inv (mst, h)" and "steady_keyspace K kinv kview" and "fjall_inv kinv kview (st, ks)"
    and "ms_prefix mst = fs_prefix st" and "mem_view (mst, h) = fjall_view kview (st, ks)"
    and "\<forall>c \<in> set cs. call_ok c"
  shows "fst (run_calls memory_ops cs (mst, h)) = fst (run_calls (fjall_ops K) cs (st, ks))
    \<and> fst (run_calls memory_ops cs (mst, h)) = fst (map_calls (ms_prefix mst) cs (mem_view (mst, h)))"
  using mem.calls_refine [OF assms(1,6)] steady_keyspace.answers_as_map [OF assms(2,3,6)] assms(4,5) by auto

theorem backends_equivalent_witness:
  "fst (run_calls memory_ops [Put_Call 2 [7], Put_Call 11 [8], Del_Call 2, Get_Call 2, Iter_Call (Reverse None None), Last_Call]
      (\<lparr>ms_name = ''s'', ms_prefix = ''counter-1'', ms_data = 0\<rparr>, empty_heap))
    = fst (run_calls (fjall_ops btree_keyspace) [Put_Call 2 [7], Put_Call 11 [8], Del_Call 2, Get_Call 2, Iter_Call (Reverse None None), Last_Call]
      (store_p1, []))"
proof -
  let ?st = "\<lparr>ms_name = ''s'', ms_prefix = ''counter-1'', ms_data = 0\<rparr>"
  have "mem_inv (?st, empty_heap)" and "mem_view (?st, empty_heap) = fjall_view map_of (store_p1, [])"
    by (auto simp: mem_inv_def mem_view_def fjall_view_def fun_eq_iff empty_heap_def mem_poisoned_def mem_data_def)
  moreover have "ms_prefix ?st = fs_prefix store_p1" by (simp add: store_p1_def)
  moreover have "\<forall>c \<in> set [Put_Call 2 [7], Put_Call 11 [8], Del_Call 2, Get_Call 2, Iter_Call (Reverse None None), Last_Call]. call_ok c"
    by (simp add: key_limit_def)
  ultimately show ?thesis
    using backends_equivalent [OF _ bt.steady_keyspace_axioms p1_empty_inv] by blast
qed

text \<open>C19: on the fjall backend a new journal takes over the events of another actor of
  its type whose identifier extends its own (\<open>1\<close> and \<open>10\<close>). Opened for the first time,
  it numbers its first event after the other's, hands the other's event out in a range,
  which is what recovery replays, and yet cannot read that event by its number.\<close>

theorem journal_adopts_foreign_events:
  assumes "fjall_keyspace K kinv kview" and "kinv ks" and "kview ks = Map.empty"
    and "prefix (fs_prefix stp) (fs_prefix stq)" and "fs_prefix stp \<noteq> fs_prefix stq"
    and "fjall_put K stq ks k v = (Inr (), ks')" and "unat k < key_limit" and "from \<le> k"
    and "j = journal_new (fjall_ops K) (stp, ks')"
  shows "j_next j = k + 1 \<and> latest_sequence j = k
    \<and> journal_range (fjall_ops K) j from None = [(k, v)]
    \<and> journal_last (fjall_ops K) j = None"
  using assms by (rule fjall_keyspace.foreign_journal)

theorem journal_adopts_foreign_events_witness:
  "journal_range (fjall_ops btree_keyspace)
      (journal_new (fjall_ops btree_keyspace) (store_p1, snd (fjall_put btree_keyspace store_p10 [] 7 [1]))) 1 None
    = [(7, [1])]"
proof -
  have "fjall_put btree_keyspace store_p10 [] 7 [1] = (Inr (), snd (fjall_put btree_keyspace store_p10 [] 7 [1]))"
    by (simp add: fjall_put_def btree_keyspace_def)
  moreover have "prefix (fs_prefix store_p1) (fs_prefix store_p10)" "fs_prefix store_p1 \<noteq> fs_prefix store_p10"
    by (simp_all add: store_p1_def store_p10_def)
  moreover have "unat (7 :: u64) < key_limit" "(1 :: u64) \<le> 7" "bt_ok ([] :: (string, bytes) btree)"
    "map_of ([] :: (string, bytes) btree) = Map.empty"
    by (simp_all add: key_limit_def)
  ultimately show ?thesis
    using journal_adopts_foreign_events [OF bt.fjall_keyspace_axioms] by blast
qed

end
