(* ===== verification/Conformance.thy ===== *)
theory Conformance
  imports Backends Supervision Path
begin

text \<open>
  The unit tests of the repository whose subject is modelled as it stands, run on the
  model: those of \<open>actor/src/path.rs\<close> and \<open>actor/src/supervision.rs\<close>, and the suite
  \<open>test_store_trait!\<close> (\<open>store/src/stores/mod.rs\<close>) that every backend instantiates. A
  test is a truth value: its assertions, false where an \<open>unwrap\<close> would panic.
\<close>

section \<open>Paths\<close>

definition sensor :: actor_path where
  "sensor = path_from ''/acme/building/room/sensor''"

definition parse_tests :: bool where
  "parse_tests \<longleftrightarrow>
     path_from '''' = ActorPath []
   \<and> path_from ''/acme'' = ActorPath [''acme'']
   \<and> path_from ''/acme/building'' = ActorPath [''acme'', ''building'']
   \<and> path_from ''/acme/building/room'' = ActorPath [''acme'', ''building'', ''room'']
   \<and> path_level sensor = 4
   \<and> path_key sensor = ''sensor''
   \<and> path_parent sensor = ActorPath [''acme'', ''building'', ''room'']
   \<and> path_to_string sensor = ''/acme/building/room/sensor''
   \<and> path_to_string (path_root (path_from ''/acme'')) = ''/acme''
   \<and> path_to_string (path_parent (path_from ''/acme'')) = ''/''
   \<and> path_to_string (path_root sensor) = ''/acme''
   \<and> path_is_empty (path_from ''/'') \<and> \<not> path_is_empty (path_from ''/not_empty'')"

definition relation_tests :: bool where
  "relation_tests \<longleftrightarrow>
     (let path = sensor; parent = path_parent path; root = path_root path
      in is_parent_of parent path \<and> is_child_of path parent
       \<and> is_descendant_of path parent \<and> \<not> is_descendant_of path path
       \<and> is_ancestor_of parent path \<and> \<not> is_ancestor_of path path
       \<and> is_ancestor_of root path \<and> is_descendant_of path root
       \<and> is_top_level root \<and> \<not> is_top_level path
       \<and> \<not> is_top_level (ActorPath []) \<and> \<not> is_top_level (path_root (ActorPath [])))"

definition level_tests :: bool where
  "level_tests \<longleftrightarrow>
     (let path = sensor
      in at_level path 0 = path \<and> at_level path 1 = path_root path
       \<and> at_level path 2 = path_from ''/acme/building'' \<and> at_level path 3 = path_parent path
       \<and> at_level path 4 = path \<and> at_level path 5 = path)
   \<and> (let path = path_from ''/acme''
      in at_level path 0 = path \<and> at_level path 1 = path_root path \<and> at_level path 2 = path)
   \<and> (let path = path_from ''/acme'' in is_parent_of path (path_div path ''child''))
   \<and> path_from ''/acme/building/room/sensor'' = ActorPath [''acme'', ''building'', ''room'', ''sensor'']
   \<and> path_from ''/acme/building/room/sensor/'' = ActorPath [''acme'', ''building'', ''room'', ''sensor'']
   \<and> path_to_string sensor = ''/acme/building/room/sensor'' \<and> path_to_string (path_from ''/'') = ''/''"

section \<open>Strategies\<close>

fun calls_answer :: "duration option list \<Rightarrow> strategy \<Rightarrow> bool" where
  "calls_answer [] s = True"
| "calls_answer (d # ds) s = (case next_backoff s of (b, s) \<Rightarrow> b = d \<and> calls_answer ds s)"

definition strategy_tests :: "(nat \<Rightarrow> duration) \<Rightarrow> bool" where
  "strategy_tests from_secs \<longleftrightarrow>
     (let s = NoInterval (no_interval_new 3) in max_retries s = 3 \<and> calls_answer [None] s)
   \<and> (let s = FixedInterval (fixed_interval_new 3 (from_secs 1)) in max_retries s = 3 \<and> calls_answer [Some (from_secs 1)] s)
   \<and> (let s = CustomInterval (custom_interval_new [from_secs 1, from_secs 2, from_secs 3])
      in max_retries s = 3 \<and> calls_answer [Some (from_secs 1), Some (from_secs 2), Some (from_secs 3), None] s)
   \<and> (let s = FixedInterval (fixed_interval_new 2 (from_secs 5)) in max_retries s = 2 \<and> calls_answer [Some (from_secs 5)] s)
   \<and> (max_retries strategy_default = 0 \<and> calls_answer [None] strategy_default)
   \<and> (let s = CustomInterval (custom_interval_new [from_secs 1, from_secs 2])
      in max_retries s = 2 \<and> calls_answer [Some (from_secs 1), Some (from_secs 2), None] s)"

section \<open>Stores\<close>

text \<open>A backend: its manager and engine in a world, and the dictionary of a handle.\<close>

record ('h, 'w) backend =
  bk_create :: "string \<Rightarrow> string \<Rightarrow> 'w \<Rightarrow> (store_error + 'h) \<times> 'w"
  bk_ops :: "('h \<times> 'w) store_ops"
  bk_stop :: "'w \<Rightarrow> store_error + unit"
  bk_drop :: "'w \<Rightarrow> store_error + unit"

text \<open>The defaults of \<open>DbManager\<close>.\<close>

definition default_stop :: "'w \<Rightarrow> store_error + unit" where
  "default_stop w = Inr ()"

definition default_drop :: "'w \<Rightarrow> store_error + unit" where
  "default_drop w = Inr ()"

definition unwrap :: "(store_error + 'x) \<times> 's \<Rightarrow> ('x \<Rightarrow> 's \<Rightarrow> bool) \<Rightarrow> bool" where
  "unwrap r f = (case r of (Inl _, _) \<Rightarrow> False | (Inr x, s) \<Rightarrow> f x s)"

definition is_ok :: "store_error + 'x \<Rightarrow> bool" where
  "is_ok r = (case r of Inl _ \<Rightarrow> False | Inr _ \<Rightarrow> True)"

definition lit :: "string \<Rightarrow> bytes" where
  "lit s = map of_char s"

definition ends_well :: "('h, 'w) backend \<Rightarrow> 'w \<Rightarrow> bool" where
  "ends_well B w \<longleftrightarrow> is_ok (bk_stop B w) \<and> is_ok (bk_drop B w)"

text \<open>The three puts that many of the tests begin with.\<close>

definition put3 ::
  "('h, 'w) backend \<Rightarrow> 'h \<times> 'w \<Rightarrow> u64 \<times> string \<Rightarrow> u64 \<times> string \<Rightarrow> u64 \<times> string \<Rightarrow> ('h \<times> 'w \<Rightarrow> bool) \<Rightarrow> bool" where
  "put3 B s a b c f =
     unwrap (so_put (bk_ops B) s (fst a) (lit (snd a))) (\<lambda>_ s.
     unwrap (so_put (bk_ops B) s (fst b) (lit (snd b))) (\<lambda>_ s.
     unwrap (so_put (bk_ops B) s (fst c) (lit (snd c))) (\<lambda>_ s. f s)))"

definition test_create_store :: "('h, 'w) backend \<Rightarrow> 'w \<Rightarrow> bool" where
  "test_create_store B w =
     unwrap (bk_create B ''test'' ''test'' w) (\<lambda>st w. so_name (bk_ops B) (st, w) = ''test'' \<and> ends_well B w)"

definition test_put_get_store :: "('h, 'w) backend \<Rightarrow> 'w \<Rightarrow> bool" where
  "test_put_get_store B w =
     unwrap (bk_create B ''test'' ''test'' w) (\<lambda>st w.
     unwrap (so_put (bk_ops B) (st, w) 1 (lit ''value'')) (\<lambda>_ s.
       so_get (bk_ops B) s 1 = Inr (lit ''value'') \<and> ends_well B (snd s)))"

definition test_del_store :: "('h, 'w) backend \<Rightarrow> 'w \<Rightarrow> bool" where
  "test_del_store B w =
     unwrap (bk_create B ''test'' ''test'' w) (\<lambda>st w.
     unwrap (so_put (bk_ops B) (st, w) 1 (lit ''value'')) (\<lambda>_ s.
     unwrap (so_del (bk_ops B) s 1) (\<lambda>_ s.
       \<not> is_ok (so_get (bk_ops B) s 1) \<and> ends_well B (snd s))))"

text \<open>Two stores of one manager: entries 1 to 3 in one, 4 to 6 in the other.\<close>

definition two_stores :: "('h, 'w) backend \<Rightarrow> 'w \<Rightarrow> ('h \<Rightarrow> 'h \<Rightarrow> 'w \<Rightarrow> bool) \<Rightarrow> bool" where
  "two_stores B w f =
     unwrap (bk_create B ''test'' ''test1'' w) (\<lambda>st1 w.
     put3 B (st1, w) (1, ''value1'') (2, ''value2'') (3, ''value3'') (\<lambda>(st1, w).
     unwrap (bk_create B ''test'' ''test2'' w) (\<lambda>st2 w.
     put3 B (st2, w) (4, ''value4'') (5, ''value5'') (6, ''value6'') (\<lambda>(st2, w). f st1 st2 w))))"

definition test_iter_reverse :: "('h, 'w) backend \<Rightarrow> 'w \<Rightarrow> bool" where
  "test_iter_reverse B w =
     two_stores B w (\<lambda>st1 st2 w.
       so_iter (bk_ops B) (st1, w) (Reverse None None) = [(3, lit ''value3''), (2, lit ''value2''), (1, lit ''value1'')]
     \<and> so_iter (bk_ops B) (st2, w) (Reverse (Some 5) (Some 1)) = [(5, lit ''value5'')]
     \<and> so_iter (bk_ops B) (st1, w) (Reverse (Some 2) None) = [(2, lit ''value2''), (1, lit ''value1'')]
     \<and> so_iter (bk_ops B) (st2, w) (Reverse None (Some 1)) = [(6, lit ''value6'')]
     \<and> ends_well B w)"

definition test_iter_forward :: "('h, 'w) backend \<Rightarrow> 'w \<Rightarrow> bool" where
  "test_iter_forward B w =
     two_stores B w (\<lambda>st1 st2 w.
       so_iter (bk_ops B) (st1, w) (Forward None None) = [(1, lit ''value1''), (2, lit ''value2''), (3, lit ''value3'')]
     \<and> so_iter (bk_ops B) (st2, w) (Forward (Some 5) (Some 1)) = [(5, lit ''value5'')]
     \<and> so_iter (bk_ops B) (st1, w) (Forward None (Some 2)) = [(1, lit ''value1''), (2, lit ''value2'')]
     \<and> so_iter (bk_ops B) (st2, w) (Forward (Some 5) None) = [(5, lit ''value5''), (6, lit ''value6'')]
     \<and> ends_well B w)"

definition test_iter_range :: "('h, 'w) backend \<Rightarrow> 'w \<Rightarrow> bool" where
  "test_iter_range B w =
     unwrap (bk_create B ''test'' ''test'' w) (\<lambda>st w.
     put3 B (st, w) (1, ''value1'') (2, ''value2'') (3, ''value3'') (\<lambda>s.
       so_iter (bk_ops B) s (Range 2 (Some 4)) = [(2, lit ''value2''), (3, lit ''value3'')]
     \<and> so_iter (bk_ops B) s (Range 3 None) = [(3, lit ''value3'')]
     \<and> ends_well B (snd s)))"

definition test_last :: "('h, 'w) backend \<Rightarrow> 'w \<Rightarrow> bool" where
  "test_last B w =
     unwrap (bk_create B ''test'' ''test1'' w) (\<lambda>st w.
     put3 B (st, w) (1, ''value1'') (2, ''value2'') (3, ''value3'') (\<lambda>(st, w).
     unwrap (bk_create B ''test'' ''test2'' w) (\<lambda>st2 w.
     unwrap (so_put (bk_ops B) (st2, w) 4 (lit ''value4'')) (\<lambda>_ (st2, w).
       so_last (bk_ops B) (st, w) = Some (3, lit ''value3'') \<and> ends_well B w))))"

definition test_purge :: "('h, 'w) backend \<Rightarrow> 'w \<Rightarrow> bool" where
  "test_purge B w =
     unwrap (bk_create B ''test'' ''test'' w) (\<lambda>st w.
     put3 B (st, w) (1, ''value1'') (2, ''value2'') (3, ''value3'') (\<lambda>s.
       so_get (bk_ops B) s 1 = Inr (lit ''value1'')
     \<and> so_get (bk_ops B) s 2 = Inr (lit ''value2'')
     \<and> so_get (bk_ops B) s 3 = Inr (lit ''value3'')
     \<and> unwrap (so_purge (bk_ops B) s) (\<lambda>_ s.
         so_iter (bk_ops B) s (Forward None None) = [] \<and> ends_well B (snd s))))"

definition test_flush :: "('h, 'w) backend \<Rightarrow> 'w \<Rightarrow> bool" where
  "test_flush B w =
     unwrap (bk_create B ''test'' ''test'' w) (\<lambda>st w.
     put3 B (st, w) (1, ''value1'') (2, ''value2'') (3, ''value3'') (\<lambda>s.
       is_ok (so_flush (bk_ops B) s) \<and> ends_well B (snd s)))"

definition store_tests :: "('h, 'w) backend \<Rightarrow> 'w \<Rightarrow> bool" where
  "store_tests B w \<longleftrightarrow>
     test_create_store B w \<and> test_put_get_store B w \<and> test_del_store B w \<and> test_iter_reverse B w
   \<and> test_iter_forward B w \<and> test_iter_range B w \<and> test_last B w \<and> test_purge B w \<and> test_flush B w"

text \<open>The backends as the suite sees them: the memory manager with its heap, and a fjall
  manager whose keyspace \<open>test\<close> is an ordered map.\<close>

definition with_manager :: "(memory_store \<times> mem_heap) store_ops \<Rightarrow> (memory_store \<times> memory_db_manager \<times> mem_heap) store_ops" where
  "with_manager S =
     (let low = (\<lambda>(st, m, h). (st, h)); high = (\<lambda>(st, m, h) (r, st', h'). (r, st', m, h'))
      in \<lparr>so_name = (\<lambda>s. so_name S (low s)), so_prefix = (\<lambda>s. so_prefix S (low s)),
          so_get = (\<lambda>s k. so_get S (low s) k), so_put = (\<lambda>s k v. high s (so_put S (low s) k v)),
          so_del = (\<lambda>s k. high s (so_del S (low s) k)), so_last = (\<lambda>s. so_last S (low s)),
          so_purge = (\<lambda>s. high s (so_purge S (low s))), so_iter = (\<lambda>s opts. so_iter S (low s) opts),
          so_flush = (\<lambda>s. so_flush S (low s))\<rparr>)"

definition memory_backend :: "(memory_store, memory_db_manager \<times> mem_heap) backend" where
  "memory_backend = \<lparr>
     bk_create = (\<lambda>name pre (m, h). mem_create_store m h name pre),
     bk_ops = with_manager memory_ops, bk_stop = default_stop, bk_drop = default_drop \<rparr>"

definition fjall_backend :: "(fjall_store, (string, bytes) btree) backend" where
  "fjall_backend = \<lparr>
     bk_create = (\<lambda>name pre ks.
       case fjall_create_store (\<lambda>_ _. Inr ks) \<lparr>fdm_path = ''db'', fdm_db = ()\<rparr> name pre of
         Inl e \<Rightarrow> (Inl e, ks) | Inr (st, ks) \<Rightarrow> (Inr st, ks)),
     bk_ops = fjall_ops btree_keyspace, bk_stop = default_stop,
     bk_drop = (\<lambda>_. fjall_drop (\<lambda>_. Inr ()) \<lparr>fdm_path = ''db'', fdm_db = ()\<rparr>) \<rparr>"

section \<open>Evaluation\<close>

text \<open>The keys stay symbolic: comparing and parsing them goes by their numbers.\<close>

lemma key_pairs [simp]:
  "store_key p 1 < store_key p 2" "store_key p 1 < store_key p 3" "store_key p 2 < store_key p 3"
  "\<not> store_key p 2 < store_key p 1" "\<not> store_key p 3 < store_key p 1" "\<not> store_key p 3 < store_key p 2"
  "store_key p 4 < store_key p 5" "store_key p 4 < store_key p 6" "store_key p 5 < store_key p 6"
  "\<not> store_key p 5 < store_key p 4" "\<not> store_key p 6 < store_key p 4" "\<not> store_key p 6 < store_key p 5"
  by (simp_all add: store_key_less_iff word_less_nat_alt key_limit_def)

lemma test_keys [simp]:
  "store_key ''test1'' j < store_key ''test2'' k" "\<not> store_key ''test2'' j < store_key ''test1'' k"
  "store_key ''test1'' j \<noteq> store_key ''test2'' k" "store_key ''test2'' j \<noteq> store_key ''test1'' k"
  "\<not> prefix ''test1'' (store_key ''test2'' k)" "\<not> prefix ''test2'' (store_key ''test1'' k)"
  by (simp_all add: store_key_def)

lemmas suite_defs = unwrap_def is_ok_def ends_well_def put3_def two_stores_def default_stop_def default_drop_def

definition three :: "string \<Rightarrow> (string \<times> bytes) list" where
  "three p = [(store_key p 1, lit ''value1''), (store_key p 2, lit ''value2''), (store_key p 3, lit ''value3'')]"

definition next_three :: "string \<Rightarrow> (string \<times> bytes) list" where
  "next_three p = [(store_key p 4, lit ''value4''), (store_key p 5, lit ''value5''), (store_key p 6, lit ''value6'')]"

lemma decoded_three [simp]:
  "decode_entries (three p) = [(1, lit ''value1''), (2, lit ''value2''), (3, lit ''value3'')]"
  "decode_entries (next_three p) = [(4, lit ''value4''), (5, lit ''value5''), (6, lit ''value6'')]"
  by (simp_all add: decode_entries_def List.map_filter_def three_def next_three_def)


lemma small_order [simp]:
  "(1 :: u64) \<le> 2" "\<not> (2 :: u64) \<le> 1" "\<not> (3 :: u64) \<le> 1" "(2 :: u64) \<le> 3" "\<not> (3 :: u64) \<le> 2"
  "(3 :: u64) \<le> 4" "(2 :: u64) \<le> 4"
  by (simp_all add: word_le_nat_alt)

lemma scanned [simp]:
  "filter (\<lambda>e. prefix ''test1'' (fst e)) (next_three ''test2'') = []"
  "filter (\<lambda>e. prefix ''test2'' (fst e)) (three ''test1'') = []"
  "filter (\<lambda>e. prefix p (fst e)) (three p) = three p"
  "filter (\<lambda>e. prefix p (fst e)) (next_three p) = next_three p"
  by (simp_all add: three_def next_three_def)

lemma all_counted [simp]: "take (unat (- 1 :: u64)) [x, y, z] = [x, y, z]" "take (unat (- 1 :: u64)) [x, y] = [x, y]"
  "take (unat (- 1 :: u64)) [x] = [x]"
  by (simp_all add: unsigned_minus_1_eq_mask mask_eq_exp_minus_1)

lemma fjall_scans [simp]:
  "prefix_iterator btree_keyspace st ks = decode_entries (filter (\<lambda>e. prefix (fs_prefix st) (fst e)) ks)"
  by (simp add: prefix_iterator_def btree_keyspace_def map_filter_guards)

lemma fjall_writes [simp]:
  "fjall_put btree_keyspace st ks k v = (Inr (), bt_insert (store_key (fs_prefix st) k) v ks)"
  by (simp add: fjall_put_def btree_keyspace_def)

lemma fjall_last_keys [simp]:
  "fjall_last_key btree_keyspace \<lparr>fs_name = n, fs_prefix = p\<rparr> (three p) = 3"
  "fjall_last_key btree_keyspace \<lparr>fs_name = n, fs_prefix = ''test1''\<rparr> (three ''test1'' @ next_three ''test2'') = 3"
  "fjall_last_key btree_keyspace \<lparr>fs_name = n, fs_prefix = ''test2''\<rparr> (three ''test1'' @ next_three ''test2'') = 6"
  by (simp_all add: fjall_last_key_def btree_keyspace_def iter_last_def, simp_all add: three_def next_three_def into_key_value_def)

lemma fjall_create [simp]: "bk_create fjall_backend n p ks = (Inr \<lparr>fs_name = n, fs_prefix = p\<rparr>, ks)"
  by (simp add: fjall_backend_def fjall_create_store_def)

lemma fjall_ends [simp]: "ends_well fjall_backend w" "bk_ops fjall_backend = fjall_ops btree_keyspace"
  by (simp_all add: ends_well_def fjall_backend_def is_ok_def default_stop_def fjall_drop_def)

lemma fjall_two_stores:
  "two_stores fjall_backend [] f = f \<lparr>fs_name = ''test'', fs_prefix = ''test1''\<rparr> \<lparr>fs_name = ''test'', fs_prefix = ''test2''\<rparr>
     (three ''test1'' @ next_three ''test2'')"
  by (simp add: two_stores_def unwrap_def put3_def three_def next_three_def)

lemma fjall_three_puts:
  "put3 fjall_backend (\<lparr>fs_name = n, fs_prefix = p\<rparr>, []) (1, ''value1'') (2, ''value2'') (3, ''value3'') f
   = f (\<lparr>fs_name = n, fs_prefix = p\<rparr>, three p)"
  by (simp add: put3_def unwrap_def three_def)

lemma btree_keyspace_sel [simp]:
  "ks_get btree_keyspace t key = Inr (map_of t key)" "ks_remove btree_keyspace t key = (Inr (), bt_remove key t)"
  "ks_prefix btree_keyspace t p = map Inr (filter (\<lambda>e. prefix p (fst e)) t)"
  by (simp_all add: btree_keyspace_def)

lemma fjall_suite:
  "test_create_store fjall_backend []" "test_put_get_store fjall_backend []" "test_del_store fjall_backend []"
  "test_iter_reverse fjall_backend []" "test_iter_forward fjall_backend []" "test_iter_range fjall_backend []"
  "test_last fjall_backend []" "test_purge fjall_backend []" "test_flush fjall_backend []"
  by (simp_all add: test_create_store_def test_put_get_store_def test_del_store_def test_iter_reverse_def
      test_iter_forward_def test_iter_range_def test_last_def test_purge_def test_flush_def fjall_two_stores
      fjall_three_puts unwrap_def is_ok_def fjall_get_def fjall_del_def fjall_last_def fjall_purge_def iter_last_def
      bt_remove_def)
    (simp_all add: three_def into_key_value_def bt_remove_def)

lemma mem_write_write [simp]: "mem_write (mem_write h st a) st b = mem_write h st b"
  by (simp add: mem_write_def)

lemma mem_three_puts:
  assumes "mem_data h st = []" and "\<not> mem_poisoned h st"
  shows "put3 memory_backend (st, m, h) (1, ''value1'') (2, ''value2'') (3, ''value3'') f
    = f (st, m, mem_write h st (three (ms_prefix st)))"
    and "put3 memory_backend (st, m, h) (4, ''value4'') (5, ''value5'') (6, ''value6'') f
    = f (st, m, mem_write h st (next_three (ms_prefix st)))"
  using assms
  by (simp_all add: put3_def unwrap_def three_def next_three_def memory_backend_def with_manager_def mem_put_def Let_def)

abbreviation memory_start :: "memory_db_manager \<times> mem_heap" where
  "memory_start \<equiv> (\<lparr>mdb_data = [], mdb_poisoned = False\<rparr>, empty_heap)"

abbreviation memory_store_at :: "string \<Rightarrow> loc \<Rightarrow> memory_store" where
  "memory_store_at p l \<equiv> \<lparr>ms_name = ''test'', ms_prefix = p, ms_data = l\<rparr>"

lemma memory_create: "\<exists>m h. bk_create memory_backend ''test'' p memory_start = (Inr (memory_store_at p 1), m, h)
  \<and> mem_data h (memory_store_at p 1) = [] \<and> \<not> mem_poisoned h (memory_store_at p 1)
  \<and> m = \<lparr>mdb_data = [((''test'', p), 1)], mdb_poisoned = False\<rparr> \<and> mh_next h = 2"
  by (simp add: memory_backend_def mem_create_store_def empty_heap_def Let_def mem_data_def mem_poisoned_def
      hm_insert_def hm_remove_def)

lemma memory_create_second:
  assumes "mh_next h = 2" and "m = \<lparr>mdb_data = [((''test'', ''test1''), 1)], mdb_poisoned = False\<rparr>"
  shows "\<exists>m' h'. bk_create memory_backend ''test'' ''test2'' (m, h) = (Inr (memory_store_at ''test2'' 2), m', h')
  \<and> mem_data h' (memory_store_at ''test2'' 2) = [] \<and> \<not> mem_poisoned h' (memory_store_at ''test2'' 2)
  \<and> mem_data h' (memory_store_at ''test1'' 1) = mem_data h (memory_store_at ''test1'' 1)
  \<and> mem_poisoned h' (memory_store_at ''test1'' 1) = mem_poisoned h (memory_store_at ''test1'' 1)"
  using assms by (simp add: memory_backend_def mem_create_store_def Let_def mem_data_def mem_poisoned_def)

lemma mem_write_other:
  "l \<noteq> ms_data st \<Longrightarrow> mem_data (mem_write h st t) (memory_store_at p l) = mem_data h (memory_store_at p l)"
  by (simp add: mem_write_def mem_data_def)

lemma mem_write_next [simp]: "mh_next (mem_write h st t) = mh_next h"
  by (simp add: mem_write_def)

lemma memory_two_stores:
  "\<exists>m h. two_stores memory_backend memory_start f = f (memory_store_at ''test1'' 1) (memory_store_at ''test2'' 2) (m, h)
    \<and> mem_data h (memory_store_at ''test1'' 1) = three ''test1'' \<and> \<not> mem_poisoned h (memory_store_at ''test1'' 1)
    \<and> mem_data h (memory_store_at ''test2'' 2) = next_three ''test2'' \<and> \<not> mem_poisoned h (memory_store_at ''test2'' 2)"
proof -
  let ?st1 = "memory_store_at ''test1'' 1" and ?st2 = "memory_store_at ''test2'' 2"
  obtain m h where c1: "bk_create memory_backend ''test'' ''test1'' memory_start = (Inr ?st1, m, h)"
    "mem_data h ?st1 = []" "\<not> mem_poisoned h ?st1" "m = \<lparr>mdb_data = [((''test'', ''test1''), 1)], mdb_poisoned = False\<rparr>"
    "mh_next h = 2" using memory_create [of "''test1''"] by blast
  let ?h = "mem_write h ?st1 (three ''test1'')"
  have "mh_next ?h = 2" using c1 by simp
  from memory_create_second [OF this c1(4)] obtain m' h' where
    c2: "bk_create memory_backend ''test'' ''test2'' (m, ?h) = (Inr ?st2, m', h')" "mem_data h' ?st2 = []"
    "\<not> mem_poisoned h' ?st2" "mem_data h' ?st1 = three ''test1''" "\<not> mem_poisoned h' ?st1"
    using c1 by auto
  show ?thesis
    by (rule exI [of _ m'], rule exI [of _ "mem_write h' ?st2 (next_three ''test2'')"])
      (use c1 c2 in \<open>simp add: two_stores_def unwrap_def mem_three_puts mem_write_other\<close>)
qed

lemma mem_scan:
  assumes "\<not> mem_poisoned h st"
  shows "mem_iter_prefix h st p = decode_entries (filter (\<lambda>e. prefix p (fst e)) (mem_data h st))"
proof -
  have "List.map_filter (\<lambda>(k, v). if prefix p k then map_option (\<lambda>n. (n, v)) (key_num k) else None) es
    = decode_entries (filter (\<lambda>e. prefix p (fst e)) es)" for es
    by (induction es) (auto simp: decode_entries_def List.map_filter_def split: if_splits)
  then show ?thesis using assms by (simp add: mem_iter_prefix_def)
qed

lemma memory_sel [simp]:
  "ends_well memory_backend w" "so_name (bk_ops memory_backend) (st, m, h) = ms_name st"
  "so_get (bk_ops memory_backend) (st, m, h) k = mem_get h st k"
  "so_put (bk_ops memory_backend) (st, m, h) k v = (fst (mem_put h st k v), st, m, snd (mem_put h st k v))"
  "so_del (bk_ops memory_backend) (st, m, h) k = (fst (mem_del h st k), st, m, snd (mem_del h st k))"
  "so_purge (bk_ops memory_backend) (st, m, h) = (fst (mem_purge h st), st, m, snd (mem_purge h st))"
  "so_last (bk_ops memory_backend) (st, m, h) = mem_last h st"
  "so_iter (bk_ops memory_backend) (st, m, h) opts = mem_iter h st opts"
  "so_flush (bk_ops memory_backend) (st, m, h) = Inr ()"
  by (simp_all add: ends_well_def memory_backend_def is_ok_def default_stop_def default_drop_def with_manager_def
      Let_def split_beta)

lemma memory_one_store:
  assumes "\<And>m h. mem_data h (memory_store_at p 1) = [] \<Longrightarrow> \<not> mem_poisoned h (memory_store_at p 1) \<Longrightarrow> mh_next h = 2
    \<Longrightarrow> m = \<lparr>mdb_data = [((''test'', p), 1)], mdb_poisoned = False\<rparr> \<Longrightarrow> f (memory_store_at p 1) (m, h)"
  shows "unwrap (bk_create memory_backend ''test'' p memory_start) f"
  using memory_create [of p] assms by (auto simp: unwrap_def)

lemma memory_suite:
  "test_create_store memory_backend memory_start" "test_put_get_store memory_backend memory_start"
  "test_del_store memory_backend memory_start" "test_iter_range memory_backend memory_start"
  "test_purge memory_backend memory_start" "test_flush memory_backend memory_start"
  unfolding test_create_store_def test_put_get_store_def test_del_store_def test_iter_range_def
      test_purge_def test_flush_def
  by (rule memory_one_store;
      simp add: unwrap_def is_ok_def mem_three_puts mem_put_def mem_del_def mem_get_def mem_purge_def mem_scan Let_def bt_remove_def;
      simp add: three_def)+

lemma memory_two_storesI:
  assumes "\<And>m h. mem_data h (memory_store_at ''test1'' 1) = three ''test1'' \<Longrightarrow> \<not> mem_poisoned h (memory_store_at ''test1'' 1)
    \<Longrightarrow> mem_data h (memory_store_at ''test2'' 2) = next_three ''test2'' \<Longrightarrow> \<not> mem_poisoned h (memory_store_at ''test2'' 2)
    \<Longrightarrow> f (memory_store_at ''test1'' 1) (memory_store_at ''test2'' 2) (m, h)"
  shows "two_stores memory_backend memory_start f"
  using memory_two_stores [of f] assms by blast

lemma memory_suite_two:
  "test_iter_reverse memory_backend memory_start" "test_iter_forward memory_backend memory_start"
  unfolding test_iter_reverse_def test_iter_forward_def
  by (rule memory_two_storesI; simp add: mem_scan)+

lemma memory_suite_last: "test_last memory_backend memory_start"
  unfolding test_last_def
proof (rule memory_one_store)
  fix m h
  let ?st1 = "memory_store_at ''test1'' 1" and ?st2 = "memory_store_at ''test2'' 2"
  assume h: "mem_data h ?st1 = []" "\<not> mem_poisoned h ?st1" "mh_next h = 2"
    "m = \<lparr>mdb_data = [((''test'', ''test1''), 1)], mdb_poisoned = False\<rparr>"
  have "mh_next (mem_write h ?st1 (three ''test1'')) = 2" using h by simp
  from memory_create_second [OF this h(4)] obtain m' h' where
    c: "bk_create memory_backend ''test'' ''test2'' (m, mem_write h ?st1 (three ''test1'')) = (Inr ?st2, m', h')"
    "mem_data h' ?st2 = []" "\<not> mem_poisoned h' ?st2" "mem_data h' ?st1 = three ''test1''" "\<not> mem_poisoned h' ?st1"
    using h by auto
  then show "put3 memory_backend (?st1, m, h) (1, ''value1'') (2, ''value2'') (3, ''value3'') (\<lambda>(st, w).
     unwrap (bk_create memory_backend ''test'' ''test2'' w) (\<lambda>st2 w.
     unwrap (so_put (bk_ops memory_backend) (st2, w) 4 (lit ''value4'')) (\<lambda>_ (st2, w).
       so_last (bk_ops memory_backend) (st, w) = Some (3, lit ''value3'') \<and> ends_well memory_backend w)))"
    using h by (simp add: mem_three_puts unwrap_def mem_put_def Let_def mem_last_def mem_write_other find_map_rev_decode last_entry_def)
qed

text \<open>The model passes the tests of paths and of the retry strategies, and both
  backends pass the store suite from their empty states.\<close>

lemma unit_tests_pass:
  "parse_tests \<and> relation_tests \<and> level_tests \<and> strategy_tests from_secs
   \<and> store_tests memory_backend (\<lparr>mdb_data = [], mdb_poisoned = False\<rparr>, empty_heap) \<and> store_tests fjall_backend []"
proof -
  have "parse_tests \<and> relation_tests \<and> level_tests" by code_simp
  moreover have "strategy_tests from_secs"
    by (simp add: strategy_tests_def Let_def no_interval_new_def fixed_interval_new_def custom_interval_new_def
        strategy_default_def no_interval_backoff_def fixed_interval_backoff_def custom_interval_backoff_def)
  ultimately show ?thesis
    using memory_suite memory_suite_two memory_suite_last fjall_suite by (simp add: store_tests_def)
qed

end
