(* ===== verification/StorageTests.thy ===== *)
theory StorageTests
  imports Children Conformance
begin

text \<open>
  The asynchronous tests of the store crate (\<open>journal.rs\<close>, \<open>snapshotter.rs\<close>,
  \<open>snapshot.rs\<close>, \<open>persist.rs\<close>), run on the model: the actor under test stands behind
  its mailbox, over the store that the manager opened. They are shown to pass over
  every backend, archive and codec that keep their contracts, not only over the ones
  that the tests use.
\<close>

section \<open>What a test awaits\<close>

text \<open>\<open>tell(..).await.unwrap()\<close> and \<open>ask(..).await.unwrap()\<close>.\<close>

definition told :: "(actor_error + unit) \<times> 'c \<Rightarrow> ('c \<Rightarrow> bool) \<Rightarrow> bool" where
  "told x f = (case x of (Inl _, _) \<Rightarrow> False | (Inr _, c) \<Rightarrow> f c)"

definition asked :: "(actor_error + 'r) \<times> 'c \<Rightarrow> ('r \<Rightarrow> 'c \<Rightarrow> bool) \<Rightarrow> bool" where
  "asked x f = (case x of (Inl _, _) \<Rightarrow> False | (Inr r, c) \<Rightarrow> f r c)"

lemma told_cell:
  assumes "ce_open x" and "snd (h (cell_settled h x) p m) = s"
    and "\<And>y. ce_open y \<Longrightarrow> cell_settled h y = s \<Longrightarrow> f y"
  shows "told (ref_tell (cell_ref p h) m x) f"
  using cell_tell [OF assms(1), of p h m] assms(2,3) by (auto simp: told_def)

lemma asked_cell:
  assumes "ce_open x" and "h (cell_settled h x) p m = (Inr r, s)"
    and "\<And>y. ce_open y \<Longrightarrow> cell_settled h y = s \<Longrightarrow> f r y"
  shows "asked (ref_ask (cell_ref p h) m x) f"
  using cell_ask [OF assms(1), of p h m] assms(2,3) by (auto simp: asked_def)

lemma settled_open [simp]: "ce_open (open_cell s)" "cell_settled h (open_cell s) = s"
  by (simp_all add: open_cell_def cell_settled_def)

section \<open>The snapshotter\<close>

definition test_snapshotter :: "'s store_ops \<Rightarrow> 's \<Rightarrow> bool" where
  "test_snapshotter S store \<longleftrightarrow>
     (let a = cell_ref (path_from ''/user/snapshotter'') (snapshotter_actor S)
      in told (ref_tell a (SaveSnapshot 1 (lit ''snapshot data'')) (open_cell (snapshotter_new store))) (\<lambda>x.
         asked (ref_ask a (LoadSnapshot 1) x) (\<lambda>r x. r = LoadResult (Some (lit ''snapshot data'')) \<and>
         told (ref_tell a (SaveSnapshot 2 (lit ''last snapshot data'')) x) (\<lambda>x.
         asked (ref_ask a LastSnapshot x) (\<lambda>r x. r = LastResult (Some (2, lit ''last snapshot data'')) \<and>
         told (ref_tell a FlushSnapshots x) (\<lambda>x. True))))))"

definition snap_holds :: "'s store_ops \<Rightarrow> ('s \<Rightarrow> bool) \<Rightarrow> ('s \<Rightarrow> u64 \<rightharpoonup> bytes) \<Rightarrow>
    ('s snapshotter, snapshot_message, snapshot_response) cell \<Rightarrow> (u64 \<rightharpoonup> bytes) \<Rightarrow> bool" where
  "snap_holds S I V x m \<longleftrightarrow> ce_open x \<and> I (sn_store (cell_settled (snapshotter_actor S) x))
     \<and> V (sn_store (cell_settled (snapshotter_actor S) x)) = m"

context reliable_store begin

lemma snap_handled:
  assumes "snap_holds S inv view x m" and "snap_accepts msg"
  obtains s where "snapshotter_actor S (cell_settled (snapshotter_actor S) x) q msg = (Inr (fst (snap_step m msg)), s)"
    "inv (sn_store s)" "view (sn_store s) = snd (snap_step m msg)"
  using snapshotter_step [of "cell_settled (snapshotter_actor S) x" msg "fst (snap_step m msg)" "snd (snap_step m msg)"]
    assms by (auto simp: snap_holds_def snapshotter_actor_def)

lemma told_snap:
  assumes "snap_holds S inv view x m" and "snap_accepts msg"
    and "\<And>y. snap_holds S inv view y (snd (snap_step m msg)) \<Longrightarrow> f y"
  shows "told (ref_tell (cell_ref q (snapshotter_actor S)) msg x) f"
proof -
  obtain s where "snapshotter_actor S (cell_settled (snapshotter_actor S) x) q msg = (Inr (fst (snap_step m msg)), s)"
    "inv (sn_store s)" "view (sn_store s) = snd (snap_step m msg)"
    using snap_handled [OF assms(1,2)] .
  then show ?thesis
    using assms(1,3) by (intro told_cell [where s = s]) (auto simp: snap_holds_def)
qed

lemma asked_snap:
  assumes "snap_holds S inv view x m" and "snap_accepts msg"
    and "\<And>y. snap_holds S inv view y (snd (snap_step m msg)) \<Longrightarrow> f (fst (snap_step m msg)) y"
  shows "asked (ref_ask (cell_ref q (snapshotter_actor S)) msg x) f"
proof -
  obtain s where "snapshotter_actor S (cell_settled (snapshotter_actor S) x) q msg = (Inr (fst (snap_step m msg)), s)"
    "inv (sn_store s)" "view (sn_store s) = snd (snap_step m msg)"
    using snap_handled [OF assms(1,2)] .
  then show ?thesis
    using assms(1,3) by (intro asked_cell [where s = s]) (auto simp: snap_holds_def)
qed

lemma snapshotter_test_passes:
  assumes "inv s0" and "view s0 = Map.empty"
  shows "test_snapshotter S s0"
proof -
  have "snap_holds S inv view (open_cell (snapshotter_new s0)) Map.empty"
    using assms by (simp add: snap_holds_def snapshotter_new_def)
  moreover have "Max {2, 1 :: u64} = 2" "unat (1 :: u64) < key_limit" "unat (2 :: u64) < key_limit"
    by (simp_all add: key_limit_def max_def word_le_nat_alt)
  ultimately show ?thesis
    unfolding test_snapshotter_def Let_def
    by (auto intro!: told_snap asked_snap)
qed

end

section \<open>The journal\<close>

text \<open>A journal with the files that it exports to.\<close>

definition filed_journal ::
  "'s store_ops \<Rightarrow> 'w archive_ops \<Rightarrow> 's journal \<times> 'w \<Rightarrow> actor_path \<Rightarrow> journal_message
    \<Rightarrow> (actor_error + journal_response) \<times> 's journal \<times> 'w" where
  "filed_journal S A jw sender m = (case jw of (j, w) \<Rightarrow> journal_handle S A j m w)"

definition test_event :: "nat \<Rightarrow> bytes" where
  "test_event i = lit (''test event '' @ dec_digits i)"

fun put_events ::
  "(journal_message, journal_response, 'c) actor_ref \<Rightarrow> nat list \<Rightarrow> 'c \<Rightarrow> ('c \<Rightarrow> bool) \<Rightarrow> bool" where
  "put_events a [] x f = f x"
| "put_events a (i # is) x f =
     asked (ref_ask a (JPut (test_event i)) x) (\<lambda>r x. r = JRLastSequence (of_nat i) \<and> put_events a is x f)"

definition after_puts :: "(journal_message, journal_response, 'c) actor_ref \<Rightarrow> string \<Rightarrow> 'c \<Rightarrow> bool" where
  "after_puts a path x \<longleftrightarrow>
     asked (ref_ask a (JGet 3) x) (\<lambda>r x. r = JREvent (test_event 3) \<and>
     asked (ref_ask a JLast x) (\<lambda>r x. r = JRLast 5 (test_event 5) \<and>
     asked (ref_ask a (JRange 2 (Some 4)) x) (\<lambda>r x.
       r = JREvents [(2, test_event 2), (3, test_event 3), (4, test_event 4)] \<and>
     asked (ref_ask a (JInsert 3 (lit ''new test event 3'')) x) (\<lambda>r x. r = JRNone \<and>
     asked (ref_ask a (JGet 3) x) (\<lambda>r x. r = JREvent (lit ''new test event 3'') \<and>
     asked (ref_ask a (JExport path) x) (\<lambda>r x. r = JRNone \<and>
     asked (ref_ask a (JImport path) x) (\<lambda>r x. r = JRNone \<and>
     told (ref_tell a JFlush x) (\<lambda>x. True))))))))"

definition test_journal :: "'s store_ops \<Rightarrow> 'w archive_ops \<Rightarrow> 's \<Rightarrow> string \<Rightarrow> 'w \<Rightarrow> bool" where
  "test_journal S A store path w \<longleftrightarrow>
     (let a = cell_ref (path_from ''/user/journal'') (filed_journal S A)
      in put_events a [0..<6] (open_cell (journal_new S store, w)) (after_puts a path))"

definition journal_holds :: "'s store_ops \<Rightarrow> 'w archive_ops \<Rightarrow> ('s \<Rightarrow> bool) \<Rightarrow> ('s \<Rightarrow> u64 \<rightharpoonup> bytes) \<Rightarrow>
    ('s journal \<times> 'w, journal_message, journal_response) cell \<Rightarrow> bytes list \<Rightarrow> bool" where
  "journal_holds S A I V x es \<longleftrightarrow>
     ce_open x \<and> journals I V (fst (cell_settled (filed_journal S A) x)) es"

context reliable_store begin

lemma asked_journal:
  assumes "journal_holds S A inv view x es" and "log_accepts es m"
    and "\<And>y. journal_holds S A inv view y (snd (log_step es m)) \<Longrightarrow> f (fst (log_step es m)) y"
  shows "asked (ref_ask (cell_ref q (filed_journal S A)) m x) f"
proof -
  obtain j w where x: "cell_settled (filed_journal S A) x = (j, w)" by fastforce
  have "journals inv view j es" using assms(1) x by (simp add: journal_holds_def)
  from journal_step [OF this assms(2) surjective_pairing, of A w]
  obtain j' where "journal_handle S A j m w = (Inr (fst (log_step es m)), j', w)" "journals inv view j' (snd (log_step es m))"
    by blast
  then show ?thesis
    using assms(1,3) x by (intro asked_cell [where s = "(j', w)"]) (auto simp: journal_holds_def filed_journal_def)
qed

lemma asked_journal_answer:
  assumes "journal_holds S A inv view x es" and "log_accepts es m" and "log_step es m = (r, es')"
    and "\<And>y. journal_holds S A inv view y es' \<Longrightarrow> f y"
  shows "asked (ref_ask (cell_ref q (filed_journal S A)) m x) (\<lambda>r' x. r' = r \<and> f x)"
  by (rule asked_journal [OF assms(1,2)]) (use assms(3,4) in simp)

text \<open>The test does not look at what an import has put into the journal, only at its answer:
  it passes whatever bytes the reader of the exported file delivers.\<close>

lemma asked_export_import:
  assumes "writable_archive A pending stored" and "journal_holds S A inv view x es"
    and "2 * length (concat (map record_bytes es)) + 1000 \<le> key_limit"
    and "\<And>y es'. journal_holds S A inv view y es' \<Longrightarrow> f y"
  shows "asked (ref_ask (cell_ref q (filed_journal S A)) (JExport path) x) (\<lambda>r x. r = JRNone \<and>
    asked (ref_ask (cell_ref q (filed_journal S A)) (JImport path) x) (\<lambda>r x. r = JRNone \<and> f x))"
proof -
  obtain j w where x: "cell_settled (filed_journal S A) x = (j, w)" by fastforce
  have j: "journals inv view j es" "ce_open x" using assms(2) x by (auto simp: journal_holds_def)
  obtain w' where w': "journal_export S A j path w = (Inr (), w')"
    using writable_archive.export_succeeds [OF assms(1) store_contract_axioms j(1)] by blast
  obtain r where r: "ar_open A w' (export_path S j path) = Inr r"
    "length (fst r) \<le> 2 * length (concat (map record_bytes es)) + 1000"
    using writable_archive.open_ok [OF assms(1) export_stored [OF store_contract_axioms
        writable_archive.axioms(1) [OF assms(1)] j(1) w']] by blast
  have "inv (j_store j)" using j(1) by (simp add: journals_def)
  from journal_import_any [OF this r(1) order_trans [OF r(2) assms(3)]]
  obtain j' es' where j': "journal_import S A j path w' = (Inr (), j')" "journals inv view j' es'" by blast
  show ?thesis
  proof (rule asked_cell [where s = "(j, w')"])
    show "filed_journal S A (cell_settled (filed_journal S A) x) q (JExport path) = (Inr JRNone, j, w')"
      by (simp add: x filed_journal_def w')
    fix y assume y: "ce_open y" "cell_settled (filed_journal S A) y = (j, w')"
    have "asked (ref_ask (cell_ref q (filed_journal S A)) (JImport path) y) (\<lambda>r x. r = JRNone \<and> f x)"
    proof (rule asked_cell [where s = "(j', w')"])
      show "filed_journal S A (cell_settled (filed_journal S A) y) q (JImport path) = (Inr JRNone, j', w')"
        by (simp add: y(2) filed_journal_def j'(1))
    qed (use y j'(2) assms(4) in \<open>auto simp: journal_holds_def\<close>)
    then show "JRNone = JRNone \<and> asked (ref_ask (cell_ref q (filed_journal S A)) (JImport path) y) (\<lambda>r x. r = JRNone \<and> f x)"
      by simp
  qed (rule j(2))
qed

lemma put_events_pass:
  assumes "journal_holds S A inv view x (map test_event [0..<m])" and "m + n \<le> key_limit"
    and "\<And>y. journal_holds S A inv view y (map test_event [0..<m + n]) \<Longrightarrow> f y"
  shows "put_events (cell_ref q (filed_journal S A)) [m..<m + n] x f"
  using assms
proof (induction n arbitrary: m x)
  case (Suc n)
  have "asked (ref_ask (cell_ref q (filed_journal S A)) (JPut (test_event m)) x)
    (\<lambda>r x. r = JRLastSequence (of_nat m) \<and> put_events (cell_ref q (filed_journal S A)) [Suc m..<Suc m + n] x f)"
  proof (rule asked_journal [OF Suc.prems(1)])
    fix y assume "journal_holds S A inv view y (snd (log_step (map test_event [0..<m]) (JPut (test_event m))))"
    then have "journal_holds S A inv view y (map test_event [0..<Suc m])" by simp
    from Suc.IH [OF this] Suc.prems(2,3)
    show "fst (log_step (map test_event [0..<m]) (JPut (test_event m))) = JRLastSequence (of_nat m)
        \<and> put_events (cell_ref q (filed_journal S A)) [Suc m..<Suc m + n] y f"
      by (simp del: upt_Suc)
  qed (use Suc.prems(2) in simp)
  moreover have "[m..<m + Suc n] = m # [Suc m..<Suc m + n]" by (simp add: upt_conv_Cons del: upt_Suc)
  ultimately show ?case by (simp only: put_events.simps)
qed simp

lemma test_event_length:
  assumes "i < 6"
  shows "length (test_event i) = 12"
proof -
  have "dec_digits i = [digit_char i]" using assms by (simp add: dec_digits.simps)
  then show ?thesis by (simp add: test_event_def lit_def)
qed

lemma after_puts_pass:
  assumes "writable_archive A pending stored" and start: "journal_holds S A inv view x (map test_event [0..<6])"
  shows "after_puts (cell_ref q (filed_journal S A)) path x"
proof -
  let ?es = "map test_event [0..<6]"
  let ?es' = "?es[3 := lit ''new test event 3'']"
  have ev: "?es = [test_event 0, test_event 1, test_event 2, test_event 3, test_event 4, test_event 5]"
    by (simp add: eval_nat_numeral)
  have n: "numbered ?es = [(0, test_event 0), (1, test_event 1), (2, test_event 2), (3, test_event 3),
      (4, test_event 4), (5, test_event 5)]"
    unfolding ev by (simp add: numbered_def eval_nat_numeral)
  have range: "log_step ?es (JRange 2 (Some 4)) = (JREvents [(2, test_event 2), (3, test_event 3), (4, test_event 4)], ?es)"
    by (simp add: n word_le_nat_alt)
  have ins: "log_step ?es (JInsert 3 (lit ''new test event 3'')) = (JRNone, ?es')"
    by simp
  have short: "2 * length (concat (map record_bytes ?es')) + 1000 \<le> key_limit"
    unfolding ev by (simp add: test_event_length record_bytes_def lit_def key_limit_def)
  have flush: "told (ref_tell (cell_ref q (filed_journal S A)) JFlush y) (\<lambda>x. True)"
    if "journal_holds S A inv view y es'" for y es'
    by (rule told_cell [OF _ refl]) (use that in \<open>simp_all add: journal_holds_def\<close>)
  have last: "log_step ?es JLast = (JRLast 5 (test_event 5), ?es)"
    unfolding ev by simp
  have get: "log_step ?es (JGet 3) = (JREvent (test_event 3), ?es)"
    "log_step ?es' (JGet 3) = (JREvent (lit ''new test event 3''), ?es')"
    unfolding ev by simp_all
  show ?thesis
    unfolding after_puts_def
    by (rule asked_journal_answer [OF start _ get(1)], simp, rule asked_journal_answer [OF _ _ last], assumption, simp,
      rule asked_journal_answer [OF _ _ range], assumption, simp, rule asked_journal_answer [OF _ _ ins], assumption, simp,
      rule asked_journal_answer [OF _ _ get(2)], assumption, simp,
      rule asked_export_import [OF assms(1) _ short], assumption, rule flush)
qed

lemma journal_test_passes:
  assumes "writable_archive A pending stored" and "inv s0" and "view s0 = Map.empty"
  shows "test_journal S A s0 path w"
proof -
  have "journals inv view (journal_new S s0) []"
    by (rule journal_new_journals) (use assms(2,3) in simp_all)
  then have start: "journal_holds S A inv view (open_cell (journal_new S s0, w)) (map test_event [0..<0])"
    by (simp add: journal_holds_def)
  show ?thesis
    unfolding test_journal_def Let_def
    by (rule put_events_pass [OF start, of 6, simplified add_0])
      (simp_all add: key_limit_def after_puts_pass [OF assms(1)])
qed

end

section \<open>The persistent actor of the tests\<close>

datatype test_message =
    TAdd string
  | TInsert u64 string
  | TGet u64
  | TLastSnapshot
  | TSnapshot
  | TGetAll
  | TRange u64 "u64 option"
  | TLastEvent

datatype test_response =
    TRAll "string list"
  | TRSnapshot "(u64 \<times> string list) option"
  | TRNone
  | TRLastEvent "(u64 \<times> string) option"
  | TREvents "string list"
  | TREvent string

text \<open>The codecs of state and event are derived by serde.\<close>

definition test_actor_type ::
  "(string list \<Rightarrow> string + bytes) \<Rightarrow> (bytes \<Rightarrow> string + string list) \<Rightarrow> (string \<Rightarrow> string + bytes)
    \<Rightarrow> (bytes \<Rightarrow> string + string) \<Rightarrow> (string list, string) persistent_type" where
  "test_actor_type to_vec from_slice event_to_vec event_from_slice =
     \<lparr>ty_name = ''store::persist::tests::TestActor'', ty_id = (\<lambda>a. ''test_actor''), ty_to_vec = to_vec,
      ty_from_slice = from_slice, pt_event_to_vec = event_to_vec, pt_event_from_slice = event_from_slice,
      pt_apply_event = (\<lambda>state value. (Inr (), state @ [value]))\<rparr>"

text \<open>The handler; \<open>None\<close> is the failed assertion, which ends the task.\<close>

fun test_handle ::
  "('mgr, 's, 'c) child_ops \<Rightarrow> (string list, string) persistent_type \<Rightarrow> string list \<Rightarrow> 'c \<Rightarrow> test_message
    \<Rightarrow> ((actor_error + test_response) \<times> string list \<times> 'c) option" where
  "test_handle C T self c (TAdd value) =
     (case persist C T self value c of
       (Inl e, self, c) \<Rightarrow> Some (Inl e, self, c)
     | (Inr sn, self, c) \<Rightarrow> if sn + 1 = of_nat (length self) then Some (Inr TRNone, self, c) else None)"
| "test_handle C T self c TGetAll = Some (Inr (TRAll self), self, c)"
| "test_handle C T self c TLastSnapshot =
     (case persistent_last_snapshot C T c of (r, c) \<Rightarrow> Some (Inr (TRSnapshot r), self, c))"
| "test_handle C T self c TSnapshot =
     (case snapshot C T self c of
       (Inl e, c) \<Rightarrow> Some (Inl e, self, c)
     | (Inr _, c) \<Rightarrow> Some (Inr TRNone, self, c))"
| "test_handle C T self c TLastEvent =
     (case last_event C T c of (r, c) \<Rightarrow> Some (Inr (TRLastEvent r), self, c))"
| "test_handle C T self c (TRange from to) =
     (case get_events C T from to c of
       (Inl e, c) \<Rightarrow> Some (Inl e, self, c)
     | (Inr es, c) \<Rightarrow> Some (Inr (TREvents es), self, c))"
| "test_handle C T self c (TInsert sequence new_event) =
     (case insert_event C T sequence new_event c of
       (Inl e, c) \<Rightarrow> Some (Inl e, self, c)
     | (Inr _, c) \<Rightarrow> Some (Inr TRNone, self, c))"
| "test_handle C T self c (TGet sequence) =
     (case get_event C T sequence c of
       (Inl e, c) \<Rightarrow> Some (Inl e, self, c)
     | (Inr event, c) \<Rightarrow> Some (Inr (TREvent event), self, c))"

text \<open>The actor behind its mailbox, with its context; a task that has ended answers nothing.\<close>

definition test_actor ::
  "('mgr, 's, 'c) child_ops \<Rightarrow> (string list, string) persistent_type \<Rightarrow> (string list \<times> 'c) option
    \<Rightarrow> actor_path \<Rightarrow> test_message \<Rightarrow> (actor_error + test_response) \<times> (string list \<times> 'c) option" where
  "test_actor C T s sender m =
     (case Option.bind s (\<lambda>(self, c). test_handle C T self c m) of
       None \<Rightarrow> (Inl (Message ''channel closed''), None)
     | Some (r, self, c) \<Rightarrow> (r, Some (self, c)))"

text \<open>\<open>pre_start\<close> and \<open>pre_stop\<close>.\<close>

definition start_test_actor ::
  "'s store_ops \<Rightarrow> ('mgr, 's, 'c) child_ops \<Rightarrow> (string list, string) persistent_type \<Rightarrow> 'c
    \<Rightarrow> (((string list \<times> 'c) option, test_message, test_response) cell \<Rightarrow> bool) \<Rightarrow> bool" where
  "start_test_actor S C T c f =
     (case init_state S C T [] c of
       (Inl _, _) \<Rightarrow> False
     | (Inr _, self, c) \<Rightarrow> f (open_cell (Some (self, c))))"

definition stop_test_actor ::
  "('mgr, 's, 'c) child_ops \<Rightarrow> (string list, string) persistent_type
    \<Rightarrow> ((string list \<times> 'c) option, test_message, test_response) cell \<Rightarrow> ('c \<Rightarrow> bool) \<Rightarrow> bool" where
  "stop_test_actor C T x f =
     (case cell_settled (test_actor C T) x of
       None \<Rightarrow> False
     | Some (self, c) \<Rightarrow> told (flush C T self c) f)"

definition empty_household :: "'s \<Rightarrow> 's household" where
  "empty_household store = \<lparr>hh_journal = None, hh_snap = None, hh_disk = (\<lambda>_. store)\<rparr>"

text \<open>\<open>test_persistent_actor\<close>: the actor before and after its restart.\<close>

definition restarted_actor_test ::
  "('mgr, 's, 'c) child_ops \<Rightarrow> (string list, string) persistent_type
    \<Rightarrow> (test_message, test_response, ((string list \<times> 'c) option, test_message, test_response) cell) actor_ref
    \<Rightarrow> ((string list \<times> 'c) option, test_message, test_response) cell \<Rightarrow> bool" where
  "restarted_actor_test C T a x \<longleftrightarrow>
     asked (ref_ask a TGetAll x) (\<lambda>r x. r = TRAll [''event1'', ''event2''] \<and>
     told (ref_tell a (TAdd ''event3'') x) (\<lambda>x.
     asked (ref_ask a TGetAll x) (\<lambda>r x. r = TRAll [''event1'', ''event2'', ''event3''] \<and>
     asked (ref_ask a TLastEvent x) (\<lambda>r x. r = TRLastEvent (Some (2, ''event3'')) \<and>
     asked (ref_ask a (TRange 0 None) x) (\<lambda>r x. r = TREvents [''event1'', ''event2'', ''event3''] \<and>
     asked (ref_ask a (TInsert 2 ''event1.5'') x) (\<lambda>r x. r = TRNone \<and>
     asked (ref_ask a (TGet 2) x) (\<lambda>r x. r = TREvent ''event1.5'' \<and>
     stop_test_actor C T x (\<lambda>c. True))))))))"

definition test_persistent_actor ::
  "'s store_ops \<Rightarrow> 'w archive_ops \<Rightarrow> 'w \<Rightarrow> (string list, string) persistent_type \<Rightarrow> 's \<Rightarrow> bool" where
  "test_persistent_actor S A w T store \<longleftrightarrow>
     (let p = path_from ''/user/test_actor''; C = household_ops S A w p; a = cell_ref p (test_actor C T)
      in start_test_actor S C T (empty_household store) (\<lambda>x.
         told (ref_tell a (TAdd ''event1'') x) (\<lambda>x.
         told (ref_tell a (TAdd ''event2'') x) (\<lambda>x.
         asked (ref_ask a TGetAll x) (\<lambda>r x. r = TRAll [''event1'', ''event2''] \<and>
         asked (ref_ask a TSnapshot x) (\<lambda>r x. r = TRNone \<and>
         asked (ref_ask a TLastSnapshot x) (\<lambda>r x. r = TRSnapshot (Some (1, [''event1'', ''event2''])) \<and>
         stop_test_actor C T x (\<lambda>c.
         start_test_actor S C T (restart_household S A w (type_name T) (ty_id T []) c) (restarted_actor_test C T a)))))))))"

definition test_persist_error_1 ::
  "'s store_ops \<Rightarrow> 'w archive_ops \<Rightarrow> 'w \<Rightarrow> (string list, string) persistent_type \<Rightarrow> 's \<Rightarrow> bool" where
  "test_persist_error_1 S A w T store \<longleftrightarrow>
     (let p = path_from ''/user/test_actor''; C = household_ops S A w p; a = cell_ref p (test_actor C T)
      in start_test_actor S C T (empty_household store) (\<lambda>x.
         asked (ref_ask a (TRange 0 None) x) (\<lambda>r x. r = TREvents [] \<and>
         told (ref_tell a (TAdd ''event1'') x) (\<lambda>x.
         asked (ref_ask a (TRange 0 None) x) (\<lambda>r x. r = TREvents [''event1''])))))"

text \<open>The actor \<open>x\<close> is running with this state, these events and these snapshots.\<close>

definition only_snapshot :: "('a, 'e) persistent_type \<Rightarrow> (u64 \<rightharpoonup> bytes) \<Rightarrow> (u64 \<times> 'a) option \<Rightarrow> bool" where
  "only_snapshot T m sn \<longleftrightarrow>
     (case sn of None \<Rightarrow> m = Map.empty | Some (k, s) \<Rightarrow> \<exists>d. m = [k \<mapsto> d] \<and> ty_from_slice T d = Inr s)"

lemma only_snapshot_simps [simp]:
  "only_snapshot T m None \<longleftrightarrow> m = Map.empty"
  "only_snapshot T m (Some (k, s)) \<longleftrightarrow> (\<exists>d. m = [k \<mapsto> d] \<and> ty_from_slice T d = Inr s)"
  by (simp_all add: only_snapshot_def)

definition running ::
  "('mgr, 's, 'c) child_ops \<Rightarrow> (string list, string) persistent_type \<Rightarrow> ('c \<Rightarrow> bool) \<Rightarrow> ('c \<Rightarrow> u64 \<rightharpoonup> bytes)
    \<Rightarrow> ('c \<Rightarrow> bytes list) \<Rightarrow> ((string list \<times> 'c) option, test_message, test_response) cell
    \<Rightarrow> string list \<Rightarrow> string list \<Rightarrow> (u64 \<times> string list) option \<Rightarrow> bool" where
  "running C T up snaps events x self es sn \<longleftrightarrow> ce_open x
     \<and> (\<exists>c. cell_settled (test_actor C T) x = Some (self, c) \<and> up c \<and> events c = map (event_bytes T) es
         \<and> only_snapshot T (snaps c) sn)"

text \<open>A persistent actor that pushes its events.\<close>

locale pushing_actor = persistent_actor C up snapshotter snaps journal events T
  for C :: "('mgr, 's, 'c) child_ops" and up :: "'c \<Rightarrow> bool"
    and snapshotter :: "(snapshot_message, snapshot_response, 'c) actor_ref" and snaps :: "'c \<Rightarrow> u64 \<rightharpoonup> bytes"
    and journal :: "(journal_message, journal_response, 'c) actor_ref" and events :: "'c \<Rightarrow> bytes list"
    and T :: "(string list, string) persistent_type" +
  assumes push: "pt_apply_event T = (\<lambda>state value. (Inr (), state @ [value]))"
begin

abbreviation run where "run \<equiv> running C T up snaps events"
abbreviation test_ref where "test_ref q \<equiv> cell_ref q (test_actor C T)"

lemma run_cases:
  assumes "run x self es sn"
  obtains c where "ce_open x" "cell_settled (test_actor C T) x = Some (self, c)" "up c"
    "events c = map (event_bytes T) es"
    "only_snapshot T (snaps c) sn"
  using assms unfolding running_def by blast

lemma runI:
  assumes "ce_open y" "cell_settled (test_actor C T) y = Some (self, c)" "up c" "events c = map (event_bytes T) es"
    and "only_snapshot T (snaps c) sn"
  shows "run y self es sn"
  unfolding running_def using assms by blast

text \<open>A message that is answered.\<close>

lemma ask_handled:
  assumes "run x self es sn"
    and "\<And>c. up c \<Longrightarrow> events c = map (event_bytes T) es
      \<Longrightarrow> only_snapshot T (snaps c) sn
      \<Longrightarrow> \<exists>c'. test_handle C T self c m = Some (Inr r, self', c') \<and> up c' \<and> events c' = map (event_bytes T) es'
        \<and> only_snapshot T (snaps c') sn'"
    and "\<And>y. run y self' es' sn' \<Longrightarrow> f y"
  shows "asked (ref_ask (test_ref q) m x) (\<lambda>r' y. r' = r \<and> f y)" and "told (ref_tell (test_ref q) m x) f"
proof -
  obtain c where c: "ce_open x" "cell_settled (test_actor C T) x = Some (self, c)" "up c"
    "events c = map (event_bytes T) es"
    "only_snapshot T (snaps c) sn"
    using run_cases [OF assms(1)] .
  from assms(2) [OF c(3-5)] obtain c' where c': "test_handle C T self c m = Some (Inr r, self', c')" "up c'"
    "events c' = map (event_bytes T) es'"
    "only_snapshot T (snaps c') sn'"
    by blast
  have h: "test_actor C T (cell_settled (test_actor C T) x) q m = (Inr r, Some (self', c'))"
    by (simp add: test_actor_def c(2) c'(1))
  show "asked (ref_ask (test_ref q) m x) (\<lambda>r' y. r' = r \<and> f y)"
    by (rule asked_cell [where h = "test_actor C T" and x = x and p = q and m = m, OF c(1) h])
      (simp add: assms(3) runI [OF _ _ c'(2-4)])
  show "told (ref_tell (test_ref q) m x) f"
    by (rule told_cell [OF c(1), where s = "Some (self', c')"]) (simp_all add: h assms(3) runI [OF _ _ c'(2-4)])
qed

lemma tell_add:
  assumes "run x self es sn" and "length self = length es" and "length es < key_limit"
    and "\<And>y. run y (self @ [v]) (es @ [v]) sn \<Longrightarrow> f y"
  shows "told (ref_tell (test_ref q) (TAdd v) x) f"
proof (rule ask_handled(2) [OF assms(1) _ assms(4)])
  fix c assume c: "up c" "events c = map (event_bytes T) es"
    "only_snapshot T (snaps c) sn"
  show "\<exists>c'. test_handle C T self c (TAdd v) = Some (Inr TRNone, self @ [v], c') \<and> up c'
    \<and> events c' = map (event_bytes T) (es @ [v])
    \<and> only_snapshot T (snaps c') sn"
    using persist_appends [OF c(1), of self v] c(2,3) assms(2,3) by (auto simp: push)
qed

lemma ask_state:
  assumes "run x self es sn" and "\<And>y. run y self es sn \<Longrightarrow> f y"
  shows "asked (ref_ask (test_ref q) TGetAll x) (\<lambda>r y. r = TRAll self \<and> f y)"
  by (rule ask_handled(1) [OF assms(1) _ assms(2)]) auto

lemma ask_snapshot:
  assumes "run x self es None" and "\<And>y. run y self es (Some (of_nat (length es - 1), self)) \<Longrightarrow> f y"
  shows "asked (ref_ask (test_ref q) TSnapshot x) (\<lambda>r y. r = TRNone \<and> f y)"
proof (rule ask_handled(1) [OF assms(1) _ assms(2)])
  fix c assume c: "up c" "events c = map (event_bytes T) es"
    "only_snapshot T (snaps c) None"
  show "\<exists>c'. test_handle C T self c TSnapshot = Some (Inr TRNone, self, c') \<and> up c' \<and> events c' = map (event_bytes T) es
    \<and> only_snapshot T (snaps c') (Some (of_nat (length es - 1), self))"
    using snapshot_saves [OF c(1), of self] c(2,3) by auto
qed

lemma ask_last_snapshot:
  assumes "run x self es (Some (k, s))" and "\<And>y. run y self es (Some (k, s)) \<Longrightarrow> f y"
  shows "asked (ref_ask (test_ref q) TLastSnapshot x) (\<lambda>r y. r = TRSnapshot (Some (k, s)) \<and> f y)"
proof (rule ask_handled(1) [OF assms(1) _ assms(2)])
  fix c assume c: "up c" "events c = map (event_bytes T) es" "only_snapshot T (snaps c) (Some (k, s))"
  then obtain d where d: "snaps c = [k \<mapsto> d]" "ty_from_slice T d = Inr s" by auto
  then have "snaps c \<noteq> Map.empty" "k = Max (dom (snaps c))" "snaps c k = Some d" by simp_all
  from last_snapshot_answer [OF c(1) this d(2)] obtain c' where
    c': "persistent_last_snapshot C T c = (Some (k, s), c')" "up c'" "events c' = events c" "snaps c' = snaps c" by blast
  then show "\<exists>c'. test_handle C T self c TLastSnapshot = Some (Inr (TRSnapshot (Some (k, s))), self, c') \<and> up c'
    \<and> events c' = map (event_bytes T) es \<and> only_snapshot T (snaps c') (Some (k, s))"
    using c(2,3) by (intro exI [of _ c']) (simp only: test_handle.simps prod.case c' simp_thms)
qed

lemma ask_last_event:
  assumes "run x self es sn" and "es \<noteq> []" and "\<And>y. run y self es sn \<Longrightarrow> f y"
  shows "asked (ref_ask (test_ref q) TLastEvent x) (\<lambda>r y. r = TRLastEvent (Some (of_nat (length es - 1), last es)) \<and> f y)"
proof (rule ask_handled(1) [OF assms(1) _ assms(3)])
  fix c assume c: "up c" "events c = map (event_bytes T) es"
    "only_snapshot T (snaps c) sn"
  show "\<exists>c'. test_handle C T self c TLastEvent = Some (Inr (TRLastEvent (Some (of_nat (length es - 1), last es))), self, c')
    \<and> up c' \<and> events c' = map (event_bytes T) es
    \<and> only_snapshot T (snaps c') sn"
    using last_event_answer [OF c(1,2) assms(2)] c(2,3) by auto
qed

lemma ask_events:
  assumes "run x self es sn" and "\<And>y. run y self es sn \<Longrightarrow> f y"
  shows "asked (ref_ask (test_ref q) (TRange 0 None) x) (\<lambda>r y. r = TREvents es \<and> f y)"
proof (rule ask_handled(1) [OF assms(1) _ assms(2)])
  fix c assume c: "up c" "events c = map (event_bytes T) es"
    "only_snapshot T (snaps c) sn"
  show "\<exists>c'. test_handle C T self c (TRange 0 None) = Some (Inr (TREvents es), self, c')
    \<and> up c' \<and> events c' = map (event_bytes T) es
    \<and> only_snapshot T (snaps c') sn"
    using get_events_answer [OF c(1,2)] c(2,3) by auto
qed

lemma ask_insert:
  assumes "run x self es sn" and "unat k < length es" and "\<And>y. run y self (es[unat k := v]) sn \<Longrightarrow> f y"
  shows "asked (ref_ask (test_ref q) (TInsert k v) x) (\<lambda>r y. r = TRNone \<and> f y)"
proof (rule ask_handled(1) [OF assms(1) _ assms(3)])
  fix c assume c: "up c" "events c = map (event_bytes T) es"
    "only_snapshot T (snaps c) sn"
  show "\<exists>c'. test_handle C T self c (TInsert k v) = Some (Inr TRNone, self, c')
    \<and> up c' \<and> events c' = map (event_bytes T) (es[unat k := v])
    \<and> only_snapshot T (snaps c') sn"
    using insert_event_answer [OF c(1,2) assms(2), of v] c(3) by auto
qed

lemma ask_event:
  assumes "run x self es sn" and "unat k < length es" and "\<And>y. run y self es sn \<Longrightarrow> f y"
  shows "asked (ref_ask (test_ref q) (TGet k) x) (\<lambda>r y. r = TREvent (es ! unat k) \<and> f y)"
proof (rule ask_handled(1) [OF assms(1) _ assms(3)])
  fix c assume c: "up c" "events c = map (event_bytes T) es"
    "only_snapshot T (snaps c) sn"
  show "\<exists>c'. test_handle C T self c (TGet k) = Some (Inr (TREvent (es ! unat k)), self, c')
    \<and> up c' \<and> events c' = map (event_bytes T) es
    \<and> only_snapshot T (snaps c') sn"
    using get_event_answer [OF c(1,2) assms(2)] c(2,3) by auto
qed

lemma start_fresh:
  assumes "create_stores S C T [] c0 = (Inr (), c1)" and "up c1" and "events c1 = []" and "snaps c1 = Map.empty"
    and "\<And>x. run x [] [] None \<Longrightarrow> f x"
  shows "start_test_actor S C T c0 f"
proof -
  obtain c2 where c2: "init_state S C T [] c0 = (Inr (), [], c2)" "up c2" "events c2 = []" "snaps c2 = Map.empty"
    using init_state_no_snapshot [OF assms(1,2), of "[]"] assms(3,4) by auto
  have "run (open_cell (Some ([], c2))) [] [] None"
    by (rule runI [of _ _ c2]) (simp_all add: c2)
  then show ?thesis using assms(5) by (simp add: start_test_actor_def c2(1))
qed

text \<open>The snapshot has the key of the last event.\<close>

lemma start_again:
  assumes "create_stores S C T [] c0 = (Inr (), c1)" and "up c1" and "events c1 = map (event_bytes T) es"
    and "only_snapshot T (snaps c1) (Some (of_nat (length es - 1), s))" and "es \<noteq> []"
    and "\<And>x. run x s es (Some (of_nat (length es - 1), s)) \<Longrightarrow> f x"
  shows "start_test_actor S C T c0 f"
proof -
  let ?k = "of_nat (length es - 1) :: u64"
  obtain d where d: "snaps c1 = [?k \<mapsto> d]" "ty_from_slice T d = Inr s" using assms(4) by auto
  have k: "unat ?k = length es - 1" using events_limit [OF assms(2)] assms(3) by (intro unat_of_nat_u64) simp
  have k': "unat ?k < length es \<or> ?k = 0 \<and> es = []" using assms(5) by (simp only: k) (cases es, simp_all)
  have "snaps c1 \<noteq> Map.empty" "?k = Max (dom (snaps c1))" "snaps c1 ?k = Some d" by (simp_all add: d(1))
  from init_state_snapshot [OF assms(1-3) this d(2) k'] k assms(5)
  obtain c2 where c2: "init_state S C T [] c0 = (Inr (), s, c2)" "up c2" "events c2 = events c1" "snaps c2 = snaps c1"
    by auto
  have "run (open_cell (Some (s, c2))) s es (Some (?k, s))"
    by (rule runI [of _ _ c2]) (use assms(3,4) in \<open>simp_all add: c2\<close>)
  then show ?thesis using assms(6) by (simp add: start_test_actor_def c2(1))
qed

lemma stop_after_snapshot:
  assumes "run x self es (Some (of_nat (length es - 1), self))"
    and "\<And>c. up c \<Longrightarrow> events c = map (event_bytes T) es
      \<Longrightarrow> only_snapshot T (snaps c) (Some (of_nat (length es - 1), self)) \<Longrightarrow> f c"
  shows "stop_test_actor C T x f"
proof -
  obtain c where c: "cell_settled (test_actor C T) x = Some (self, c)" "up c" "events c = map (event_bytes T) es"
    "only_snapshot T (snaps c) (Some (of_nat (length es - 1), self))"
    using run_cases [OF assms(1)] .
  obtain c' d where c': "flush C T self c = (Inr (), c')" "up c'" "events c' = events c"
    "ty_from_slice T d = Inr self" "snaps c' = (snaps c)(of_nat (length (events c) - 1) \<mapsto> d)"
    using flush_saves [OF c(2), of self] by blast
  then have "only_snapshot T (snaps c') (Some (of_nat (length es - 1), self))" using c(3,4) by auto
  with assms(2) [OF c'(2)] c' c(3) show ?thesis by (simp add: stop_test_actor_def c(1) told_def)
qed

lemma stop_last:
  assumes "run x self es sn"
  shows "stop_test_actor C T x (\<lambda>c. True)"
proof -
  obtain c where c: "cell_settled (test_actor C T) x = Some (self, c)" "up c" using run_cases [OF assms] .
  then show ?thesis using flush_saves [OF c(2), of self] by (auto simp: stop_test_actor_def told_def)
qed

lemma restarted_actor_passes:
  assumes "run x [''event1'', ''event2''] [''event1'', ''event2''] sn"
  shows "restarted_actor_test C T (test_ref q) x"
proof -
  let ?es = "[''event1'', ''event2'', ''event3'']"
  have last: "asked (ref_ask (test_ref q) TLastEvent y) (\<lambda>r y. r = TRLastEvent (Some (2, ''event3'')) \<and> f y)"
    if "run y ?es ?es sn" "\<And>y. run y ?es ?es sn \<Longrightarrow> f y" for y f
    using ask_last_event [where q = q and f = f, OF that(1) _ that(2)] by simp
  have event: "asked (ref_ask (test_ref q) (TGet 2) y) (\<lambda>r y. r = TREvent ''event1.5'' \<and> f y)"
    if "run y ?es (?es[unat (2 :: u64) := ''event1.5'']) sn"
      "\<And>y. run y ?es (?es[unat (2 :: u64) := ''event1.5'']) sn \<Longrightarrow> f y" for y f
    using ask_event [where q = q and k = 2 and f = f, OF that(1) _ that(2)] by simp
  have short: "length [''event1'', ''event2''] < key_limit" by (simp add: key_limit_def)
  show ?thesis
    unfolding restarted_actor_test_def
    by (rule ask_state [OF assms], rule tell_add, assumption, simp, rule short, simp only: append.simps,
      rule ask_state, assumption, rule last, assumption, rule ask_events, assumption,
      rule ask_insert, assumption, simp, rule event, assumption, rule stop_last)
qed

end

text \<open>The test type over the children put together.\<close>

lemma household_pushing:
  assumes "reliable_store S I V" and "persistent_codec (test_actor_type a b c d)"
  shows "pushing_actor (household_ops S A w p) (household_up S I V A w) (snapshotter_ref S p)
    (household_snaps S V) (journal_ref S A w p) (household_events S V A w) (test_actor_type a b c d)"
  by (intro pushing_actor.intro pushing_actor_axioms.intro household_actor [OF assms]) (simp add: test_actor_type_def)

lemma persistent_actor_test_passes:
  assumes "reliable_store S I V" and "I s0" and "V s0 = Map.empty" and T: "T = test_actor_type a b c d"
    and "persistent_codec T"
  shows "test_persistent_actor S A w T s0"
proof -
  let ?p = "path_from ''/user/test_actor''"
  let ?C = "household_ops S A w ?p" and ?up = "household_up S I V A w"
  note act = household_pushing [OF assms(1) assms(5) [unfolded T], of A w ?p, folded T]
  have disk: "hh_disk (empty_household s0) = (\<lambda>_. s0)" by (simp add: empty_household_def)
  obtain c1 where c1: "create_stores S ?C T [] (empty_household s0) = (Inr (), c1)" "?up c1"
    "household_events S V A w c1 = []" "household_snaps S V c1 = Map.empty"
    using reliable_store.fresh_stores [OF assms(1-3) disk, where A = A and w = w and p = ?p and T = T and fresh = "[]"] by blast
  have again: "start_test_actor S ?C T (restart_household S A w (type_name T) (ty_id T []) c) (restarted_actor_test ?C T (cell_ref q (test_actor ?C T)))"
    if c: "?up c" "household_events S V A w c = map (event_bytes T) [''event1'', ''event2'']"
      "only_snapshot T (household_snaps S V c) (Some (of_nat (length [''event1'', ''event2''] - 1), [''event1'', ''event2'']))" for c q
  proof -
    obtain c2 where c2: "create_stores S ?C T [] (restart_household S A w (type_name T) (ty_id T []) c) = (Inr (), c2)"
      "?up c2" "household_events S V A w c2 = household_events S V A w c" "household_snaps S V c2 = household_snaps S V c"
      using reliable_store.restart_stores [OF assms(1) c(1) refl, where T = T and fresh = "[]" and p = ?p] by blast
    show ?thesis
    proof (rule pushing_actor.start_again [OF act c2(1,2), where es = "[''event1'', ''event2'']" and s = "[''event1'', ''event2'']"])
      fix x assume "running ?C T ?up (household_snaps S V) (household_events S V A w) x [''event1'', ''event2'']
        [''event1'', ''event2''] (Some (of_nat (length [''event1'', ''event2''] - 1), [''event1'', ''event2'']))"
      then show "restarted_actor_test ?C T (cell_ref q (test_actor ?C T)) x"
        by (rule pushing_actor.restarted_actor_passes [OF act])
    qed (use c c2 in \<open>simp_all only: list.distinct not_False_eq_True\<close>)
  qed
  have short: "length ([] :: string list) < key_limit" "length [''event1''] < key_limit" by (simp_all add: key_limit_def)
  have last: "asked (ref_ask (cell_ref q (test_actor ?C T)) TLastSnapshot x)
      (\<lambda>r y. r = TRSnapshot (Some (1, [''event1'', ''event2''])) \<and> f y)"
    if "running ?C T ?up (household_snaps S V) (household_events S V A w) x self es
        (Some (of_nat (length [''event1'', ''event2''] - 1), [''event1'', ''event2'']))"
      "\<And>y. running ?C T ?up (household_snaps S V) (household_events S V A w) y self es
        (Some (of_nat (length [''event1'', ''event2''] - 1), [''event1'', ''event2''])) \<Longrightarrow> f y" for x q self es f
    using pushing_actor.ask_last_snapshot [OF act that] by simp
  show ?thesis
    unfolding test_persistent_actor_def Let_def
    by (rule pushing_actor.start_fresh [OF act c1], rule pushing_actor.tell_add [OF act], assumption, simp, rule short(1),
      simp only: append.simps, rule pushing_actor.tell_add [OF act], assumption, simp, rule short(2), simp only: append.simps,
      rule pushing_actor.ask_state [OF act], assumption, rule pushing_actor.ask_snapshot [OF act], assumption,
      rule last, assumption, rule pushing_actor.stop_after_snapshot [OF act], assumption, rule again)
qed

lemma persist_error_test_passes:
  assumes "reliable_store S I V" and "I s0" and "V s0 = Map.empty" and T: "T = test_actor_type a b c d"
    and "persistent_codec T"
  shows "test_persist_error_1 S A w T s0"
proof -
  let ?p = "path_from ''/user/test_actor''"
  let ?C = "household_ops S A w ?p" and ?up = "household_up S I V A w"
  note act = household_pushing [OF assms(1) assms(5) [unfolded T], of A w ?p, folded T]
  have disk: "hh_disk (empty_household s0) = (\<lambda>_. s0)" by (simp add: empty_household_def)
  obtain c1 where c1: "create_stores S ?C T [] (empty_household s0) = (Inr (), c1)" "?up c1"
    "household_events S V A w c1 = []" "household_snaps S V c1 = Map.empty"
    using reliable_store.fresh_stores [OF assms(1-3) disk, where A = A and w = w and p = ?p and T = T and fresh = "[]"] by blast
  have last: "asked (ref_ask (cell_ref q (test_actor ?C T)) (TRange 0 None) x) (\<lambda>r y. r = TREvents [''event1''])"
    if "running ?C T ?up (household_snaps S V) (household_events S V A w) x self [''event1''] sn" for x q self sn
    using pushing_actor.ask_events [OF act that, of "\<lambda>y. True"] by simp
  have short: "length ([] :: string list) < key_limit" by (simp add: key_limit_def)
  show ?thesis
    unfolding test_persist_error_1_def Let_def
    by (rule pushing_actor.start_fresh [OF act c1], rule pushing_actor.ask_events [OF act], assumption,
      rule pushing_actor.tell_add [OF act], assumption, simp, rule short, simp only: append.simps, rule last)
qed

section \<open>The snapshot actor of the tests\<close>

datatype saver_message = Increment | GetValue

text \<open>The actor is its \<open>id\<close> and its \<open>value\<close>; a response is a value.\<close>

definition saver_type :: "(string \<times> u64 \<Rightarrow> string + bytes) \<Rightarrow> (bytes \<Rightarrow> string + string \<times> u64) \<Rightarrow> (string \<times> u64) state_type" where
  "saver_type to_vec from_slice =
     \<lparr>ty_name = ''store::snapshot::tests::TestActor'', ty_id = fst, ty_to_vec = to_vec, ty_from_slice = from_slice\<rparr>"

fun saver_actor ::
  "('mgr, 's, 'c) child_ops \<Rightarrow> (string \<times> u64) state_type \<Rightarrow> (string \<times> u64) \<times> 'c \<Rightarrow> actor_path \<Rightarrow> saver_message
    \<Rightarrow> (actor_error + u64) \<times> (string \<times> u64) \<times> 'c" where
  "saver_actor C T ((ident, value), c) sender Increment =
     (case snap_save C T (ident, value + 1) c of
       (Inl e, c) \<Rightarrow> (Inl e, (ident, value + 1), c)
     | (Inr _, c) \<Rightarrow> (Inr (value + 1), (ident, value + 1), c))"
| "saver_actor C T ((ident, value), c) sender GetValue = (Inr value, (ident, value), c)"

definition start_saver ::
  "('mgr, 's, 'c) child_ops \<Rightarrow> (string \<times> u64) state_type \<Rightarrow> string \<times> u64 \<Rightarrow> 'c
    \<Rightarrow> (((string \<times> u64) \<times> 'c, saver_message, u64) cell \<Rightarrow> bool) \<Rightarrow> bool" where
  "start_saver C T self c f =
     (case snap_init_state C T self c of
       (Inl _, _) \<Rightarrow> False
     | (Inr _, self, c) \<Rightarrow> f (open_cell (self, c)))"

text \<open>The half second that the test waits lets the snapshotter finish its mailbox.\<close>

definition test_snapshot_actor ::
  "'s store_ops \<Rightarrow> 'w archive_ops \<Rightarrow> 'w \<Rightarrow> (string \<times> u64) state_type \<Rightarrow> 's \<Rightarrow> bool" where
  "test_snapshot_actor S A w T store \<longleftrightarrow>
     (let p = path_from ''/user/test_actor''; C = household_ops S A w p; a = cell_ref p (saver_actor C T);
          fresh = (''test_actor'', 0)
      in start_saver C T fresh (empty_household store) (\<lambda>x.
         asked (ref_ask a Increment x) (\<lambda>r x. r = 1 \<and>
         start_saver C T fresh
           (let c = snd (cell_settled (saver_actor C T) x)
            in close_snapshotter (type_name T) (ty_id T fresh) (settled_snapshotter S c) c) (\<lambda>x.
         asked (ref_ask a GetValue x) (\<lambda>r x. r = 1)))))"

context reliable_store begin

lemma snapshot_actor_test_passes:
  assumes "inv s0" and "view s0 = Map.empty" and T: "T = saver_type to_vec from_slice"
    and codec: "\<And>s. \<exists>d. to_vec s = Inr d \<and> from_slice d = Inr s"
  shows "test_snapshot_actor S A w T s0"
proof -
  let ?C = "household_ops S A w (path_from ''/user/test_actor'')" and ?fresh = "(''test_actor'', 0 :: u64)"
  note child = snap_household [of A w "path_from ''/user/test_actor''"]
  obtain d where d: "ty_to_vec T (''test_actor'', 1) = Inr d" "ty_from_slice T d = Inr (''test_actor'', 1)"
    using codec [of "(''test_actor'', 1)"] by (auto simp: T saver_type_def)
  have "hh_disk (empty_household s0) (type_name T @ ''-Snapshotter'', ty_id T ?fresh) = s0"
    by (simp add: empty_household_def)
  then obtain c1 where c1: "snap_create_store ?C T ?fresh (empty_household s0) = (Inr (), c1)" "snap_up S inv c1"
    "household_snaps S view c1 = Map.empty"
    using snap_opened [OF _ assms(1)] assms(2) by metis
  obtain c2 where c2: "snap_load ?C T ?fresh c1 = (Inl (actor_error.Store ''Snapshot not found''), ?fresh, c2)" "snap_up S inv c2"
    using snapshot_child.snap_load_missing [OF child c1(2), of T ?fresh] c1(3) by auto
  have start: "snap_init_state ?C T ?fresh (empty_household s0) = (Inr (), ?fresh, c2)"
    by (simp add: snap_init_state_def c1(1) c2(1))
  obtain c3 where c3: "snap_save ?C T (''test_actor'', 1) c2 = (Inr (), c3)" "snap_up S inv c3" "household_snaps S view c3 0 = Some d"
    using snapshot_child.snap_save_saves [OF child c2(2) d(1)] by auto
  let ?old = "close_snapshotter (type_name T) (ty_id T ?fresh) (settled_snapshotter S c3) c3"
  have "hh_disk ?old (type_name T @ ''-Snapshotter'', ty_id T ?fresh) = sn_store (settled_snapshotter S c3)"
    by (simp add: close_snapshotter_def)
  moreover have "inv (sn_store (settled_snapshotter S c3))" using c3(2) by (simp add: snap_up_def)
  ultimately obtain c4 where c4: "snap_create_store ?C T ?fresh ?old = (Inr (), c4)" "snap_up S inv c4"
    "household_snaps S view c4 = household_snaps S view c3"
    using snap_opened by (metis household_snaps_def)
  obtain c5 where c5: "snap_load ?C T ?fresh c4 = (Inr (), (''test_actor'', 1), c5)"
    using snapshot_child.snap_load_loads [OF child c4(2) _ d(2), of ?fresh] c3(3) c4(3) by auto
  have again: "snap_init_state ?C T ?fresh ?old = (Inr (), (''test_actor'', 1), c5)"
    by (simp add: snap_init_state_def c4(1) c5)
  have last: "asked (ref_ask (cell_ref q (saver_actor ?C T)) GetValue (open_cell ((''test_actor'', 1), c5))) (\<lambda>r x. r = 1)" for q
    by (rule asked_cell [where r = 1 and s = "((''test_actor'', 1), c5)"]) simp_all
  show ?thesis
    unfolding test_snapshot_actor_def Let_def start_saver_def [of _ _ _ "empty_household s0"] start
    unfolding prod.case sum.case
    by (rule asked_cell [where r = 1 and s = "((''test_actor'', 1), c3)"])
      (simp_all add: c3(1) start_saver_def again last)
qed

end

section \<open>A codec\<close>

text \<open>Every character after a one, a zero at the end of each string.\<close>

definition frames :: "string list \<Rightarrow> bytes" where
  "frames ss = concat (map (\<lambda>s. concat (map (\<lambda>c. [1, of_nat (of_char c)]) s) @ [0]) ss)"

fun unframe :: "string \<Rightarrow> bytes \<Rightarrow> string list" where
  "unframe acc [] = []"
| "unframe acc [b] = [rev acc]"
| "unframe acc (b # c # bs) =
     (if b = 0 then rev acc # unframe [] (c # bs) else unframe (char_of (unat c) # acc) bs)"

lemma char_of_byte [simp]: "char_of (unat (of_nat (of_char c) :: u8)) = c"
proof -
  have "of_char c < (256 :: nat)" using of_char_mod_256 [of c, where 'a = nat] by (metis mod_less_divisor zero_less_numeral)
  then have "unat (of_nat (of_char c) :: u8) = of_char c" by (simp add: unsigned_of_nat take_bit_nat_eq_self)
  then show ?thesis by simp
qed

lemma unframe_string: "unframe acc (concat (map (\<lambda>c. [1, of_nat (of_char c)]) s) @ 0 # bs) = (rev acc @ s) # unframe [] bs"
proof (induction s arbitrary: acc)
  case Nil
  show ?case by (cases bs) simp_all
qed simp

lemma unframe_frames: "unframe [] (frames ss) = ss"
  by (induction ss) (simp_all add: frames_def unframe_string)

definition framed_type :: "(string list, string) persistent_type" where
  "framed_type = test_actor_type (\<lambda>ss. Inr (frames ss)) (\<lambda>bs. Inr (unframe [] bs)) (\<lambda>s. Inr (frames [s]))
     (\<lambda>bs. case unframe [] bs of [s] \<Rightarrow> Inr s | _ \<Rightarrow> Inl ''invalid data'')"

interpretation framed: persistent_codec framed_type
  by unfold_locales (simp_all add: framed_type_def test_actor_type_def unframe_frames)

interpretation framed_actor: pushing_actor "household_ops memory_ops mem_archive no_files p"
  "household_up memory_ops mem_inv mem_view mem_archive no_files" "snapshotter_ref memory_ops p"
  "household_snaps memory_ops mem_view" "journal_ref memory_ops mem_archive no_files p"
  "household_events memory_ops mem_view mem_archive no_files" framed_type
  unfolding framed_type_def
  by (rule household_pushing [OF mem.reliable_store_axioms framed.persistent_codec_axioms [unfolded framed_type_def]])

definition saver_vec :: "string \<times> u64 \<Rightarrow> string + bytes" where
  "saver_vec s = Inr (frames [fst s, dec_digits (unat (snd s))])"

definition saver_slice :: "bytes \<Rightarrow> string + string \<times> u64" where
  "saver_slice bs = (case unframe [] bs of [s, n] \<Rightarrow> Inr (s, of_nat (dec_val n)) | _ \<Rightarrow> Inl ''invalid data'')"

lemma saver_codec: "\<exists>d. saver_vec s = Inr d \<and> saver_slice d = Inr s"
  by (cases s) (simp add: saver_vec_def saver_slice_def unframe_frames)

section \<open>Properties\<close>

text \<open>\<open>test_create_fjall_db_manager\<close>, in the directory \<open>temp_dir\<close>.\<close>

definition test_create_fjall_db_manager ::
  "(string \<Rightarrow> string + 'db) \<Rightarrow> ('db \<Rightarrow> string \<Rightarrow> string + 'ks) \<Rightarrow> string \<Rightarrow> bool" where
  "test_create_fjall_db_manager open_db keyspace temp_dir \<longleftrightarrow>
     (case fjall_db_new open_db (path_join temp_dir ''fjall_db'') of
       Inl _ \<Rightarrow> False
     | Inr manager \<Rightarrow> is_ok (fjall_create_store keyspace manager ''test'' ''test''))"



end
