(* ===== verification/Supervisor.thy ===== *)
theory Supervisor
  imports Path Errors
begin

text \<open>
  \<open>SupervicionHandler\<close> and \<open>Config\<close> of \<open>actor/src/system.rs\<close>: the
  bookkeeping of a supervisor. The registry of actors and the helpers are shared
  by every supervisor of a system, the action senders are the supervisor's own;
  locks are held for one access at a time, so an operation is a function on the
  record of all of them. A channel end is an abstract value, sending on it
  a function over the world \<open>'w\<close> that fails when the receiver is gone.
  Registered references and helpers are \<open>dyn Any\<close>: a downcast is a partial
  function. Spawning a runner and awaiting its first answer is the argument
  \<open>start\<close>, which may change the whole record: while the new actor starts,
  other tasks run.
\<close>

section \<open>Types\<close>

datatype child_action = CStop | CRestart

datatype actor_signal =
    SError actor_path actor_error
  | SFault actor_path actor_error
  | SStopped actor_path

record config =
  cf_mailbox_size :: nat
  cf_event_buffer_size :: nat
  cf_signal_buffer_size :: nat
  cf_action_buffer_size :: nat

definition config_default :: config where
  "config_default = \<lparr>cf_mailbox_size = 10000, cf_event_buffer_size = 10000,
     cf_signal_buffer_size = 10000, cf_action_buffer_size = 10000\<rparr>"

record ('ref, 'h, 'snd, 'sig, 'w) sup =
  su_registry :: "(actor_path \<times> 'ref) list"
  su_helpers :: "(string \<times> 'h) list"
  su_senders :: "(actor_path \<times> 'snd) list"
  su_signal :: 'sig
  su_world :: 'w

type_synonym ('snd, 'w) action_send = "'snd \<Rightarrow> child_action \<Rightarrow> 'w \<Rightarrow> (string + unit) \<times> 'w"

text \<open>What spawning gives: the runner's answer on the init channel (\<open>None\<close> when
  it was dropped unanswered), the actor's reference and its action sender.\<close>

record ('ref, 'snd) started =
  st_init :: "(actor_error + unit) option"
  st_ref :: 'ref
  st_sender :: 'snd

type_synonym ('ref, 'h, 'snd, 'sig, 'w) starter =
  "'sig \<Rightarrow> config \<Rightarrow> actor_path \<Rightarrow> ('ref, 'h, 'snd, 'sig, 'w) sup
    \<Rightarrow> ('ref, 'snd) started \<times> ('ref, 'h, 'snd, 'sig, 'w) sup"

definition quoted :: "string \<Rightarrow> string" where
  "quoted s = CHR 0x27 # s @ [CHR 0x27]"

section \<open>Operations\<close>

text \<open>\<open>new\<close>: \<open>registry\<close> and \<open>helpers\<close> are the shared maps as they are.\<close>

definition sup_new ::
  "(actor_path \<times> 'ref) list \<Rightarrow> (string \<times> 'h) list \<Rightarrow> 'sig \<Rightarrow> 'w \<Rightarrow> ('ref, 'h, 'snd, 'sig, 'w) sup" where
  "sup_new registry helpers signal w =
     \<lparr>su_registry = registry, su_helpers = helpers, su_senders = [], su_signal = signal, su_world = w\<rparr>"

text \<open>\<open>SupervicionHandler::default\<close>: empty maps and a signal channel \<open>unread\<close> whose receiver
  is dropped.\<close>

definition sup_default :: "'sig \<Rightarrow> 'w \<Rightarrow> ('ref, 'h, 'snd, 'sig, 'w) sup" where
  "sup_default unread w = sup_new [] [] unread w"

definition unregister :: "actor_path \<Rightarrow> ('ref, 'h, 'snd, 'sig, 'w) sup \<Rightarrow> ('ref, 'h, 'snd, 'sig, 'w) sup" where
  "unregister path s =
     s\<lparr>su_registry := hm_remove path (su_registry s), su_senders := hm_remove path (su_senders s)\<rparr>"

definition sup_create_actor ::
  "('ref, 'h, 'snd, 'sig, 'w) starter \<Rightarrow> config \<Rightarrow> actor_path \<Rightarrow> ('ref, 'h, 'snd, 'sig, 'w) sup
    \<Rightarrow> (actor_error + 'ref) \<times> ('ref, 'h, 'snd, 'sig, 'w) sup" where
  "sup_create_actor start conf path s =
     (if hm_contains path (su_registry s)
      then (Inl (Supervision (''Actor with path '' @ quoted (path_to_string path) @ '' already exists.'')), s)
      else
        (case start (su_signal s) conf path s of (st, s) \<Rightarrow>
          (case st_init st of
            None \<Rightarrow>
              (Inl (StartActor (''Actor '' @ quoted (path_to_string path)
                 @ '' initialization channel closed before completion.'')), unregister path s)
          | Some (Inl e) \<Rightarrow> (Inl e, unregister path s)
          | Some (Inr _) \<Rightarrow>
              (Inr (st_ref st),
               s\<lparr>su_registry := hm_insert path (st_ref st) (su_registry s),
                 su_senders := hm_insert path (st_sender st) (su_senders s)\<rparr>))))"

definition sup_get_actor ::
  "('ref \<Rightarrow> 'a option) \<Rightarrow> actor_path \<Rightarrow> ('ref, 'h, 'snd, 'sig, 'w) sup \<Rightarrow> actor_error + 'a option" where
  "sup_get_actor downcast path s =
     (case Option.bind (map_of (su_registry s) path) downcast of
       None \<Rightarrow> Inl (Supervision (''Actor '' @ quoted (path_to_string path) @ '' not found.''))
     | Some a \<Rightarrow> Inr (Some a))"

definition sup_child_exists :: "actor_path \<Rightarrow> ('ref, 'h, 'snd, 'sig, 'w) sup \<Rightarrow> actor_error + bool" where
  "sup_child_exists path s = Inr (hm_contains path (su_registry s))"

definition sup_get_childs :: "actor_path \<Rightarrow> ('ref, 'h, 'snd, 'sig, 'w) sup \<Rightarrow> actor_path list" where
  "sup_get_childs parent s = filter (\<lambda>p. path_parent p = parent) (hm_keys (su_registry s))"

definition sup_stop_child ::
  "('snd, 'w) action_send \<Rightarrow> actor_path \<Rightarrow> ('ref, 'h, 'snd, 'sig, 'w) sup
    \<Rightarrow> (actor_error + unit) \<times> ('ref, 'h, 'snd, 'sig, 'w) sup" where
  "sup_stop_child send path s =
     (let action_sender = map_of (su_senders s) path; s = unregister path s
      in (case action_sender of
           None \<Rightarrow>
             (Inl (Supervision (''Child '' @ quoted (path_to_string path) @ '' not found for stopping.'')), s)
         | Some sender \<Rightarrow>
             (case send sender CStop (su_world s) of (r, w) \<Rightarrow>
               (actor_supervision (\<lambda>e. e) ''Failed to send stop action to child'' r, s\<lparr>su_world := w\<rparr>))))"

text \<open>The loop of \<open>stop_children\<close>: the first error ends it.\<close>

fun stop_loop ::
  "('snd, 'w) action_send \<Rightarrow> actor_path list \<Rightarrow> ('ref, 'h, 'snd, 'sig, 'w) sup
    \<Rightarrow> (actor_error + unit) \<times> ('ref, 'h, 'snd, 'sig, 'w) sup" where
  "stop_loop send [] s = (Inr (), s)"
| "stop_loop send (path # paths) s =
     (case sup_stop_child send path s of
       (Inl e, s) \<Rightarrow> (Inl e, s)
     | (Inr _, s) \<Rightarrow> stop_loop send paths s)"

definition sup_stop_children ::
  "('snd, 'w) action_send \<Rightarrow> actor_path \<Rightarrow> ('ref, 'h, 'snd, 'sig, 'w) sup
    \<Rightarrow> (actor_error + bool) \<times> ('ref, 'h, 'snd, 'sig, 'w) sup" where
  "sup_stop_children send parent s =
     (if sup_get_childs parent s = [] then (Inr False, s)
      else (case stop_loop send (sup_get_childs parent s) s of
             (Inl e, s) \<Rightarrow> (Inl e, s)
           | (Inr _, s) \<Rightarrow> (Inr True, s)))"

fun restart_loop ::
  "('snd, 'w) action_send \<Rightarrow> 'snd list \<Rightarrow> ('ref, 'h, 'snd, 'sig, 'w) sup
    \<Rightarrow> (actor_error + unit) \<times> ('ref, 'h, 'snd, 'sig, 'w) sup" where
  "restart_loop send [] s = (Inr (), s)"
| "restart_loop send (sender # senders) s =
     (case send sender CRestart (su_world s) of (r, w) \<Rightarrow>
        (case actor_supervision (\<lambda>e. e) ''Failed to send restart action to child'' r of
          Inl e \<Rightarrow> (Inl e, s\<lparr>su_world := w\<rparr>)
        | Inr _ \<Rightarrow> restart_loop send senders (s\<lparr>su_world := w\<rparr>)))"

definition sup_restart_children ::
  "('snd, 'w) action_send \<Rightarrow> ('ref, 'h, 'snd, 'sig, 'w) sup
    \<Rightarrow> (actor_error + unit) \<times> ('ref, 'h, 'snd, 'sig, 'w) sup" where
  "sup_restart_children send s = restart_loop send (map snd (su_senders s)) s"

definition sup_remove_child ::
  "actor_path \<Rightarrow> ('ref, 'h, 'snd, 'sig, 'w) sup \<Rightarrow> ('ref, 'h, 'snd, 'sig, 'w) sup" where
  "sup_remove_child path s = unregister path s"

definition sup_has_childs :: "actor_path \<Rightarrow> ('ref, 'h, 'snd, 'sig, 'w) sup \<Rightarrow> bool" where
  "sup_has_childs parent s \<longleftrightarrow> sup_get_childs parent s \<noteq> []"

definition sup_add_helper ::
  "string \<Rightarrow> 'h \<Rightarrow> ('ref, 'h, 'snd, 'sig, 'w) sup \<Rightarrow> ('ref, 'h, 'snd, 'sig, 'w) sup" where
  "sup_add_helper name helper s = s\<lparr>su_helpers := hm_insert name helper (su_helpers s)\<rparr>"

definition sup_get_helper ::
  "('h \<Rightarrow> 'a option) \<Rightarrow> string \<Rightarrow> ('ref, 'h, 'snd, 'sig, 'w) sup \<Rightarrow> 'a option" where
  "sup_get_helper downcast name s = Option.bind (map_of (su_helpers s) name) downcast"

section \<open>The books of a supervisor\<close>

text \<open>
  A supervisor of \<open>parent\<close> has an action sender for exactly the registered
  actors whose path is a child of \<open>parent\<close>.
\<close>

definition sup_books :: "actor_path \<Rightarrow> ('ref, 'h, 'snd, 'sig, 'w) sup \<Rightarrow> bool" where
  "sup_books parent s \<longleftrightarrow>
     distinct (hm_keys (su_registry s))
   \<and> set (hm_keys (su_senders s)) = set (sup_get_childs parent s)"

lemma unregister_sel [simp]:
  "su_registry (unregister p s) = hm_remove p (su_registry s)"
  "su_senders (unregister p s) = hm_remove p (su_senders s)"
  "su_world (unregister p s) = su_world s"
  "su_helpers (unregister p s) = su_helpers s"
  "su_signal (unregister p s) = su_signal s"
  by (simp_all add: unregister_def)

lemma set_get_childs: "p \<in> set (sup_get_childs parent s) \<longleftrightarrow> path_parent p = parent \<and> hm_contains p (su_registry s)"
  by (auto simp: sup_get_childs_def hm_contains_keys)

lemma stop_child_registry:
  "su_registry (snd (sup_stop_child send p s)) = hm_remove p (su_registry s)"
  "su_senders (snd (sup_stop_child send p s)) = hm_remove p (su_senders s)"
  by (simp_all add: sup_stop_child_def Let_def split: option.split prod.split)

lemma stop_child_books: "sup_books parent s \<Longrightarrow> sup_books parent (snd (sup_stop_child send p s))"
  by (auto simp: sup_books_def distinct_hm_keys_remove sup_get_childs_def stop_child_registry)

lemma sup_books_sender:
  assumes "sup_books parent s" and "path_parent p = parent"
  shows "hm_contains p (su_senders s) \<longleftrightarrow> hm_contains p (su_registry s)"
  using assms set_get_childs [of p parent s] by (simp add: sup_books_def hm_contains_keys)

lemma hm_contains_map_of: "hm_contains k m \<longleftrightarrow> (\<exists>v. map_of m k = Some v)"
  using map_of_eq_None_hm [of m k] by (cases "map_of m k") auto

lemma stop_child_Ok:
  assumes "map_of (su_senders s) p = Some a" and "send a CStop (su_world s) = (Inr (), w)"
  shows "sup_stop_child send p s = (Inr (), (unregister p s)\<lparr>su_world := w\<rparr>)"
  using assms by (simp add: sup_stop_child_def Let_def)

lemma stop_child_unknown:
  "map_of (su_senders s) p = None \<Longrightarrow> \<exists>t. sup_stop_child send p s = (Inl (Supervision t), unregister p s)"
  by (simp add: sup_stop_child_def Let_def)

lemma stop_loop_books: "sup_books parent s \<Longrightarrow> sup_books parent (snd (stop_loop send ps s))"
proof (induction ps arbitrary: s)
  case (Cons p ps)
  then show ?case
    using stop_child_books [of parent s send p] by (auto split: prod.splits sum.splits)
qed simp

text \<open>Stopping a list of children whose channels accept the request.\<close>

lemma stop_loop_ready:
  assumes "\<And>a w. a \<in> A \<Longrightarrow> P w \<Longrightarrow> fst (send a CStop w) = Inr () \<and> P (snd (send a CStop w))"
    and "P (su_world s)" and "distinct ps" and "\<forall>p \<in> set ps. \<exists>a \<in> A. map_of (su_senders s) p = Some a"
  shows "\<exists>s'. stop_loop send ps s = (Inr (), s')
    \<and> su_world s' = foldl (\<lambda>w p. snd (send (the (map_of (su_senders s) p)) CStop w)) (su_world s) ps
    \<and> (\<forall>p. map_of (su_registry s') p = (if p \<in> set ps then None else map_of (su_registry s) p))
    \<and> su_helpers s' = su_helpers s"
  using assms(2-4)
proof (induction ps arbitrary: s)
  case (Cons p ps)
  then obtain a where a: "a \<in> A" "map_of (su_senders s) p = Some a" by auto
  obtain w where w: "send a CStop (su_world s) = (Inr (), w)" "P w"
    using assms(1) [OF a(1) Cons.prems(1)] by (cases "send a CStop (su_world s)") auto
  let ?s = "(unregister p s)\<lparr>su_world := w\<rparr>"
  have "P (su_world ?s)" "distinct ps" "\<forall>q \<in> set ps. \<exists>a \<in> A. map_of (su_senders ?s) q = Some a"
    using Cons.prems w by auto
  from Cons.IH [OF this] obtain s' where s': "stop_loop send ps ?s = (Inr (), s')"
    "su_world s' = foldl (\<lambda>w p. snd (send (the (map_of (su_senders ?s) p)) CStop w)) w ps"
    "\<forall>q. map_of (su_registry s') q = (if q \<in> set ps then None else map_of (su_registry ?s) q)"
    "su_helpers s' = su_helpers s"
    by auto
  have "foldl (\<lambda>w p. snd (send (the (map_of (su_senders ?s) p)) CStop w)) w ps
      = foldl (\<lambda>w p. snd (send (the (map_of (su_senders s) p)) CStop w)) w ps"
    using Cons.prems(2) by (intro foldl_cong) auto
  with s' a w show ?case by (auto simp: stop_child_Ok [where w = w])
qed simp

lemma stop_children_ready:
  assumes "sup_books parent s"
    and "\<And>a w. a \<in> A \<Longrightarrow> P w \<Longrightarrow> fst (send a CStop w) = Inr () \<and> P (snd (send a CStop w))"
    and "P (su_world s)" and "\<And>p a. map_of (su_senders s) p = Some a \<Longrightarrow> a \<in> A"
  shows "\<exists>s'. sup_stop_children send parent s = (Inr (sup_has_childs parent s), s')
    \<and> su_world s' = foldl (\<lambda>w p. snd (send (the (map_of (su_senders s) p)) CStop w))
        (su_world s) (sup_get_childs parent s)
    \<and> \<not> sup_has_childs parent s' \<and> sup_books parent s' \<and> su_helpers s' = su_helpers s
    \<and> (\<forall>p. map_of (su_registry s') p = (if path_parent p = parent then None else map_of (su_registry s) p))"
proof -
  let ?ps = "sup_get_childs parent s"
  have "distinct ?ps"
    using assms(1) by (simp add: sup_books_def sup_get_childs_def)
  moreover have "\<forall>p \<in> set ?ps. \<exists>a \<in> A. map_of (su_senders s) p = Some a"
    using assms(1,4) by (fastforce simp: sup_books_def hm_contains_keys [symmetric] hm_contains_map_of)
  ultimately obtain s' where s': "stop_loop send ?ps s = (Inr (), s')"
    "su_world s' = foldl (\<lambda>w p. snd (send (the (map_of (su_senders s) p)) CStop w)) (su_world s) ?ps"
    "\<forall>p. map_of (su_registry s') p = (if p \<in> set ?ps then None else map_of (su_registry s) p)"
    "su_helpers s' = su_helpers s"
    using stop_loop_ready [where send = send and A = A and P = P, OF assms(2,3)] by blast
  have reg: "map_of (su_registry s') p = (if path_parent p = parent then None else map_of (su_registry s) p)" for p
    using s'(3) by (auto simp: set_get_childs map_of_eq_None_hm)
  then have "\<not> hm_contains p (su_registry s')" if "path_parent p = parent" for p
    using that by (simp add: map_of_eq_None_hm [symmetric])
  then have none: "\<not> sup_has_childs parent s'"
    by (auto simp: sup_has_childs_def sup_get_childs_def hm_contains_keys filter_empty_conv)
  have books: "sup_books parent s'"
    using stop_loop_books [OF assms(1), of send ?ps] s'(1) by simp
  show ?thesis
  proof (cases "?ps = []")
    case True
    with s' have "s' = s" by simp
    with True s' reg none books show ?thesis by (auto simp: sup_stop_children_def sup_has_childs_def)
  next
    case False
    with s' reg none books show ?thesis by (auto simp: sup_stop_children_def sup_has_childs_def)
  qed
qed

lemma stop_children_all:
  assumes "sup_books parent s" and "\<And>a w. fst (send a CStop w) = Inr ()"
  shows "\<exists>s'. sup_stop_children send parent s = (Inr (sup_has_childs parent s), s')
    \<and> su_world s' = foldl (\<lambda>w p. snd (send (the (map_of (su_senders s) p)) CStop w))
        (su_world s) (sup_get_childs parent s)
    \<and> \<not> sup_has_childs parent s'
    \<and> (\<forall>p. hm_contains p (su_registry s') \<longleftrightarrow> hm_contains p (su_registry s) \<and> path_parent p \<noteq> parent)"
  using stop_children_ready [OF assms(1), of UNIV "\<lambda>_. True" send] assms(2)
  by (force simp: hm_contains_map_of)

section \<open>Histories\<close>

text \<open>
  What happens to the record of a supervisor of \<open>parent\<close>: its own operations
  (children are created, stopped and removed), and other tasks registering
  and unregistering actors in the shared registry. Other tasks register no child of
  \<open>parent\<close>; they may take one out, as \<open>System::on_child_error\<close> does with a grandchild,
  unless the supervisor is \<open>alone\<close> with its children.
\<close>

inductive sup_step ::
  "bool \<Rightarrow> ('snd, 'w) action_send \<Rightarrow> ('ref, 'h, 'snd, 'sig, 'w) starter \<Rightarrow> actor_path
    \<Rightarrow> ('ref, 'h, 'snd, 'sig, 'w) sup \<Rightarrow> ('ref, 'h, 'snd, 'sig, 'w) sup \<Rightarrow> bool"
  for alone send start parent where
  create: "path_parent p = parent \<Longrightarrow> sup_step alone send start parent s (snd (sup_create_actor start conf p s))"
| stop: "sup_step alone send start parent s (snd (sup_stop_child send p s))"
| stop_all: "sup_step alone send start parent s (snd (sup_stop_children send parent s))"
| remove: "sup_step alone send start parent s (sup_remove_child p s)"
| other: "\<lbrakk>distinct (hm_keys r);
      \<And>p. path_parent p = parent \<Longrightarrow> map_of r p = map_of (su_registry s) p \<or> \<not> alone \<and> map_of r p = None\<rbrakk>
    \<Longrightarrow> sup_step alone send start parent s (s\<lparr>su_registry := r, su_world := w\<rparr>)"

inductive sup_reachable ::
  "bool \<Rightarrow> ('snd, 'w) action_send \<Rightarrow> ('ref, 'h, 'snd, 'sig, 'w) starter \<Rightarrow> actor_path
    \<Rightarrow> ('ref, 'h, 'snd, 'sig, 'w) sup \<Rightarrow> ('ref, 'h, 'snd, 'sig, 'w) sup \<Rightarrow> bool"
  for alone send start parent s0 where
  init: "sup_reachable alone send start parent s0 s0"
| step: "\<lbrakk>sup_reachable alone send start parent s0 s; sup_step alone send start parent s s'\<rbrakk>
    \<Longrightarrow> sup_reachable alone send start parent s0 s'"

text \<open>What is kept: every registered child has a sender, and a supervisor that is alone has no others.\<close>

definition sup_covered :: "bool \<Rightarrow> actor_path \<Rightarrow> ('ref, 'h, 'snd, 'sig, 'w) sup \<Rightarrow> bool" where
  "sup_covered alone parent s \<longleftrightarrow>
     distinct (hm_keys (su_registry s))
   \<and> set (sup_get_childs parent s) \<subseteq> set (hm_keys (su_senders s))
   \<and> (alone \<longrightarrow> set (hm_keys (su_senders s)) \<subseteq> set (sup_get_childs parent s))"

lemma unregister_covered: "sup_covered alone parent s \<Longrightarrow> sup_covered alone parent (unregister p s)"
  by (auto simp: sup_covered_def distinct_hm_keys_remove sup_get_childs_def)

lemma stop_child_covered: "sup_covered alone parent s \<Longrightarrow> sup_covered alone parent (snd (sup_stop_child send p s))"
  by (auto simp: sup_covered_def distinct_hm_keys_remove sup_get_childs_def stop_child_registry)

lemma stop_loop_covered: "sup_covered alone parent s \<Longrightarrow> sup_covered alone parent (snd (stop_loop send ps s))"
proof (induction ps arbitrary: s)
  case (Cons p ps)
  then show ?case
    using stop_child_covered [of alone parent s send p] by (auto split: prod.splits sum.splits)
qed simp

lemma stop_children_covered:
  "sup_covered alone parent s \<Longrightarrow> sup_covered alone parent (snd (sup_stop_children send parent s))"
  using stop_loop_covered [of alone parent s send "sup_get_childs parent s"]
  by (auto simp: sup_stop_children_def split: prod.splits sum.splits)

lemma insert_covered:
  assumes "sup_covered alone parent s" and "path_parent p = parent"
  shows "sup_covered alone parent
    (s\<lparr>su_registry := hm_insert p r (su_registry s), su_senders := hm_insert p a (su_senders s)\<rparr>)"
  using assms by (auto simp: sup_covered_def distinct_hm_keys_insert sup_get_childs_def)

lemma sup_step_covered:
  assumes "\<And>sig conf p s. sup_covered alone parent s \<Longrightarrow> sup_covered alone parent (snd (start sig conf p s))"
    and "sup_step alone send start parent s s'" and "sup_covered alone parent s"
  shows "sup_covered alone parent s'"
  using assms(2,3)
proof (cases rule: sup_step.cases)
  case (create p conf)
  obtain st s1 where st: "start (su_signal s) conf p s = (st, s1)"
    by (cases "start (su_signal s) conf p s")
  with assms(1) [OF assms(3), of "su_signal s" conf p] have "sup_covered alone parent s1" by simp
  then show ?thesis
    using create st assms(3) insert_covered [of alone parent s1 p] unregister_covered [of alone parent s1 p]
    by (auto simp: sup_create_actor_def split: option.split sum.split)
next
  case (stop p)
  then show ?thesis using assms(3) by (simp add: stop_child_covered)
next
  case stop_all
  then show ?thesis using assms(3) by (simp add: stop_children_covered)
next
  case (remove p)
  then show ?thesis using assms(3) by (simp add: sup_remove_child_def unregister_covered)
next
  case (other r w)
  have "hm_contains p r \<Longrightarrow> hm_contains p (su_registry s)"
    and "alone \<Longrightarrow> hm_contains p (su_registry s) \<Longrightarrow> hm_contains p r" if "path_parent p = parent" for p
    using other(3) [OF that] by (auto simp: hm_contains_map_of)
  then have "p \<in> set (sup_get_childs parent s') \<Longrightarrow> p \<in> set (sup_get_childs parent s)"
    and "alone \<Longrightarrow> p \<in> set (sup_get_childs parent s) \<Longrightarrow> p \<in> set (sup_get_childs parent s')" for p
    by (auto simp: set_get_childs other(1))
  then show ?thesis
    using other(1,2) assms(3) by (auto simp: sup_covered_def)
qed

section \<open>Properties\<close>

text \<open>C28: creating an actor on a free path registers it exactly when its runner reports
  a successful start; on a start error, or a runner that vanishes, the path is
  left unregistered and the error is the runner's (or says so). A taken path is
  refused before anything is spawned.\<close>

theorem create_actor_outcomes:
  assumes "start (su_signal s) conf path s = (st, s1)" and "sup_create_actor start conf path s = (r, s')"
  shows "if hm_contains path (su_registry s) then (\<exists>t. r = Inl (Supervision t)) \<and> s' = s
    else (\<forall>q. q \<noteq> path \<longrightarrow> map_of (su_registry s') q = map_of (su_registry s1) q)
      \<and> (if st_init st = Some (Inr ())
          then r = Inr (st_ref st) \<and> sup_get_actor Some path s' = Inr (Some (st_ref st))
            \<and> map_of (su_senders s') path = Some (st_sender st)
          else (case st_init st of None \<Rightarrow> \<exists>t. r = Inl (StartActor t) | Some i \<Rightarrow> \<exists>e. i = Inl e \<and> r = Inl e)
            \<and> sup_child_exists path s' = Inr False \<and> map_of (su_senders s') path = None)"
proof (cases "hm_contains path (su_registry s)")
  case True
  then show ?thesis using assms(2) by (auto simp: sup_create_actor_def)
next
  case False
  then show ?thesis
    using assms
    by (cases "st_init st"; cases "the (st_init st)")
      (auto simp: sup_create_actor_def sup_get_actor_def sup_child_exists_def)
qed

definition ok_start :: "'ref \<Rightarrow> 'snd \<Rightarrow> ('ref, 'h, 'snd, 'sig, 'w) starter" where
  "ok_start r a sig conf p s = (\<lparr>st_init = Some (Inr ()), st_ref = r, st_sender = a\<rparr>, s)"

definition empty_sup :: "(nat, nat, nat, nat, (nat \<times> child_action) list) sup" where
  "empty_sup = sup_new [] [] 0 []"

theorem create_actor_outcomes_witness:
  "\<exists>s'. sup_create_actor (ok_start 7 1) config_default (path_from ''/user/a'') empty_sup = (Inr 7, s')
    \<and> map_of (su_senders s') (path_from ''/user/a'') = Some 1"
proof -
  let ?p = "path_from ''/user/a''"
  obtain r s' where c: "sup_create_actor (ok_start 7 1) config_default ?p empty_sup = (r, s')"
    by (cases "sup_create_actor (ok_start 7 1) config_default ?p empty_sup")
  have "ok_start 7 1 (su_signal empty_sup) config_default ?p empty_sup
      = (\<lparr>st_init = Some (Inr ()), st_ref = 7, st_sender = 1\<rparr>, empty_sup)"
    by (simp add: ok_start_def)
  from create_actor_outcomes [OF this c] c show ?thesis
    by (simp add: empty_sup_def sup_new_def hm_contains_def)
qed


definition log_send :: "(nat, (nat \<times> child_action) list) action_send" where
  "log_send a act w = (Inr (), w @ [(a, act)])"

definition one_child :: "(nat, nat, nat, nat, (nat \<times> child_action) list) sup" where
  "one_child = snd (sup_create_actor (ok_start 7 1) config_default (path_from ''/user/a'') empty_sup)"

definition one_dropped :: "(nat, nat, nat, nat, (nat \<times> child_action) list) sup" where
  "one_dropped = snd (sup_create_actor (ok_start 7 1) config_default (path_from ''/user/b'') (one_child\<lparr>su_registry := []\<rparr>))"


text \<open>C27: with consistent books and children that can be reached, \<open>stop_children\<close>
  sends exactly one stop request to every child, answers whether there were any,
  and leaves no child registered: \<open>has_childs\<close> is false although the children
  have only been asked to stop.\<close>

theorem stop_children_requests:
  assumes "sup_books parent s" and "\<And>a w. fst (send a CStop w) = Inr ()"
  shows "\<exists>s'. sup_stop_children send parent s = (Inr (sup_has_childs parent s), s')
    \<and> su_world s' = foldl (\<lambda>w p. snd (send (the (map_of (su_senders s) p)) CStop w))
        (su_world s) (sup_get_childs parent s)
    \<and> \<not> sup_has_childs parent s'
    \<and> (\<forall>p. hm_contains p (su_registry s') \<longleftrightarrow> hm_contains p (su_registry s) \<and> path_parent p \<noteq> parent)"
  using assms by (rule stop_children_all)

definition two_children :: "(nat, nat, nat, nat, (nat \<times> child_action) list) sup" where
  "two_children = \<lparr>su_registry = [(ActorPath [''user'', ''a''], 1), (ActorPath [''user'', ''b''], 2)],
     su_helpers = [], su_senders = [(ActorPath [''user'', ''a''], 10), (ActorPath [''user'', ''b''], 20)],
     su_signal = 0, su_world = []\<rparr>"

theorem stop_children_requests_witness:
  "\<exists>s'. sup_stop_children log_send (ActorPath [''user'']) two_children = (Inr True, s')
    \<and> su_world s' = [(10, CStop), (20, CStop)]"
proof -
  have "sup_books (ActorPath [''user'']) two_children"
    by (auto simp: sup_books_def two_children_def sup_get_childs_def hm_keys_def path_parent_def)
  from stop_children_requests [OF this, of log_send] show ?thesis
    by (auto simp: log_send_def two_children_def sup_has_childs_def sup_get_childs_def hm_keys_def path_parent_def)
qed

text \<open>A supervisor asked to stop an actor that is not its child (a grandchild whose
  error reached it, say) answers an error, and the actor has vanished from the
  registry all the same while it goes on running.\<close>

theorem stop_foreign_unregisters:
  assumes "map_of (su_senders s) p = None" and "hm_contains p (su_registry s)"
  shows "\<exists>t s'. sup_stop_child send p s = (Inl (Supervision t), s') \<and> su_world s' = su_world s
    \<and> sup_child_exists p s' = Inr False"
  using stop_child_unknown [OF assms(1), of send] by (auto simp: sup_child_exists_def)

theorem stop_foreign_unregisters_witness:
  "\<exists>t s'. sup_stop_child log_send (ActorPath [''user'', ''a'']) (two_children\<lparr>su_senders := []\<rparr>)
      = (Inl (Supervision t), s') \<and> su_world s' = []"
  using stop_foreign_unregisters [of "two_children\<lparr>su_senders := []\<rparr>" "ActorPath [''user'', ''a'']" log_send]
  by (auto simp: two_children_def hm_contains_def)

text \<open>C36: the existence check of \<open>create_actor\<close> does not cover the start: when two
  tasks create the same path and both pass the check, both get a reference, but
  the registry keeps only the one that finished last and the other actor's stop
  channel is lost.\<close>

theorem create_actor_race:
  assumes "\<not> hm_contains p (su_registry s)"
    and "st_init st1 = Some (Inr ())" and "st_init st2 = Some (Inr ())"
    and "\<And>sig conf q u. start2 sig conf q u = (st2, u)"
    and "\<And>sig conf q u. start1 sig conf q u = (st1, snd (sup_create_actor start2 conf2 q u))"
  shows "fst (sup_create_actor start2 conf2 p s) = Inr (st_ref st2)
    \<and> fst (sup_create_actor start1 conf1 p s) = Inr (st_ref st1)
    \<and> sup_get_actor Some p (snd (sup_create_actor start1 conf1 p s)) = Inr (Some (st_ref st1))
    \<and> map_of (su_senders (snd (sup_create_actor start1 conf1 p s))) p = Some (st_sender st1)"
  using assms(1-3) by (simp add: sup_create_actor_def assms(4,5) sup_get_actor_def)

definition racing_start :: "(nat, nat, nat, nat, (nat \<times> child_action) list) starter" where
  "racing_start sig conf q u =
     (\<lparr>st_init = Some (Inr ()), st_ref = 1, st_sender = 1\<rparr>,
      snd (sup_create_actor (ok_start 2 2) config_default q u))"

theorem create_actor_race_witness:
  "sup_get_actor Some (ActorPath [''user'', ''a''])
    (snd (sup_create_actor racing_start config_default (ActorPath [''user'', ''a'']) empty_sup)) = Inr (Some 1)"
proof -
  have "\<not> hm_contains (ActorPath [''user'', ''a'']) (su_registry empty_sup)"
    by (simp add: empty_sup_def sup_new_def hm_contains_def)
  from create_actor_race [OF this, of "\<lparr>st_init = Some (Inr ()), st_ref = 1, st_sender = 1\<rparr>"
      "\<lparr>st_init = Some (Inr ()), st_ref = 2, st_sender = 2\<rparr>" "ok_start 2 2" racing_start
      config_default config_default]
  show ?thesis by (simp add: ok_start_def racing_start_def)
qed

text \<open>A name with a separator in it makes no child: the actor is registered under a
  deeper path, which the creator's \<open>has_childs\<close> does not count and its
  \<open>stop_children\<close> does not stop.\<close>

theorem separator_name_not_child:
  assumes "1 < length (path_tokens name)" and "sup_get_childs parent s = []"
    and "\<not> hm_contains (path_div parent name) (su_registry s)"
    and "start (su_signal s) conf (path_div parent name) s = (st, s)" and "st_init st = Some (Inr ())"
  shows "\<exists>s'. sup_create_actor start conf (path_div parent name) s = (Inr (st_ref st), s')
    \<and> sup_child_exists (path_div parent name) s' = Inr True
    \<and> \<not> sup_has_childs parent s' \<and> sup_stop_children send parent s' = (Inr False, s')"
proof -
  have "length (segments (path_parent (path_div parent name))) \<noteq> length (segments parent)"
    using assms(1) by (simp add: path_parent_segments path_div_segments)
  then have ne: "path_parent (path_div parent name) \<noteq> parent" by metis
  let ?s = "s\<lparr>su_registry := hm_insert (path_div parent name) (st_ref st) (su_registry s),
     su_senders := hm_insert (path_div parent name) (st_sender st) (su_senders s)\<rparr>"
  have "q \<notin> set (sup_get_childs parent ?s)" for q
    using assms(2) ne set_get_childs [of q parent s] by (auto simp: set_get_childs)
  then have "sup_get_childs parent ?s = []" by (metis list.set_intros(1) neq_Nil_conv)
  then show ?thesis
    using assms(3-5)
    by (simp add: sup_create_actor_def sup_child_exists_def sup_has_childs_def sup_stop_children_def)
qed

theorem separator_name_not_child_witness:
  "\<exists>s'. sup_create_actor (ok_start 7 1) config_default (path_div (ActorPath [''user'']) ''a/b'') empty_sup
      = (Inr 7, s') \<and> \<not> sup_has_childs (ActorPath [''user'']) s'"
proof -
  have "1 < length (path_tokens ''a/b'')"
    by (simp add: path_tokens_def is_blank_def ws1_def ws2_def ws3_def)
  from separator_name_not_child [OF this, where parent = "ActorPath [''user'']" and s = empty_sup
      and start = "ok_start 7 1" and conf = config_default and send = log_send]
  show ?thesis
    by (auto simp: ok_start_def empty_sup_def sup_new_def hm_contains_def sup_get_childs_def hm_keys_def)
qed

end
