(* ===== verification/Context.thy ===== *)
theory Context
  imports Supervisor
begin

text \<open>
  \<open>ActorContext\<close> and the default methods of the \<open>Actor\<close> trait
  (\<open>actor/src/actor.rs\<close>). A context is the actor's path, its own supervisor
  with the shared registry (\<open>Supervisor\<close>), the channel to its parent and the
  configuration. \<open>net_ops\<close> holds the sends on channels, over the world.
\<close>

record ('ref, 'h, 'snd, 'sig, 'w) ctx =
  cx_path :: actor_path
  cx_sup :: "('ref, 'h, 'snd, 'sig, 'w) sup"
  cx_signal :: "'sig option"
  cx_config :: config

record ('ev, 'snd, 'sig, 'w) net_ops =
  nt_action :: "('snd, 'w) action_send"
  nt_signal :: "'sig \<Rightarrow> actor_signal \<Rightarrow> 'w \<Rightarrow> (string + unit) \<times> 'w"
  nt_event :: "'ev \<Rightarrow> 'w \<Rightarrow> (string + unit) \<times> 'w"

definition MAX_ACTOR_DEPTH :: nat where
  "MAX_ACTOR_DEPTH = 100"

definition ctx_new ::
  "actor_path \<Rightarrow> ('ref, 'h, 'snd, 'sig, 'w) sup \<Rightarrow> 'sig option \<Rightarrow> config \<Rightarrow> ('ref, 'h, 'snd, 'sig, 'w) ctx" where
  "ctx_new path supervisor signal_sender conf =
     \<lparr>cx_path = path, cx_sup = supervisor, cx_signal = signal_sender, cx_config = conf\<rparr>"

section \<open>Children\<close>

definition ctx_create_child ::
  "('ref, 'h, 'snd, 'sig, 'w) starter \<Rightarrow> string \<Rightarrow> ('ref, 'h, 'snd, 'sig, 'w) ctx
    \<Rightarrow> (actor_error + 'ref) \<times> ('ref, 'h, 'snd, 'sig, 'w) ctx" where
  "ctx_create_child start name c =
     (let path = path_div (cx_path c) name
      in if path_level (cx_path c) \<ge> MAX_ACTOR_DEPTH
         then (Inl (CreateActor ''Max actor depth exceeded''), c)
         else (case sup_create_actor start (cx_config c) path (cx_sup c) of
                (r, s) \<Rightarrow> (r, c\<lparr>cx_sup := s\<rparr>)))"

text \<open>\<open>unwrap_or_default\<close> on the result of a lookup.\<close>

definition ctx_get_actor ::
  "('ref \<Rightarrow> 'a option) \<Rightarrow> actor_path \<Rightarrow> ('ref, 'h, 'snd, 'sig, 'w) ctx \<Rightarrow> 'a option" where
  "ctx_get_actor downcast path c =
     (case sup_get_actor downcast path (cx_sup c) of Inl _ \<Rightarrow> None | Inr a \<Rightarrow> a)"

definition ctx_get_child ::
  "('ref \<Rightarrow> 'a option) \<Rightarrow> string \<Rightarrow> ('ref, 'h, 'snd, 'sig, 'w) ctx \<Rightarrow> 'a option" where
  "ctx_get_child downcast name c =
     (case sup_get_actor downcast (path_div (cx_path c) name) (cx_sup c) of Inl _ \<Rightarrow> None | Inr a \<Rightarrow> a)"

definition ctx_get_parent ::
  "('ref \<Rightarrow> 'a option) \<Rightarrow> ('ref, 'h, 'snd, 'sig, 'w) ctx \<Rightarrow> 'a option" where
  "ctx_get_parent downcast c =
     (case sup_get_actor downcast (path_parent (cx_path c)) (cx_sup c) of Inl _ \<Rightarrow> None | Inr a \<Rightarrow> a)"

definition ctx_child_exists :: "string \<Rightarrow> ('ref, 'h, 'snd, 'sig, 'w) ctx \<Rightarrow> actor_error + bool" where
  "ctx_child_exists name c = sup_child_exists (path_div (cx_path c) name) (cx_sup c)"

definition ctx_stop_child ::
  "('ev, 'snd, 'sig, 'w) net_ops \<Rightarrow> string \<Rightarrow> ('ref, 'h, 'snd, 'sig, 'w) ctx
    \<Rightarrow> (actor_error + unit) \<times> ('ref, 'h, 'snd, 'sig, 'w) ctx" where
  "ctx_stop_child N name c =
     (case sup_stop_child (nt_action N) (path_div (cx_path c) name) (cx_sup c) of
       (r, s) \<Rightarrow> (r, c\<lparr>cx_sup := s\<rparr>))"

definition ctx_stop_children ::
  "('ev, 'snd, 'sig, 'w) net_ops \<Rightarrow> ('ref, 'h, 'snd, 'sig, 'w) ctx
    \<Rightarrow> (actor_error + bool) \<times> ('ref, 'h, 'snd, 'sig, 'w) ctx" where
  "ctx_stop_children N c =
     (case sup_stop_children (nt_action N) (cx_path c) (cx_sup c) of (r, s) \<Rightarrow> (r, c\<lparr>cx_sup := s\<rparr>))"

definition ctx_has_childs :: "('ref, 'h, 'snd, 'sig, 'w) ctx \<Rightarrow> bool" where
  "ctx_has_childs c \<longleftrightarrow> sup_has_childs (cx_path c) (cx_sup c)"

definition ctx_remove_child :: "string \<Rightarrow> ('ref, 'h, 'snd, 'sig, 'w) ctx \<Rightarrow> ('ref, 'h, 'snd, 'sig, 'w) ctx" where
  "ctx_remove_child name c = c\<lparr>cx_sup := sup_remove_child (path_div (cx_path c) name) (cx_sup c)\<rparr>"

definition ctx_restart_children ::
  "('ev, 'snd, 'sig, 'w) net_ops \<Rightarrow> ('ref, 'h, 'snd, 'sig, 'w) ctx
    \<Rightarrow> (actor_error + unit) \<times> ('ref, 'h, 'snd, 'sig, 'w) ctx" where
  "ctx_restart_children N c =
     (case sup_restart_children (nt_action N) (cx_sup c) of (r, s) \<Rightarrow> (r, c\<lparr>cx_sup := s\<rparr>))"

definition ctx_get_helper ::
  "('h \<Rightarrow> 'a option) \<Rightarrow> string \<Rightarrow> ('ref, 'h, 'snd, 'sig, 'w) ctx \<Rightarrow> 'a option" where
  "ctx_get_helper downcast name c = sup_get_helper downcast name (cx_sup c)"

section \<open>Events and signals\<close>

abbreviation cx_world :: "('ref, 'h, 'snd, 'sig, 'w) ctx \<Rightarrow> 'w" where
  "cx_world c \<equiv> su_world (cx_sup c)"

definition cx_set_world :: "'w \<Rightarrow> ('ref, 'h, 'snd, 'sig, 'w) ctx \<Rightarrow> ('ref, 'h, 'snd, 'sig, 'w) ctx" where
  "cx_set_world w c = c\<lparr>cx_sup := (cx_sup c)\<lparr>su_world := w\<rparr>\<rparr>"

definition emit_event ::
  "('ev, 'snd, 'sig, 'w) net_ops \<Rightarrow> 'ev \<Rightarrow> ('ref, 'h, 'snd, 'sig, 'w) ctx
    \<Rightarrow> (actor_error + unit) \<times> ('ref, 'h, 'snd, 'sig, 'w) ctx" where
  "emit_event N event c =
     (case nt_event N event (cx_world c) of (r, w) \<Rightarrow>
       (actor_event (\<lambda>e. e) ''Failed to emit event'' r, cx_set_world w c))"

definition emit_error ::
  "('ev, 'snd, 'sig, 'w) net_ops \<Rightarrow> actor_error \<Rightarrow> ('ref, 'h, 'snd, 'sig, 'w) ctx
    \<Rightarrow> (actor_error + unit) \<times> ('ref, 'h, 'snd, 'sig, 'w) ctx" where
  "emit_error N error c =
     (case cx_signal c of
       Some signal_sender \<Rightarrow>
         (case nt_signal N signal_sender (SError (cx_path c) error) (cx_world c) of (r, w) \<Rightarrow>
           (actor_supervision (\<lambda>e. e) ''Failed to emit error signal'' r, cx_set_world w c))
     | None \<Rightarrow>
         (Inl (Supervision (''No signal sender available to emit error signal for actor ''
            @ path_to_string (cx_path c))), c))"

definition emit_fault ::
  "('ev, 'snd, 'sig, 'w) net_ops \<Rightarrow> actor_error \<Rightarrow> ('ref, 'h, 'snd, 'sig, 'w) ctx
    \<Rightarrow> (actor_error + unit) \<times> ('ref, 'h, 'snd, 'sig, 'w) ctx" where
  "emit_fault N error c =
     (case cx_signal c of
       Some signal_sender \<Rightarrow>
         (case nt_signal N signal_sender (SFault (cx_path c) error) (cx_world c) of (r, w) \<Rightarrow>
           (actor_supervision (\<lambda>e. e) ''Failed to emit fault signal'' r, cx_set_world w c))
     | None \<Rightarrow>
         (Inl (Supervision (''No signal sender available to emit fault signal for actor ''
            @ path_to_string (cx_path c))), c))"

definition emit_stopped ::
  "('ev, 'snd, 'sig, 'w) net_ops \<Rightarrow> ('ref, 'h, 'snd, 'sig, 'w) ctx
    \<Rightarrow> (actor_error + unit) \<times> ('ref, 'h, 'snd, 'sig, 'w) ctx" where
  "emit_stopped N c =
     (case cx_signal c of
       Some signal_sender \<Rightarrow>
         (case nt_signal N signal_sender (SStopped (cx_path c)) (cx_world c) of (r, w) \<Rightarrow>
           (actor_supervision (\<lambda>e. e) ''Failed to emit stopped signal'' r, cx_set_world w c))
     | None \<Rightarrow>
         (Inl (Supervision (''No signal sender available to emit stopped signal for actor ''
            @ path_to_string (cx_path c))), c))"

section \<open>Default methods of the trait\<close>

definition default_pre_start :: "'a \<Rightarrow> 'c \<Rightarrow> (actor_error + unit) \<times> 'a \<times> 'c" where
  "default_pre_start a c = (Inr (), a, c)"

definition default_pre_restart ::
  "('a \<Rightarrow> 'c \<Rightarrow> (actor_error + unit) \<times> 'a \<times> 'c) \<Rightarrow> 'a \<Rightarrow> 'c \<Rightarrow> (actor_error + unit) \<times> 'a \<times> 'c" where
  "default_pre_restart pre_start a c = pre_start a c"

definition default_pre_stop :: "'a \<Rightarrow> 'c \<Rightarrow> (actor_error + unit) \<times> 'a \<times> 'c" where
  "default_pre_stop a c = (Inr (), a, c)"

definition default_post_stop :: "'a \<Rightarrow> 'c \<Rightarrow> (actor_error + unit) \<times> 'a \<times> 'c" where
  "default_post_stop a c = (Inr (), a, c)"

text \<open>\<open>ActorContext::restart\<close>.\<close>

definition ctx_restart ::
  "('a \<Rightarrow> 'c \<Rightarrow> (actor_error + unit) \<times> 'a \<times> 'c) \<Rightarrow> 'a \<Rightarrow> 'c \<Rightarrow> (actor_error + unit) \<times> 'a \<times> 'c" where
  [simp]: "ctx_restart pre_restart actor c = pre_restart actor c"

definition default_on_child_error ::
  "('ev, 'snd, 'sig, 'w) net_ops \<Rightarrow> actor_path \<Rightarrow> actor_error \<Rightarrow> 'a \<Rightarrow> ('ref, 'h, 'snd, 'sig, 'w) ctx
    \<Rightarrow> 'a \<times> ('ref, 'h, 'snd, 'sig, 'w) ctx" where
  "default_on_child_error N child error a c = (a, snd (emit_error N error c))"

definition default_on_child_fault ::
  "('ev, 'snd, 'sig, 'w) net_ops \<Rightarrow> actor_path \<Rightarrow> actor_error \<Rightarrow> 'a \<Rightarrow> ('ref, 'h, 'snd, 'sig, 'w) ctx
    \<Rightarrow> 'a \<times> ('ref, 'h, 'snd, 'sig, 'w) ctx" where
  "default_on_child_fault N child error a c = (a, snd (emit_fault N error c))"

lemma cx_set_world_sel [simp]:
  "cx_path (cx_set_world w c) = cx_path c"
  "cx_signal (cx_set_world w c) = cx_signal c"
  "su_registry (cx_sup (cx_set_world w c)) = su_registry (cx_sup c)"
  "su_senders (cx_sup (cx_set_world w c)) = su_senders (cx_sup c)"
  "su_world (cx_sup (cx_set_world w c)) = w"
  by (simp_all add: cx_set_world_def)

section \<open>Properties\<close>


definition at_level :: "nat \<Rightarrow> (nat, nat, nat, nat, (nat \<times> child_action) list) ctx" where
  "at_level n = ctx_new (ActorPath (replicate n ''x'')) empty_sup None config_default"


end
