(* ===== verification/Runner.thy ===== *)
theory Runner
  imports Context Supervision
begin

text \<open>
  \<open>actor/src/runner.rs\<close>: the life of an actor. The actor is the record of the
  methods its type implements (\<open>hooks\<close>), each a function over the actor's state
  and its context. \<open>select!\<close> takes whichever channel has an item, so the run
  loop consumes a schedule: the list of what it receives, in the order it takes
  it, with what other tasks do to the context in between (\<open>REnv\<close>). At the end of
  a schedule the actor is waiting. \<open>ru_trace\<close> is a ghost: the calls the
  runner makes that others can observe, in order; no step reads it.
\<close>

section \<open>State\<close>

datatype actor_lifecycle = Created | Started | Restarted | Failed | Stopped | Terminated

record ('a, 'm, 'c) hooks =
  hk_strategy :: supervision_strategy
  hk_pre_start :: "'a \<Rightarrow> 'c \<Rightarrow> (actor_error + unit) \<times> 'a \<times> 'c"
  hk_pre_restart :: "'a \<Rightarrow> 'c \<Rightarrow> (actor_error + unit) \<times> 'a \<times> 'c"
  hk_pre_stop :: "'a \<Rightarrow> 'c \<Rightarrow> (actor_error + unit) \<times> 'a \<times> 'c"
  hk_post_stop :: "'a \<Rightarrow> 'c \<Rightarrow> (actor_error + unit) \<times> 'a \<times> 'c"
  hk_message :: "'m \<Rightarrow> 'a \<Rightarrow> 'c \<Rightarrow> 'a \<times> 'c"
  hk_child_error :: "actor_path \<Rightarrow> actor_error \<Rightarrow> 'a \<Rightarrow> 'c \<Rightarrow> 'a \<times> 'c"
  hk_child_fault :: "actor_path \<Rightarrow> actor_error \<Rightarrow> 'a \<Rightarrow> 'c \<Rightarrow> 'a \<times> 'c"

datatype runner_call =
    TInit "actor_error + unit"
  | TPreStart
  | TRestart
  | TSleep duration
  | TPreStop
  | TEmitStopped
  | TPostStop

datatype ('m, 'c) runner_event =
    RMsg 'm
  | RSignal actor_signal
  | RAction child_action
  | RClosed
  | REnv "'c \<Rightarrow> 'c"

text \<open>\<open>ru_retries\<close> and \<open>ru_init\<close> (whether the init sender is still there) are
  the local variables of \<open>init\<close>.\<close>

record ('a, 'c) runner =
  ru_actor :: 'a
  ru_path :: actor_path
  ru_ctx :: 'c
  ru_life :: actor_lifecycle
  ru_retries :: nat
  ru_init :: bool
  ru_trace :: "runner_call list"

text \<open>\<open>new\<close>: the context gets a supervisor of its own over the shared maps and the
  sender of the channel on which its children will signal.\<close>

definition runner_new ::
  "'a \<Rightarrow> actor_path \<Rightarrow> 'sig option \<Rightarrow> (actor_path \<times> 'ref) list \<Rightarrow> (string \<times> 'h) list \<Rightarrow> 'sig \<Rightarrow> 'w \<Rightarrow> config
    \<Rightarrow> ('a, ('ref, 'h, 'snd, 'sig, 'w) ctx) runner" where
  "runner_new actor path signal_sender registry helpers child_signal_sender w conf =
     \<lparr>ru_actor = actor, ru_path = path,
      ru_ctx = ctx_new path (sup_new registry helpers child_signal_sender w) signal_sender conf,
      ru_life = Created, ru_retries = 0, ru_init = True, ru_trace = []\<rparr>"

definition observe :: "runner_call \<Rightarrow> ('a, 'c) runner \<Rightarrow> ('a, 'c) runner" where
  "observe t r = r\<lparr>ru_trace := ru_trace r @ [t]\<rparr>"

section \<open>The run loop\<close>

fun on_signal ::
  "('a, 'm, ('ref, 'h, 'snd, 'sig, 'w) ctx) hooks \<Rightarrow> actor_signal \<Rightarrow> ('a, ('ref, 'h, 'snd, 'sig, 'w) ctx) runner
    \<Rightarrow> actor_lifecycle option \<times> ('a, ('ref, 'h, 'snd, 'sig, 'w) ctx) runner" where
  "on_signal H (SError child error) r =
     (case hk_child_error H child error (ru_actor r) (ru_ctx r) of
       (a, c) \<Rightarrow> (None, r\<lparr>ru_actor := a, ru_ctx := c\<rparr>))"
| "on_signal H (SFault child error) r =
     (case hk_child_fault H child error (ru_actor r) (ru_ctx r) of
       (a, c) \<Rightarrow> (None, r\<lparr>ru_actor := a, ru_ctx := c\<rparr>))"
| "on_signal H (SStopped child) r =
     (let c = ctx_remove_child (path_key child) (ru_ctx r); r = r\<lparr>ru_ctx := c\<rparr>
      in if \<not> ctx_has_childs c then (Some Stopped, r) else (None, r))"

text \<open>A failing step of an action is reported to the parent as a fault; if that
  fails too the actor has failed.\<close>

definition report_fault ::
  "('ev, 'snd, 'sig, 'w) net_ops \<Rightarrow> actor_error \<Rightarrow> ('a, ('ref, 'h, 'snd, 'sig, 'w) ctx) runner
    \<Rightarrow> actor_lifecycle option \<times> ('a, ('ref, 'h, 'snd, 'sig, 'w) ctx) runner" where
  "report_fault N e r =
     (case emit_fault N e (ru_ctx r) of
       (Inl _, c) \<Rightarrow> (Some Failed, r\<lparr>ru_ctx := c\<rparr>)
     | (Inr _, c) \<Rightarrow> (None, r\<lparr>ru_ctx := c\<rparr>))"

definition on_stop ::
  "('a, 'm, ('ref, 'h, 'snd, 'sig, 'w) ctx) hooks \<Rightarrow> ('ev, 'snd, 'sig, 'w) net_ops
    \<Rightarrow> ('a, ('ref, 'h, 'snd, 'sig, 'w) ctx) runner
    \<Rightarrow> actor_lifecycle option \<times> ('a, ('ref, 'h, 'snd, 'sig, 'w) ctx) runner" where
  "on_stop H N r =
     (case hk_pre_stop H (ru_actor r) (ru_ctx r) of (res, a, c) \<Rightarrow>
       (let r = observe TPreStop (r\<lparr>ru_actor := a, ru_ctx := c\<rparr>)
        in (case (case res of Inl e \<Rightarrow> report_fault N e r | Inr _ \<Rightarrow> (None, r)) of
             (Some l, r) \<Rightarrow> (Some l, r)
           | (None, r) \<Rightarrow>
               (case ctx_stop_children N (ru_ctx r) of
                 (Inr has_childs, c) \<Rightarrow>
                   (let r = r\<lparr>ru_ctx := c\<rparr>
                    in if \<not> has_childs then (Some Stopped, r) else (None, r))
               | (Inl e, c) \<Rightarrow> report_fault N e (r\<lparr>ru_ctx := c\<rparr>)))))"

definition on_restart ::
  "('ev, 'snd, 'sig, 'w) net_ops \<Rightarrow> ('a, ('ref, 'h, 'snd, 'sig, 'w) ctx) runner
    \<Rightarrow> actor_lifecycle option \<times> ('a, ('ref, 'h, 'snd, 'sig, 'w) ctx) runner" where
  "on_restart N r =
     (case ctx_restart_children N (ru_ctx r) of
       (Inr _, c) \<Rightarrow> (Some Restarted, r\<lparr>ru_ctx := c\<rparr>)
     | (Inl e, c) \<Rightarrow>
         (case report_fault N e (r\<lparr>ru_ctx := c\<rparr>) of
           (Some l, r) \<Rightarrow> (Some l, r)
         | (None, r) \<Rightarrow> (Some Restarted, r)))"

fun on_action ::
  "('a, 'm, ('ref, 'h, 'snd, 'sig, 'w) ctx) hooks \<Rightarrow> ('ev, 'snd, 'sig, 'w) net_ops \<Rightarrow> child_action
    \<Rightarrow> ('a, ('ref, 'h, 'snd, 'sig, 'w) ctx) runner
    \<Rightarrow> actor_lifecycle option \<times> ('a, ('ref, 'h, 'snd, 'sig, 'w) ctx) runner" where
  "on_action H N CStop r = on_stop H N r"
| "on_action H N CRestart r = on_restart N r"

text \<open>One item of the schedule: a lifecycle when the loop returns with it.\<close>

fun run_event ::
  "('a, 'm, ('ref, 'h, 'snd, 'sig, 'w) ctx) hooks \<Rightarrow> ('ev, 'snd, 'sig, 'w) net_ops
    \<Rightarrow> ('m, ('ref, 'h, 'snd, 'sig, 'w) ctx) runner_event \<Rightarrow> ('a, ('ref, 'h, 'snd, 'sig, 'w) ctx) runner
    \<Rightarrow> actor_lifecycle option \<times> ('a, ('ref, 'h, 'snd, 'sig, 'w) ctx) runner" where
  "run_event H N (RMsg m) r =
     (case hk_message H m (ru_actor r) (ru_ctx r) of (a, c) \<Rightarrow> (None, r\<lparr>ru_actor := a, ru_ctx := c\<rparr>))"
| "run_event H N (RSignal s) r = on_signal H s r"
| "run_event H N (RAction act) r = on_action H N act r"
| "run_event H N RClosed r = (Some Failed, r)"
| "run_event H N (REnv f) r = (None, r\<lparr>ru_ctx := f (ru_ctx r)\<rparr>)"

text \<open>The loop: \<open>None\<close> when the schedule ends with the actor waiting.\<close>

fun run_loop ::
  "('a, 'm, ('ref, 'h, 'snd, 'sig, 'w) ctx) hooks \<Rightarrow> ('ev, 'snd, 'sig, 'w) net_ops
    \<Rightarrow> ('m, ('ref, 'h, 'snd, 'sig, 'w) ctx) runner_event list \<Rightarrow> ('a, ('ref, 'h, 'snd, 'sig, 'w) ctx) runner
    \<Rightarrow> actor_lifecycle option \<times> ('a, ('ref, 'h, 'snd, 'sig, 'w) ctx) runner
      \<times> ('m, ('ref, 'h, 'snd, 'sig, 'w) ctx) runner_event list" where
  "run_loop H N [] r = (None, r, [])"
| "run_loop H N (ev # evs) r =
     (case run_event H N ev r of
       (Some l, r) \<Rightarrow> (Some l, r, evs)
     | (None, r) \<Rightarrow> run_loop H N evs r)"

section \<open>Starting and restarting\<close>

definition apply_supervision_strategy ::
  "('a, 'm, 'c) hooks \<Rightarrow> supervision_strategy \<Rightarrow> ('a, 'c) runner \<Rightarrow> ('a, 'c) runner" where
  "apply_supervision_strategy H strategy r =
     (case strategy of
       SStop \<Rightarrow> r\<lparr>ru_life := Failed\<rparr>
     | SRetry retry_strategy \<Rightarrow>
         (if ru_retries r < max_retries retry_strategy
          then (case next_backoff retry_strategy of (backoff, _) \<Rightarrow>
            (let r = (case backoff of Some d \<Rightarrow> observe (TSleep d) r | None \<Rightarrow> r);
                 r = r\<lparr>ru_retries := ru_retries r + 1\<rparr>
             in (case ctx_restart (hk_pre_restart H) (ru_actor r) (ru_ctx r) of (res, a, c) \<Rightarrow>
                  (let r = observe TRestart (r\<lparr>ru_actor := a, ru_ctx := c\<rparr>)
                   in (case res of
                        Inr _ \<Rightarrow> r\<lparr>ru_life := Started, ru_retries := 0\<rparr>
                      | Inl _ \<Rightarrow> r)))))
          else r\<lparr>ru_life := Failed\<rparr>))"

definition send_init :: "actor_error + unit \<Rightarrow> ('a, 'c) runner \<Rightarrow> ('a, 'c) runner" where
  "send_init result r = (if ru_init r then observe (TInit result) (r\<lparr>ru_init := False\<rparr>) else r)"

definition start_failure :: "('a, 'c) runner \<Rightarrow> actor_error" where
  "start_failure r =
     CreateActor (''Actor '' @ path_to_string (ru_path r) @ '' failed to start after ''
       @ dec_digits (ru_retries r) @ '' retries.'')"

section \<open>The main loop\<close>

text \<open>One round of the loop of \<open>init\<close>. It is over (\<open>False\<close>) when the actor has
  terminated or waits at the end of its schedule.\<close>

definition runner_step ::
  "('a, 'm, ('ref, 'h, 'snd, 'sig, 'w) ctx) hooks \<Rightarrow> ('ev, 'snd, 'sig, 'w) net_ops
    \<Rightarrow> ('a, ('ref, 'h, 'snd, 'sig, 'w) ctx) runner \<Rightarrow> ('m, ('ref, 'h, 'snd, 'sig, 'w) ctx) runner_event list
    \<Rightarrow> bool \<times> ('a, ('ref, 'h, 'snd, 'sig, 'w) ctx) runner
      \<times> ('m, ('ref, 'h, 'snd, 'sig, 'w) ctx) runner_event list" where
  "runner_step H N r evs =
     (case ru_life r of
       Created \<Rightarrow>
         (case hk_pre_start H (ru_actor r) (ru_ctx r) of (res, a, c) \<Rightarrow>
           (let r = observe TPreStart (r\<lparr>ru_actor := a, ru_ctx := c\<rparr>)
            in (True, (case res of Inl _ \<Rightarrow> r\<lparr>ru_life := Restarted\<rparr> | Inr _ \<Rightarrow> r\<lparr>ru_life := Started\<rparr>), evs)))
     | Started \<Rightarrow>
         (case run_loop H N evs (send_init (Inr ()) r) of
           (None, r, evs) \<Rightarrow> (False, r, evs)
         | (Some l, r, evs) \<Rightarrow> (True, r\<lparr>ru_life := l\<rparr>, evs))
     | Restarted \<Rightarrow>
         (let r = apply_supervision_strategy H (hk_strategy H) r
          in (True, (if ru_life r = Failed then send_init (Inl (start_failure r)) r else r), evs))
     | Failed \<Rightarrow> (True, r\<lparr>ru_life := Stopped\<rparr>, evs)
     | Stopped \<Rightarrow>
         (case emit_stopped N (ru_ctx r) of (_, c) \<Rightarrow>
           (let r = observe TEmitStopped (r\<lparr>ru_ctx := c\<rparr>)
            in (case hk_post_stop H (ru_actor r) (ru_ctx r) of (_, a, c) \<Rightarrow>
                 (True, (observe TPostStop (r\<lparr>ru_actor := a, ru_ctx := c\<rparr>))\<lparr>ru_life := Terminated\<rparr>, evs))))
     | Terminated \<Rightarrow> (False, r, evs))"

section \<open>Every round makes progress\<close>

inductive life_edge :: "actor_lifecycle \<Rightarrow> actor_lifecycle \<Rightarrow> bool" where
  "life_edge Created Started"
| "life_edge Created Restarted"
| "life_edge Started Stopped"
| "life_edge Started Restarted"
| "life_edge Started Failed"
| "life_edge Restarted Started"
| "life_edge Restarted Restarted"
| "life_edge Restarted Failed"
| "life_edge Failed Stopped"
| "life_edge Stopped Terminated"

declare life_edge.intros [simp, intro]

inductive_cases life_edge_TerminatedE: "life_edge Terminated l"
inductive_simps life_edge_to_Terminated: "life_edge l Terminated"

lemma observe_sel [simp]:
  "ru_actor (observe t r) = ru_actor r" "ru_path (observe t r) = ru_path r"
  "ru_ctx (observe t r) = ru_ctx r" "ru_life (observe t r) = ru_life r"
  "ru_retries (observe t r) = ru_retries r" "ru_init (observe t r) = ru_init r"
  "ru_trace (observe t r) = ru_trace r @ [t]"
  by (simp_all add: observe_def)

lemma send_init_sel [simp]:
  "ru_actor (send_init x r) = ru_actor r" "ru_path (send_init x r) = ru_path r"
  "ru_ctx (send_init x r) = ru_ctx r" "ru_life (send_init x r) = ru_life r"
  "ru_retries (send_init x r) = ru_retries r" "ru_init (send_init x r) = False"
  "ru_trace (send_init x r) = ru_trace r @ (if ru_init r then [TInit x] else [])"
  by (simp_all add: send_init_def)

text \<open>What an event of the run loop keeps: only \<open>TPreStop\<close> is observed.\<close>

lemma report_fault_keeps:
  "report_fault N e r = (l, r') \<Longrightarrow>
    ru_init r' = ru_init r \<and> ru_retries r' = ru_retries r \<and> ru_life r' = ru_life r \<and> ru_trace r' = ru_trace r
    \<and> (l = None \<or> l = Some Failed)"
  by (auto simp: report_fault_def split: prod.splits sum.splits)

lemma on_signal_keeps:
  "on_signal H s r = (l, r') \<Longrightarrow>
    ru_init r' = ru_init r \<and> ru_retries r' = ru_retries r \<and> ru_life r' = ru_life r \<and> ru_trace r' = ru_trace r
    \<and> (l = None \<or> l = Some Stopped)"
  by (cases s) (auto simp: Let_def split: prod.splits if_splits)

lemma on_stop_keeps:
  "on_stop H N r = (l, r') \<Longrightarrow>
    ru_init r' = ru_init r \<and> ru_retries r' = ru_retries r \<and> ru_life r' = ru_life r \<and> ru_trace r' = ru_trace r @ [TPreStop]
    \<and> (l = None \<or> l = Some Stopped \<or> l = Some Failed)"
  by (auto simp: on_stop_def Let_def split: prod.splits sum.splits if_splits option.splits
      dest!: report_fault_keeps)

lemma on_restart_keeps:
  "on_restart N r = (l, r') \<Longrightarrow>
    ru_init r' = ru_init r \<and> ru_retries r' = ru_retries r \<and> ru_life r' = ru_life r \<and> ru_trace r' = ru_trace r
    \<and> (l = Some Restarted \<or> l = Some Failed)"
  by (auto simp: on_restart_def split: prod.splits sum.splits option.splits dest!: report_fault_keeps)

lemma run_event_keeps:
  assumes "run_event H N ev r = (l, r')"
  shows "ru_init r' = ru_init r \<and> ru_retries r' = ru_retries r \<and> ru_life r' = ru_life r
    \<and> (\<exists>n. ru_trace r' = ru_trace r @ replicate n TPreStop)
    \<and> (\<forall>s. l = Some s \<longrightarrow> life_edge Started s)"
proof (cases ev)
  case (RSignal s)
  then show ?thesis using assms on_signal_keeps [of H s r l r'] by (auto intro: exI [of _ 0])
next
  case (RAction a)
  then show ?thesis
    using assms on_stop_keeps [of H N r l r'] on_restart_keeps [of N r l r']
    by (cases a) (auto intro: exI [of _ 0] exI [of _ 1])
qed (use assms in \<open>auto intro: exI [of _ 0] split: prod.splits\<close>)

lemma run_loop_keeps:
  "run_loop H N evs r = (l, r', evs') \<Longrightarrow>
    ru_init r' = ru_init r \<and> ru_retries r' = ru_retries r \<and> ru_life r' = ru_life r
    \<and> (\<exists>n. ru_trace r' = ru_trace r @ replicate n TPreStop)
    \<and> (\<forall>s. l = Some s \<longrightarrow> life_edge Started s \<and> length evs' < length evs)"
proof (induction evs arbitrary: r)
  case (Cons ev evs)
  obtain l1 r1 where ev: "run_event H N ev r = (l1, r1)" by (cases "run_event H N ev r")
  note k = run_event_keeps [OF ev]
  show ?case
  proof (cases l1)
    case None
    with ev Cons.prems have "run_loop H N evs r1 = (l, r', evs')" by simp
    from Cons.IH [OF this] k show ?thesis by (auto simp: replicate_add [symmetric] less_Suc_eq)
  next
    case (Some s)
    with ev Cons.prems k show ?thesis by auto
  qed
qed (auto intro: exI [of _ 0])

text \<open>Applying the strategy: which calls are observed, and where it leads.\<close>

definition strategy_limit :: "supervision_strategy \<Rightarrow> nat" where
  "strategy_limit s = (case s of SStop \<Rightarrow> 0 | SRetry st \<Rightarrow> max_retries st)"

definition sleeps :: "duration option \<Rightarrow> runner_call list" where
  "sleeps d = (case d of None \<Rightarrow> [] | Some d \<Rightarrow> [TSleep d])"

lemma apply_strategy_keeps:
  assumes "ru_life r = Restarted" and "apply_supervision_strategy H s r = r'"
  shows "ru_init r' = ru_init r \<and>
    (ru_life r' = Failed \<and> ru_trace r' = ru_trace r
     \<or> (\<exists>d. ru_trace r' = ru_trace r @ sleeps d @ [TRestart]) \<and>
       (ru_life r' = Started
        \<or> ru_life r' = Restarted \<and> ru_retries r < strategy_limit s \<and> ru_retries r' = Suc (ru_retries r)))"
proof (cases s)
  case SStop
  then show ?thesis using assms by (auto simp: apply_supervision_strategy_def)
next
  case (SRetry st)
  have "\<exists>d'. (case d of None \<Rightarrow> [] | Some d \<Rightarrow> [TSleep d]) = sleeps d'" for d
    by (auto simp: sleeps_def)
  show ?thesis
  proof (cases "ru_retries r < max_retries st")
    case False
    then show ?thesis using assms SRetry by (auto simp: apply_supervision_strategy_def)
  next
    case True
    obtain d st' where d: "next_backoff st = (d, st')" by (cases "next_backoff st")
    let ?r = "case d of Some d \<Rightarrow> observe (TSleep d) r | None \<Rightarrow> r"
    have r: "ru_trace ?r = ru_trace r @ sleeps d" "ru_init ?r = ru_init r"
      "ru_retries ?r = ru_retries r" "ru_life ?r = Restarted"
      using assms(1) by (auto simp: sleeps_def split: option.splits)
    have "ru_init r' = ru_init ?r \<and> ru_trace r' = ru_trace ?r @ [TRestart]
        \<and> (ru_life r' = Started \<or> ru_life r' = ru_life ?r \<and> ru_retries r' = Suc (ru_retries ?r))"
      using assms(2) True SRetry d
      by (auto simp: apply_supervision_strategy_def Let_def split: prod.splits sum.splits)
    with r True SRetry show ?thesis by (auto simp: strategy_limit_def intro: exI [of _ d])
  qed
qed

lemma runner_step_edge:
  assumes "runner_step H N r evs = (True, r', evs')"
  shows "life_edge (ru_life r) (ru_life r')"
proof (cases "ru_life r")
  case Restarted
  then show ?thesis
    using assms apply_strategy_keeps [OF Restarted refl, of H "hk_strategy H"]
    by (auto simp: runner_step_def Let_def split: if_splits)
next
  case Started
  then show ?thesis
    using assms by (auto simp: runner_step_def split: prod.splits option.splits dest!: run_loop_keeps)
qed (use assms in \<open>auto simp: runner_step_def Let_def split: prod.splits sum.splits\<close>)

fun life_rank :: "actor_lifecycle \<Rightarrow> nat" where
  "life_rank Created = 5"
| "life_rank Restarted = 4"
| "life_rank Started = 3"
| "life_rank Failed = 2"
| "life_rank Stopped = 1"
| "life_rank Terminated = 0"

lemma runner_step_progress:
  assumes "runner_step H N r evs = (True, r', evs')"
  shows "length evs' < length evs
    \<or> length evs' = length evs \<and> (life_rank (ru_life r') < life_rank (ru_life r)
      \<or> life_rank (ru_life r') = life_rank (ru_life r)
        \<and> strategy_limit (hk_strategy H) - ru_retries r' < strategy_limit (hk_strategy H) - ru_retries r)"
proof (cases "ru_life r")
  case Restarted
  then show ?thesis
    using assms apply_strategy_keeps [OF Restarted refl, of H "hk_strategy H"]
    by (auto simp: runner_step_def Let_def split: if_splits)
next
  case Started
  then show ?thesis
    using assms by (auto simp: runner_step_def split: prod.splits option.splits dest!: run_loop_keeps)
qed (use assms in \<open>auto simp: runner_step_def Let_def split: prod.splits sum.splits\<close>)

function runner_init ::
  "('a, 'm, ('ref, 'h, 'snd, 'sig, 'w) ctx) hooks \<Rightarrow> ('ev, 'snd, 'sig, 'w) net_ops
    \<Rightarrow> ('a, ('ref, 'h, 'snd, 'sig, 'w) ctx) runner \<Rightarrow> ('m, ('ref, 'h, 'snd, 'sig, 'w) ctx) runner_event list
    \<Rightarrow> ('a, ('ref, 'h, 'snd, 'sig, 'w) ctx) runner \<times> ('m, ('ref, 'h, 'snd, 'sig, 'w) ctx) runner_event list"
where
  "runner_init H N r evs =
     (case runner_step H N r evs of
       (True, r, evs) \<Rightarrow> runner_init H N r evs
     | (False, r, evs) \<Rightarrow> (r, evs))"
  by auto
termination
  by (relation "measures [\<lambda>(H, N, r, evs). length evs, \<lambda>(H, N, r, evs). life_rank (ru_life r),
      \<lambda>(H, N, r, evs). strategy_limit (hk_strategy H) - ru_retries r]")
    (auto dest: runner_step_progress [OF sym])

declare runner_init.simps [simp del]

lemma runner_init_step: "runner_step H N r evs = (True, r1, evs1) \<Longrightarrow> runner_init H N r evs = runner_init H N r1 evs1"
  by (subst runner_init.simps) simp

lemma runner_init_end: "runner_step H N r evs = (False, r1, evs1) \<Longrightarrow> runner_init H N r evs = (r1, evs1)"
  by (subst runner_init.simps) simp

section \<open>The observed calls of a life\<close>

fun is_init_call :: "runner_call \<Rightarrow> bool" where
  "is_init_call (TInit r) = True"
| "is_init_call _ = False"

fun is_stop_call :: "runner_call \<Rightarrow> bool" where
  "is_stop_call TEmitStopped = True"
| "is_stop_call TPostStop = True"
| "is_stop_call _ = False"

definition init_calls :: "runner_call list \<Rightarrow> nat" where
  "init_calls tr = length (filter is_init_call tr)"

definition stop_calls :: "runner_call list \<Rightarrow> runner_call list" where
  "stop_calls tr = filter is_stop_call tr"

text \<open>What holds at every round: the init answer is sent when its sender is gone, and
  only a terminated actor has said goodbye.\<close>

definition life_ok :: "('a, 'c) runner \<Rightarrow> bool" where
  "life_ok r \<longleftrightarrow>
     init_calls (ru_trace r) = (if ru_init r then 0 else 1)
   \<and> (ru_life r \<in> {Failed, Stopped, Terminated} \<longrightarrow> \<not> ru_init r)
   \<and> stop_calls (ru_trace r) = (if ru_life r = Terminated then [TEmitStopped, TPostStop] else [])"

lemma calls_append [simp]:
  "init_calls (a @ b) = init_calls a + init_calls b" "stop_calls (a @ b) = stop_calls a @ stop_calls b"
  by (simp_all add: init_calls_def stop_calls_def)

lemma calls_simps [simp]:
  "init_calls [] = 0" "stop_calls [] = []"
  "init_calls (t # tr) = (if is_init_call t then 1 else 0) + init_calls tr"
  "stop_calls (t # tr) = (if is_stop_call t then t # stop_calls tr else stop_calls tr)"
  "init_calls (sleeps d) = 0" "stop_calls (sleeps d) = []"
  "init_calls (replicate n TPreStop) = 0" "stop_calls (replicate n TPreStop) = []"
  by (simp_all add: init_calls_def stop_calls_def sleeps_def split: option.split)

lemma runner_step_life_ok:
  assumes "life_ok r" and "runner_step H N r evs = (True, r', evs')"
  shows "life_ok r'"
proof (cases "ru_life r")
  case Restarted
  then show ?thesis
    using assms apply_strategy_keeps [OF Restarted refl, of H "hk_strategy H"]
    by (auto simp: runner_step_def Let_def life_ok_def split: if_splits)
next
  case Started
  then obtain l r1 where l: "run_loop H N evs (send_init (Inr ()) r) = (Some l, r1, evs')" "r' = r1\<lparr>ru_life := l\<rparr>"
    using assms(2) by (auto simp: runner_step_def split: prod.splits option.splits)
  from run_loop_keeps [OF l(1)] have "life_edge Started l" "\<not> ru_init r1"
    and "\<exists>n. ru_trace r1 = ru_trace (send_init (Inr ()) r) @ replicate n TPreStop" by auto
  with assms(1) Started l(2) show ?thesis
    by (auto simp: life_ok_def elim: life_edge.cases)
qed (use assms in \<open>auto simp: runner_step_def Let_def life_ok_def split: prod.splits sum.splits if_splits\<close>)

lemma run_loop_waiting: "run_loop H N evs r = (None, r', evs') \<Longrightarrow> evs' = []"
  by (induction evs arbitrary: r) (auto split: prod.splits option.splits)

lemma runner_step_end:
  assumes "life_ok r" and "runner_step H N r evs = (False, r', evs')"
  shows "init_calls (ru_trace r') = 1
    \<and> (ru_life r' = Terminated \<and> r' = r \<or> ru_life r' = Started \<and> evs' = [] \<and> stop_calls (ru_trace r') = [])"
proof (cases "ru_life r")
  case Started
  then have l: "run_loop H N evs (send_init (Inr ()) r) = (None, r', evs')"
    using assms(2) by (auto simp: runner_step_def split: prod.splits option.splits)
  from run_loop_keeps [OF l] run_loop_waiting [OF l] assms(1) Started show ?thesis
    by (auto simp: life_ok_def split: if_splits)
qed (use assms in \<open>auto simp: runner_step_def Let_def life_ok_def split: prod.splits sum.splits if_splits\<close>)

lemma runner_init_life_ok:
  assumes "life_ok r" and "runner_init H N r evs = (r', evs')"
  shows "init_calls (ru_trace r') = 1
    \<and> (ru_life r' = Terminated \<and> stop_calls (ru_trace r') = [TEmitStopped, TPostStop]
      \<or> ru_life r' = Started \<and> evs' = [] \<and> stop_calls (ru_trace r') = [])"
  using assms
proof (induction H N r evs rule: runner_init.induct)
  case (1 H N r evs)
  obtain b r1 evs1 where s: "runner_step H N r evs = (b, r1, evs1)" by (cases "runner_step H N r evs") auto
  show ?case
  proof (cases b)
    case True
    with s have step: "runner_step H N r evs = (True, r1, evs1)" by simp
    show ?thesis
      using 1(1) [of True "(r1, evs1)" r1 evs1] step runner_step_life_ok [OF 1(2) step]
        runner_init_step [OF step] 1(3) by simp
  next
    case False
    with s have step: "runner_step H N r evs = (False, r1, evs1)" by simp
    then have "r' = r1" "evs' = evs1" using runner_init_end [OF step] 1(3) by simp_all
    then show ?thesis
      using runner_step_end [OF 1(2) step] 1(2) by (auto simp: life_ok_def)
  qed
qed

lemma not_okD: "\<not> is_ok (fst x) \<Longrightarrow> \<exists>e a c. x = (Inl e, a, c)"
  by (cases x; cases "fst x") auto

text \<open>The rounds of a stop: from a lifecycle that ends it to the end.\<close>

lemma runner_init_Stopped:
  assumes "ru_life r = Stopped" and "emit_stopped N (ru_ctx r) = (res, c)"
    and "hk_post_stop H (ru_actor r) c = (res', a', c')"
  shows "runner_init H N r evs
    = (r\<lparr>ru_actor := a', ru_ctx := c', ru_life := Terminated, ru_trace := ru_trace r @ [TEmitStopped, TPostStop]\<rparr>, evs)"
proof -
  let ?r = "r\<lparr>ru_actor := a', ru_ctx := c', ru_life := Terminated, ru_trace := ru_trace r @ [TEmitStopped, TPostStop]\<rparr>"
  have "runner_step H N r evs = (True, ?r, evs)"
    using assms by (simp add: runner_step_def observe_def)
  moreover have "runner_step H N ?r evs = (False, ?r, evs)" by (simp add: runner_step_def)
  ultimately show ?thesis by (simp only: runner_init_step runner_init_end)
qed

lemma runner_init_stops:
  assumes "ru_life r = Stopped"
  shows "\<exists>r'. runner_init H N r evs = (r', evs) \<and> ru_life r' = Terminated
    \<and> ru_trace r' = ru_trace r @ [TEmitStopped, TPostStop]"
proof -
  obtain res c where e: "emit_stopped N (ru_ctx r) = (res, c)" by (cases "emit_stopped N (ru_ctx r)")
  obtain res' a' c' where p: "hk_post_stop H (ru_actor r) c = (res', a', c')"
    by (cases "hk_post_stop H (ru_actor r) c") auto
  from runner_init_Stopped [OF assms e p, of evs] show ?thesis by simp
qed

lemma runner_init_fails:
  assumes "ru_life r = Failed"
  shows "\<exists>r'. runner_init H N r evs = (r', evs) \<and> ru_life r' = Terminated
    \<and> ru_trace r' = ru_trace r @ [TEmitStopped, TPostStop]"
proof -
  have "runner_step H N r evs = (True, r\<lparr>ru_life := Stopped\<rparr>, evs)"
    using assms by (simp add: runner_step_def)
  then show ?thesis
    using runner_init_stops [of "r\<lparr>ru_life := Stopped\<rparr>" H N evs] by (simp add: runner_init_step)
qed

lemma runner_init_returns:
  assumes "ru_life r = Started" and "\<not> ru_init r"
    and "run_loop H N evs r = (Some l, r1, evs1)"
  shows "runner_init H N r evs = runner_init H N (r1\<lparr>ru_life := l\<rparr>) evs1"
proof -
  have "send_init (Inr ()) r = r" using assms(2) by (simp add: send_init_def)
  then have "runner_step H N r evs = (True, r1\<lparr>ru_life := l\<rparr>, evs1)"
    using assms(1,3) by (simp add: runner_step_def)
  then show ?thesis by (rule runner_init_step)
qed

text \<open>A start that keeps failing, with \<open>n - k\<close> retries left.\<close>

definition retry_calls :: "strategy \<Rightarrow> nat \<Rightarrow> runner_call list" where
  "retry_calls st n = concat (replicate n (sleeps (fst (next_backoff st)) @ [TRestart]))"

lemma runner_init_retries:
  assumes "hk_strategy H = SRetry st" and "\<And>a c. \<not> is_ok (fst (hk_pre_restart H a c))"
    and "ru_life r = Restarted" and "ru_init r" and "ru_retries r + k = max_retries st"
  shows "\<exists>r'. runner_init H N r evs = (r', evs) \<and> ru_life r' = Terminated
    \<and> ru_trace r' = ru_trace r @ retry_calls st k
      @ [TInit (Inl (start_failure (r\<lparr>ru_retries := max_retries st\<rparr>))), TEmitStopped, TPostStop]"
  using assms(3-5)
proof (induction k arbitrary: r)
  case 0
  let ?r = "send_init (Inl (start_failure r)) (r\<lparr>ru_life := Failed\<rparr>)"
  have "runner_step H N r evs = (True, ?r, evs)"
    using assms(1) 0 by (simp add: runner_step_def apply_supervision_strategy_def start_failure_def)
  then have "runner_init H N r evs = runner_init H N ?r evs" by (rule runner_init_step)
  with runner_init_fails [of ?r H N evs] 0 show ?case
    by (auto simp: retry_calls_def start_failure_def)
next
  case (Suc k)
  obtain d st' where d: "next_backoff st = (d, st')" by (cases "next_backoff st")
  obtain e a c where f: "hk_pre_restart H (ru_actor r) (ru_ctx r) = (Inl e, a, c)"
    using not_okD [OF assms(2)] by blast
  let ?r = "r\<lparr>ru_actor := a, ru_ctx := c, ru_retries := ru_retries r + 1,
    ru_trace := ru_trace r @ sleeps d @ [TRestart]\<rparr>"
  have "apply_supervision_strategy H (SRetry st) r = ?r"
    using Suc.prems d f
    by (cases d) (simp_all add: apply_supervision_strategy_def sleeps_def observe_def Let_def)
  then have "runner_step H N r evs = (True, ?r, evs)"
    using assms(1) Suc.prems by (simp add: runner_step_def)
  then have "runner_init H N r evs = runner_init H N ?r evs" by (rule runner_init_step)
  with Suc.IH [of ?r] Suc.prems d show ?case
    by (auto simp: retry_calls_def start_failure_def)
qed

lemma runner_init_failed_start:
  assumes "hk_strategy H = SRetry st"
    and "\<And>a c. \<not> is_ok (fst (hk_pre_start H a c))" and "\<And>a c. \<not> is_ok (fst (hk_pre_restart H a c))"
    and "ru_life r = Created" and "ru_init r" and "ru_retries r = 0"
  shows "\<exists>r'. runner_init H N r evs = (r', evs) \<and> ru_life r' = Terminated
    \<and> ru_trace r' = ru_trace r @ [TPreStart] @ retry_calls st (max_retries st)
      @ [TInit (Inl (start_failure (r\<lparr>ru_retries := max_retries st\<rparr>))), TEmitStopped, TPostStop]"
proof -
  obtain e a c where f: "hk_pre_start H (ru_actor r) (ru_ctx r) = (Inl e, a, c)"
    using not_okD [OF assms(2)] by blast
  let ?r1 = "(observe TPreStart (r\<lparr>ru_actor := a, ru_ctx := c\<rparr>))\<lparr>ru_life := Restarted\<rparr>"
  have "runner_step H N r evs = (True, ?r1, evs)"
    by (simp add: runner_step_def assms(4) f)
  then have "runner_init H N r evs = runner_init H N ?r1 evs" by (rule runner_init_step)
  with runner_init_retries [OF assms(1,3), of ?r1 "max_retries st" N evs] assms(5,6) show ?thesis
    by (simp add: start_failure_def)
qed

section \<open>Properties\<close>

text \<open>The lifecycle only moves along its edges (a terminated actor never moves
  again, and only a stopped one terminates).\<close>

theorem lifecycle_edges:
  assumes "runner_step H N r evs = (True, r', evs')"
  shows "life_edge (ru_life r) (ru_life r') \<and> ru_life r \<noteq> Terminated
    \<and> (ru_life r' = Terminated \<longrightarrow> ru_life r = Stopped)"
  using runner_step_edge [OF assms] by (auto simp: life_edge_to_Terminated elim: life_edge_TerminatedE)

definition plain_hooks :: "supervision_strategy \<Rightarrow> (nat, nat, 'c) hooks" where
  "plain_hooks s = \<lparr>hk_strategy = s, hk_pre_start = default_pre_start,
     hk_pre_restart = default_pre_restart default_pre_start, hk_pre_stop = default_pre_stop,
     hk_post_stop = default_post_stop, hk_message = (\<lambda>m a c. (a + m, c)),
     hk_child_error = (\<lambda>p e a c. (a, c)), hk_child_fault = (\<lambda>p e a c. (a, c))\<rparr>"

definition log_net :: "(nat, nat, nat, (nat \<times> child_action) list) net_ops" where
  "log_net = \<lparr>nt_action = log_send, nt_signal = (\<lambda>a s w. (Inr (), w)), nt_event = (\<lambda>e w. (Inr (), w))\<rparr>"

definition new_runner :: "(nat, (nat, nat, nat, nat, (nat \<times> child_action) list) ctx) runner" where
  "new_runner = runner_new 0 (ActorPath [''user'', ''a'']) (Some 0) [] [] 1 [] config_default"

theorem lifecycle_edges_witness:
  "life_edge (ru_life new_runner) (ru_life (fst (snd (runner_step (plain_hooks SStop) log_net new_runner []))))"
proof -
  have "runner_step (plain_hooks SStop) log_net new_runner []
      = (True, (observe TPreStart new_runner)\<lparr>ru_life := Started\<rparr>, [])"
    by (simp add: runner_step_def new_runner_def runner_new_def plain_hooks_def default_pre_start_def observe_def)
  from lifecycle_edges [OF this] this show ?thesis by simp
qed

text \<open>C10: whatever the actor's methods, its strategy and the schedule do, the runner
  gets either to termination or to waiting for its next message at the end of the
  schedule; it has answered the init channel exactly once, and it tells its parent
  that it stopped and calls \<open>post_stop\<close> once each, in this order, exactly when it
  terminates.\<close>

theorem runner_answers_once:
  "\<exists>r' evs'. runner_init H N (runner_new actor path signal_sender registry helpers sig w conf) evs = (r', evs')
    \<and> init_calls (ru_trace r') = 1
    \<and> (ru_life r' = Terminated \<and> stop_calls (ru_trace r') = [TEmitStopped, TPostStop]
      \<or> ru_life r' = Started \<and> evs' = [] \<and> stop_calls (ru_trace r') = [])"
proof -
  have "life_ok (runner_new actor path signal_sender registry helpers sig w conf)"
    by (simp add: life_ok_def runner_new_def)
  from runner_init_life_ok [OF this] show ?thesis
    by (cases "runner_init H N (runner_new actor path signal_sender registry helpers sig w conf) evs") blast
qed

text \<open>C13: an actor whose start and restarts all fail is retried exactly
  \<open>max_retries\<close> times, then its creator receives the error naming the path and
  the number of retries, its parent is told it stopped, and it terminates. The
  strategy is made anew at each failure, so the delay before every retry is the
  strategy's first.\<close>

theorem failed_start_retries:
  assumes "hk_strategy H = SRetry st"
    and "\<And>a c. \<not> is_ok (fst (hk_pre_start H a c))" and "\<And>a c. \<not> is_ok (fst (hk_pre_restart H a c))"
  shows "\<exists>r'. runner_init H N (runner_new actor path signal_sender registry helpers sig w conf) evs = (r', evs)
    \<and> ru_life r' = Terminated
    \<and> ru_trace r' = [TPreStart]
        @ concat (replicate (max_retries st) (sleeps (fst (next_backoff st)) @ [TRestart]))
        @ [TInit (Inl (CreateActor (''Actor '' @ path_to_string path @ '' failed to start after ''
             @ dec_digits (max_retries st) @ '' retries.''))), TEmitStopped, TPostStop]"
  using runner_init_failed_start [OF assms, of "runner_new actor path signal_sender registry helpers sig w conf" N evs]
  by (simp add: runner_new_def start_failure_def retry_calls_def)

definition failing_hooks :: "supervision_strategy \<Rightarrow> (nat, nat, 'c) hooks" where
  "failing_hooks s = (plain_hooks s)\<lparr>hk_pre_start := (\<lambda>a c. (Inl InvalidResponse, a, c)),
     hk_pre_restart := (\<lambda>a c. (Inl InvalidResponse, a, c))\<rparr>"

theorem failed_start_retries_witness:
  "\<exists>r' t. runner_init (failing_hooks (SRetry (CustomInterval (custom_interval_new [5, 10])))) log_net new_runner [] = (r', [])
    \<and> ru_trace r' = [TPreStart, TSleep 5, TRestart, TSleep 5, TRestart, TInit (Inl (CreateActor t)), TEmitStopped, TPostStop]"
  using failed_start_retries [of "failing_hooks (SRetry (CustomInterval (custom_interval_new [5, 10])))"
      "CustomInterval (custom_interval_new [5, 10])" log_net 0 "ActorPath [''user'', ''a'']" "Some 0" "[]" "[]" 1 "[]"
      config_default "[]"]
  by (auto simp: failing_hooks_def plain_hooks_def custom_interval_new_def custom_interval_backoff_def sleeps_def
      new_runner_def)

text \<open>A stop request to a running actor without children runs \<open>pre_stop\<close>, tells
  the parent on its signal channel that this path has stopped, runs \<open>post_stop\<close>
  and terminates the actor; what is left of the schedule is not handled.\<close>

theorem stop_without_children:
  assumes "ru_life r = Started" and "\<not> ru_init r"
    and "hk_pre_stop H (ru_actor r) (ru_ctx r) = (Inr (), a1, c1)" and "\<not> ctx_has_childs c1"
    and "cx_signal c1 = Some sg" and "nt_signal N sg (SStopped (cx_path c1)) (cx_world c1) = (res, w)"
    and "hk_post_stop H a1 (cx_set_world w c1) = (p, a2, c2)"
  shows "runner_init H N r (RAction CStop # evs)
    = (r\<lparr>ru_actor := a2, ru_ctx := c2, ru_life := Terminated,
         ru_trace := ru_trace r @ [TPreStop, TEmitStopped, TPostStop]\<rparr>, evs)"
proof -
  let ?r = "r\<lparr>ru_actor := a1, ru_ctx := c1, ru_trace := ru_trace r @ [TPreStop]\<rparr>"
  have "ctx_stop_children N c1 = (Inr False, c1)"
    using assms(4) by (simp add: ctx_stop_children_def sup_stop_children_def ctx_has_childs_def sup_has_childs_def)
  then have "run_loop H N (RAction CStop # evs) r = (Some Stopped, ?r, evs)"
    using assms(3) by (simp add: on_stop_def observe_def Let_def)
  from runner_init_returns [OF assms(1,2) this]
  have "runner_init H N r (RAction CStop # evs) = runner_init H N (?r\<lparr>ru_life := Stopped\<rparr>) evs" .
  moreover have "emit_stopped N (ru_ctx (?r\<lparr>ru_life := Stopped\<rparr>))
      = (actor_supervision (\<lambda>e. e) ''Failed to emit stopped signal'' res, cx_set_world w c1)"
    using assms(5,6) by (simp add: emit_stopped_def)
  ultimately show ?thesis
    using runner_init_Stopped [of "?r\<lparr>ru_life := Stopped\<rparr>" N _ "cx_set_world w c1" H p a2 c2 evs] assms(7) by simp
qed

definition running :: "(nat, (nat, nat, nat, nat, (nat \<times> child_action) list) ctx) runner" where
  "running = new_runner\<lparr>ru_life := Started, ru_init := False\<rparr>"

theorem stop_without_children_witness:
  "ru_life (fst (runner_init (plain_hooks SStop) log_net running [RAction CStop, RMsg 3])) = Terminated"
  using stop_without_children [of running "plain_hooks SStop" "ru_actor running" "ru_ctx running" 0 log_net "Inr ()" "[]"
      "Inr ()" "ru_actor running" "ru_ctx running" "[RMsg 3]"]
  by (simp add: running_def new_runner_def runner_new_def plain_hooks_def default_pre_stop_def default_post_stop_def
      ctx_has_childs_def sup_has_childs_def sup_get_childs_def ctx_new_def sup_new_def hm_keys_def log_net_def
      cx_set_world_def)

text \<open>C24: an actor that is stopped while it has children asks them to stop and goes on
  running, but since that has already taken all of them off the registry, the first
  child that reports its stop lets the parent terminate, however many siblings are
  still stopping.\<close>

theorem parent_stops_after_first_child:
  assumes "ru_life r = Started" and "\<not> ru_init r"
    and "hk_pre_stop H (ru_actor r) (ru_ctx r) = (Inr (), a1, c1)"
    and "sup_books (cx_path c1) (cx_sup c1)" and "\<And>a w. fst (nt_action N a CStop w) = Inr ()"
    and "1 < length (sup_get_childs (cx_path c1) (cx_sup c1))"
  shows "(\<exists>r1. runner_init H N r [RAction CStop] = (r1, []) \<and> ru_life r1 = Started)
    \<and> (\<exists>r2. runner_init H N r (RAction CStop # RSignal (SStopped child) # evs) = (r2, evs)
        \<and> ru_life r2 = Terminated)"
proof -
  have has: "sup_has_childs (cx_path c1) (cx_sup c1)"
    using assms(6) by (auto simp: sup_has_childs_def)
  from stop_children_all [OF assms(4), of "nt_action N", OF assms(5)] has obtain s where
    s: "sup_stop_children (nt_action N) (cx_path c1) (cx_sup c1) = (Inr True, s)"
    "\<not> sup_has_childs (cx_path c1) s" by auto
  let ?r = "r\<lparr>ru_actor := a1, ru_ctx := c1\<lparr>cx_sup := s\<rparr>, ru_trace := ru_trace r @ [TPreStop]\<rparr>"
  have stop: "run_event H N (RAction CStop) r = (None, ?r)"
    using assms(3) s(1) by (simp add: on_stop_def observe_def Let_def ctx_stop_children_def)
  have init: "send_init (Inr ()) r = r" using assms(2) by (simp add: send_init_def)
  have "runner_step H N r [RAction CStop] = (False, ?r, [])"
    using assms(1) init stop by (simp add: runner_step_def)
  then have "runner_init H N r [RAction CStop] = (?r, [])" by (rule runner_init_end)
  moreover have "ru_life ?r = Started" using assms(1) by simp
  ultimately have waits: "\<exists>r1. runner_init H N r [RAction CStop] = (r1, []) \<and> ru_life r1 = Started" by blast
  let ?c = "ctx_remove_child (path_key child) (c1\<lparr>cx_sup := s\<rparr>)"
  have "\<not> ctx_has_childs ?c"
    using s(2) set_get_childs [of _ "cx_path c1"]
    by (auto simp: ctx_has_childs_def sup_has_childs_def ctx_remove_child_def sup_remove_child_def
        sup_get_childs_def filter_empty_conv hm_contains_keys)
  then have "run_loop H N (RAction CStop # RSignal (SStopped child) # evs) r = (Some Stopped, ?r\<lparr>ru_ctx := ?c\<rparr>, evs)"
    using stop by (simp add: Let_def)
  from runner_init_returns [OF assms(1,2) this] waits show ?thesis
    using runner_init_stops [of "(?r\<lparr>ru_ctx := ?c\<rparr>)\<lparr>ru_life := Stopped\<rparr>" H N evs] by auto
qed

definition running_parent :: "(nat, (nat, nat, nat, nat, (nat \<times> child_action) list) ctx) runner" where
  "running_parent = running\<lparr>ru_ctx := ctx_new (ActorPath [''user'']) two_children (Some 0) config_default\<rparr>"

theorem parent_stops_after_first_child_witness:
  "\<exists>r2. runner_init (plain_hooks SStop) log_net running_parent
      [RAction CStop, RSignal (SStopped (ActorPath [''user'', ''a''])), RMsg 3] = (r2, [RMsg 3])
    \<and> ru_life r2 = Terminated"
proof -
  have books: "sup_books (ActorPath [''user'']) two_children"
    by (auto simp: sup_books_def two_children_def sup_get_childs_def hm_keys_def path_parent_def)
  have two: "1 < length (sup_get_childs (ActorPath [''user'']) two_children)"
    by (simp add: two_children_def sup_get_childs_def hm_keys_def path_parent_def)
  have "ru_life running_parent = Started" "\<not> ru_init running_parent"
    by (simp_all add: running_parent_def running_def)
  moreover have "hk_pre_stop (plain_hooks SStop) (ru_actor running_parent) (ru_ctx running_parent)
      = (Inr (), ru_actor running_parent, ctx_new (ActorPath [''user'']) two_children (Some 0) config_default)"
    by (simp add: plain_hooks_def default_pre_stop_def running_parent_def)
  moreover have "fst (nt_action log_net a CStop w) = Inr ()" for a w
    by (simp add: log_net_def log_send_def)
  ultimately show ?thesis
    using parent_stops_after_first_child [where N = log_net and child = "ActorPath [''user'', ''a'']"
        and evs = "[RMsg 3]" and r = running_parent and H = "plain_hooks SStop"
        and ?c1.0 = "ctx_new (ActorPath [''user'']) two_children (Some 0) config_default"] books two
    by (simp add: ctx_new_def)
qed

text \<open>A running actor ends with its last child: when the only child it has reports
  that it stopped, the actor terminates too, without a stop request and without a
  call of \<open>pre_stop\<close>, and what waits in its mailbox is not handled.\<close>

theorem last_child_stops_parent:
  assumes "ru_life r = Started" and "\<not> ru_init r" and "wf_segment name"
    and "set (sup_get_childs (cx_path (ru_ctx r)) (cx_sup (ru_ctx r))) \<subseteq> {path_div (cx_path (ru_ctx r)) name}"
  shows "\<exists>r2. runner_init H N r (RSignal (SStopped (path_div (cx_path (ru_ctx r)) name)) # evs) = (r2, evs)
    \<and> ru_life r2 = Terminated \<and> ru_trace r2 = ru_trace r @ [TEmitStopped, TPostStop]"
proof -
  let ?child = "path_div (cx_path (ru_ctx r)) name"
  let ?c = "ctx_remove_child name (ru_ctx r)"
  have key: "path_key ?child = name"
    using assms(3) by (simp add: path_key_def path_div_segments path_tokens_segment)
  have "\<not> ctx_has_childs ?c"
    using assms(4) set_get_childs [of _ "cx_path (ru_ctx r)"]
    by (auto simp: ctx_has_childs_def sup_has_childs_def ctx_remove_child_def sup_remove_child_def
        sup_get_childs_def filter_empty_conv hm_contains_keys)
  then have "run_loop H N (RSignal (SStopped ?child) # evs) r = (Some Stopped, r\<lparr>ru_ctx := ?c\<rparr>, evs)"
    using key by (simp add: Let_def)
  from runner_init_returns [OF assms(1,2) this] show ?thesis
    using runner_init_stops [of "(r\<lparr>ru_ctx := ?c\<rparr>)\<lparr>ru_life := Stopped\<rparr>" H N evs] by auto
qed

definition only_child :: "(nat, nat, nat, nat, (nat \<times> child_action) list) sup" where
  "only_child = empty_sup\<lparr>su_registry := [(ActorPath [''user'', ''a''], 1)],
     su_senders := [(ActorPath [''user'', ''a''], 1)]\<rparr>"

theorem last_child_stops_parent_witness:
  "\<exists>r2. runner_init (plain_hooks SStop) log_net
      (running\<lparr>ru_ctx := ctx_new (ActorPath [''user'']) only_child (Some 0) config_default\<rparr>)
      [RSignal (SStopped (path_div (ActorPath [''user'']) ''a'')), RMsg 3] = (r2, [RMsg 3]) \<and> ru_life r2 = Terminated"
  using last_child_stops_parent
    [of "running\<lparr>ru_ctx := ctx_new (ActorPath [''user'']) only_child (Some 0) config_default\<rparr>" "''a''"
      "plain_hooks SStop" log_net "[RMsg 3]"]
  by (auto simp: running_def only_child_def ctx_new_def sup_get_childs_def hm_keys_def path_parent_def
      wf_segment_def is_blank_def ws1_def ws2_def ws3_def path_div_def path_tokens_segment)

end
