(* ===== verification/System.thy ===== *)
theory System
  imports Runner
begin

text \<open>
  \<open>System\<close> and \<open>SystemRunner\<close> of \<open>actor/src/system.rs\<close>, and the
  \<open>EventManager\<close> of \<open>actor/src/event.rs\<close>. The system is the supervisor
  of the actors under \<open>/user\<close>; its runner is a task that consumes a schedule
  of what its \<open>select!\<close> takes: the cancellation (ready at every round once the
  token is cancelled), a child's signal, or other tasks' work in between.
\<close>

section \<open>The system\<close>

record ('ref, 'h, 'snd, 'sig, 'w) system =
  sm_root_path :: actor_path
  sm_sup :: "('ref, 'h, 'snd, 'sig, 'w) sup"
  sm_config :: config

definition system_new :: "config \<Rightarrow> 'sig \<Rightarrow> 'w \<Rightarrow> ('ref, 'h, 'snd, 'sig, 'w) system" where
  "system_new conf child_signal_sender w =
     \<lparr>sm_root_path = path_from ''/user'', sm_sup = sup_new [] [] child_signal_sender w, sm_config = conf\<rparr>"

definition system_create_actor ::
  "('ref, 'h, 'snd, 'sig, 'w) starter \<Rightarrow> string \<Rightarrow> ('ref, 'h, 'snd, 'sig, 'w) system
    \<Rightarrow> (actor_error + 'ref) \<times> ('ref, 'h, 'snd, 'sig, 'w) system" where
  "system_create_actor start name sm =
     (let path = path_div (sm_root_path sm) name
      in (case sup_create_actor start (sm_config sm) path (sm_sup sm) of
           (r, s) \<Rightarrow> (r, sm\<lparr>sm_sup := s\<rparr>)))"

definition system_get_actor ::
  "('ref \<Rightarrow> 'a option) \<Rightarrow> string \<Rightarrow> ('ref, 'h, 'snd, 'sig, 'w) system \<Rightarrow> actor_error + 'a option" where
  "system_get_actor downcast name sm = sup_get_actor downcast (path_div (sm_root_path sm) name) (sm_sup sm)"

definition system_actor_exists :: "string \<Rightarrow> ('ref, 'h, 'snd, 'sig, 'w) system \<Rightarrow> actor_error + bool" where
  "system_actor_exists name sm = sup_child_exists (path_div (sm_root_path sm) name) (sm_sup sm)"

definition system_stop_actor ::
  "('ev, 'snd, 'sig, 'w) net_ops \<Rightarrow> string \<Rightarrow> ('ref, 'h, 'snd, 'sig, 'w) system
    \<Rightarrow> (actor_error + unit) \<times> ('ref, 'h, 'snd, 'sig, 'w) system" where
  "system_stop_actor N name sm =
     (case sup_stop_child (nt_action N) (path_div (sm_root_path sm) name) (sm_sup sm) of
       (r, s) \<Rightarrow> (r, sm\<lparr>sm_sup := s\<rparr>))"

definition system_has_childs :: "('ref, 'h, 'snd, 'sig, 'w) system \<Rightarrow> bool" where
  "system_has_childs sm \<longleftrightarrow> sup_has_childs (sm_root_path sm) (sm_sup sm)"

definition system_remove_child ::
  "actor_path \<Rightarrow> ('ref, 'h, 'snd, 'sig, 'w) system \<Rightarrow> ('ref, 'h, 'snd, 'sig, 'w) system" where
  "system_remove_child path sm = sm\<lparr>sm_sup := sup_remove_child path (sm_sup sm)\<rparr>"

text \<open>The children of the failing actor are stopped, not the actor.\<close>

definition system_on_child_error ::
  "('ev, 'snd, 'sig, 'w) net_ops \<Rightarrow> actor_path \<Rightarrow> actor_error \<Rightarrow> ('ref, 'h, 'snd, 'sig, 'w) system
    \<Rightarrow> (actor_error + unit) \<times> ('ref, 'h, 'snd, 'sig, 'w) system" where
  "system_on_child_error N path error sm =
     (case sup_stop_children (nt_action N) path (sm_sup sm) of
       (Inl e, s) \<Rightarrow> (Inl e, sm\<lparr>sm_sup := s\<rparr>)
     | (Inr _, s) \<Rightarrow> (Inr (), sm\<lparr>sm_sup := s\<rparr>))"

definition system_on_child_fault ::
  "('ev, 'snd, 'sig, 'w) net_ops \<Rightarrow> actor_path \<Rightarrow> actor_error \<Rightarrow> ('ref, 'h, 'snd, 'sig, 'w) system
    \<Rightarrow> (actor_error + unit) \<times> ('ref, 'h, 'snd, 'sig, 'w) system" where
  "system_on_child_fault N path error sm =
     (case sup_stop_children (nt_action N) (sm_root_path sm) (sm_sup sm) of
       (Inl e, s) \<Rightarrow> (Inl e, sm\<lparr>sm_sup := s\<rparr>)
     | (Inr _, s) \<Rightarrow> (Inr (), sm\<lparr>sm_sup := s\<rparr>))"

definition system_stop_children ::
  "('ev, 'snd, 'sig, 'w) net_ops \<Rightarrow> ('ref, 'h, 'snd, 'sig, 'w) system
    \<Rightarrow> (actor_error + bool) \<times> ('ref, 'h, 'snd, 'sig, 'w) system" where
  "system_stop_children N sm =
     (case sup_stop_children (nt_action N) (sm_root_path sm) (sm_sup sm) of
       (r, s) \<Rightarrow> (r, sm\<lparr>sm_sup := s\<rparr>))"

definition system_add_helper ::
  "string \<Rightarrow> 'h \<Rightarrow> ('ref, 'h, 'snd, 'sig, 'w) system \<Rightarrow> ('ref, 'h, 'snd, 'sig, 'w) system" where
  "system_add_helper name helper sm = sm\<lparr>sm_sup := sup_add_helper name helper (sm_sup sm)\<rparr>"

definition system_get_helper ::
  "('h \<Rightarrow> 'a option) \<Rightarrow> string \<Rightarrow> ('ref, 'h, 'snd, 'sig, 'w) system \<Rightarrow> 'a option" where
  "system_get_helper downcast name sm = sup_get_helper downcast name (sm_sup sm)"

section \<open>The system's runner\<close>

datatype 's system_event =
    SysCancelled
  | SysSignal actor_signal
  | SysOther "'s \<Rightarrow> 's"

text \<open>One round: whether the loop breaks, and the shutdown flag with the system.\<close>

fun system_signal ::
  "('ev, 'snd, 'sig, 'w) net_ops \<Rightarrow> actor_signal \<Rightarrow> bool \<Rightarrow> ('ref, 'h, 'snd, 'sig, 'w) system
    \<Rightarrow> bool \<times> ('ref, 'h, 'snd, 'sig, 'w) system" where
  "system_signal N (SError path error) shutdown sm = (False, snd (system_on_child_error N path error sm))"
| "system_signal N (SFault path error) shutdown sm = (False, snd (system_on_child_fault N path error sm))"
| "system_signal N (SStopped path) shutdown sm =
     (let sm = system_remove_child path sm in (shutdown \<and> \<not> system_has_childs sm, sm))"

fun system_round ::
  "('ev, 'snd, 'sig, 'w) net_ops \<Rightarrow> ('ref, 'h, 'snd, 'sig, 'w) sup system_event \<Rightarrow> bool
    \<Rightarrow> ('ref, 'h, 'snd, 'sig, 'w) system \<Rightarrow> bool \<times> bool \<times> ('ref, 'h, 'snd, 'sig, 'w) system" where
  "system_round N SysCancelled shutdown sm =
     (case system_stop_children N sm of
       (Inr has_children, sm) \<Rightarrow> (\<not> has_children, True, sm)
     | (Inl e, sm) \<Rightarrow> (False, True, sm))"
| "system_round N (SysSignal s) shutdown sm =
     (case system_signal N s shutdown sm of (stop, sm) \<Rightarrow> (stop, shutdown, sm))"
| "system_round N (SysOther f) shutdown sm = (False, shutdown, sm\<lparr>sm_sup := f (sm_sup sm)\<rparr>)"

fun system_run ::
  "('ev, 'snd, 'sig, 'w) net_ops \<Rightarrow> ('ref, 'h, 'snd, 'sig, 'w) sup system_event list \<Rightarrow> bool
    \<Rightarrow> ('ref, 'h, 'snd, 'sig, 'w) system
    \<Rightarrow> bool \<times> ('ref, 'h, 'snd, 'sig, 'w) system \<times> ('ref, 'h, 'snd, 'sig, 'w) sup system_event list" where
  "system_run N [] shutdown sm = (False, sm, [])"
| "system_run N (ev # evs) shutdown sm =
     (case system_round N ev shutdown sm of (stop, shutdown, sm) \<Rightarrow>
       if stop then (True, sm, evs) else system_run N evs shutdown sm)"

section \<open>The event manager\<close>

text \<open>What \<open>recv\<close> on a broadcast receiver answers.\<close>

datatype 'e event_recv =
    Event_Ok 'e
  | Event_Closed
  | Event_Lagged nat

text \<open>The loop over what the receiver answers; \<open>notify\<close> acts on the world.\<close>

fun event_manager_start :: "('e \<Rightarrow> 'w \<Rightarrow> 'w) \<Rightarrow> 'e event_recv list \<Rightarrow> 'w \<Rightarrow> bool \<times> 'w" where
  "event_manager_start notify [] w = (False, w)"
| "event_manager_start notify (Event_Ok event # rs) w = event_manager_start notify rs (notify event w)"
| "event_manager_start notify (Event_Closed # rs) w = (True, w)"
| "event_manager_start notify (Event_Lagged count # rs) w = event_manager_start notify rs w"

fun received :: "'e event_recv list \<Rightarrow> 'e list" where
  "received [] = []"
| "received (Event_Ok e # rs) = e # received rs"
| "received (Event_Closed # rs) = []"
| "received (Event_Lagged n # rs) = received rs"

section \<open>Properties\<close>

text \<open>The event manager hands every event it receives to its handler, once and in
  order, skips over a lag, and ends exactly when the channel closes.\<close>

theorem event_manager_notifies:
  "event_manager_start notify rs w = (Event_Closed \<in> set rs, foldl (\<lambda>w e. notify e w) w (received rs))"
  by (induction notify rs w rule: event_manager_start.induct) auto

text \<open>C25: cancelling the system asks each top-level actor to stop once, and the runner
  does not wait for them: at the next round, whether it is the cancellation again or
  the first child to report its stop, it ends, because the registry no longer holds
  the children that are still stopping.\<close>

theorem shutdown_does_not_wait:
  assumes "sup_books (sm_root_path sm) (sm_sup sm)" and "system_has_childs sm"
    and "\<And>a w. fst (nt_action N a CStop w) = Inr ()"
    and "next = SysCancelled \<or> next = SysSignal (SStopped child)"
  shows "\<exists>sm1 sm2. system_run N [SysCancelled] False sm = (False, sm1, [])
    \<and> su_world (sm_sup sm1) = foldl (\<lambda>w p. snd (nt_action N (the (map_of (su_senders (sm_sup sm)) p)) CStop w))
        (su_world (sm_sup sm)) (sup_get_childs (sm_root_path sm) (sm_sup sm))
    \<and> system_run N (SysCancelled # next # evs) False sm = (True, sm2, evs)"
proof -
  have has: "sup_has_childs (sm_root_path sm) (sm_sup sm)"
    using assms(2) by (simp add: system_has_childs_def)
  from stop_children_all [OF assms(1), of "nt_action N", OF assms(3)] has obtain s where
    s: "sup_stop_children (nt_action N) (sm_root_path sm) (sm_sup sm) = (Inr True, s)"
    "su_world s = foldl (\<lambda>w p. snd (nt_action N (the (map_of (su_senders (sm_sup sm)) p)) CStop w))
        (su_world (sm_sup sm)) (sup_get_childs (sm_root_path sm) (sm_sup sm))"
    "\<not> sup_has_childs (sm_root_path sm) s" by auto
  let ?sm = "sm\<lparr>sm_sup := s\<rparr>"
  have "\<exists>sm2. system_round N next True ?sm = (True, True, sm2)"
    using assms(4)
  proof
    assume "next = SysCancelled"
    moreover have "sup_get_childs (sm_root_path sm) s = []" using s(3) by (simp add: sup_has_childs_def)
    ultimately show ?thesis by (simp add: system_stop_children_def sup_stop_children_def)
  next
    assume "next = SysSignal (SStopped child)"
    moreover have "\<not> sup_has_childs (sm_root_path sm) (sup_remove_child child s)"
      using s(3) by (auto simp: sup_has_childs_def sup_remove_child_def sup_get_childs_def
          filter_empty_conv)
    ultimately show ?thesis by (simp add: system_has_childs_def system_remove_child_def Let_def)
  qed
  then show ?thesis
    using s by (auto simp: system_stop_children_def)
qed

definition two_actor_system :: "(nat, nat, nat, nat, (nat \<times> child_action) list) system" where
  "two_actor_system = \<lparr>sm_root_path = ActorPath [''user''], sm_sup = two_children, sm_config = config_default\<rparr>"

theorem shutdown_does_not_wait_witness:
  "fst (system_run log_net [SysCancelled, SysSignal (SStopped (ActorPath [''user'', ''a'']))] False two_actor_system)"
proof -
  have books: "sup_books (sm_root_path two_actor_system) (sm_sup two_actor_system)"
    by (auto simp: sup_books_def two_actor_system_def two_children_def sup_get_childs_def hm_keys_def path_parent_def)
  have has: "system_has_childs two_actor_system"
    by (simp add: system_has_childs_def two_actor_system_def two_children_def sup_has_childs_def
        sup_get_childs_def hm_keys_def path_parent_def)
  have "fst (nt_action log_net a CStop w) = Inr ()" for a w
    by (simp add: log_net_def log_send_def)
  from shutdown_does_not_wait [OF books has this, of "SysSignal (SStopped (ActorPath [''user'', ''a'']))"
      "ActorPath [''user'', ''a'']" "[]"]
  show ?thesis by auto
qed

text \<open>C35: an error signal from a top-level actor makes the system stop that actor's
  children, whose stop channels belong to the actor and not to the system: the call
  fails at the first of them, which is off the registry from then on while nothing
  was sent to it.\<close>

theorem child_error_unregisters_grandchild:
  assumes "sup_books (sm_root_path sm) (sm_sup sm)" and "path \<noteq> sm_root_path sm"
    and "sup_get_childs path (sm_sup sm) = g # gs"
  shows "\<exists>t sm'. system_on_child_error N path e sm = (Inl (Supervision t), sm')
    \<and> sup_child_exists g (sm_sup sm') = Inr False \<and> su_world (sm_sup sm') = su_world (sm_sup sm)"
proof -
  have g: "path_parent g = path"
    using set_get_childs [of g path "sm_sup sm"] assms(3) by simp
  then have "g \<notin> set (sup_get_childs (sm_root_path sm) (sm_sup sm))"
    using assms(2) by (auto simp: set_get_childs)
  then have "g \<notin> set (hm_keys (su_senders (sm_sup sm)))"
    using assms(1) by (simp add: sup_books_def)
  then have "map_of (su_senders (sm_sup sm)) g = None"
    by (simp add: map_of_eq_None_hm hm_contains_keys)
  from stop_child_unknown [OF this, of "nt_action N"] assms(3) show ?thesis
    by (auto simp: system_on_child_error_def sup_stop_children_def sup_child_exists_def)
qed

definition family_system :: "(nat, nat, nat, nat, (nat \<times> child_action) list) system" where
  "family_system = \<lparr>sm_root_path = ActorPath [''user''],
     sm_sup = two_children\<lparr>su_registry := (ActorPath [''user'', ''a'', ''x''], 3) # su_registry two_children\<rparr>,
     sm_config = config_default\<rparr>"

theorem child_error_unregisters_grandchild_witness:
  "\<exists>t sm'. system_on_child_error log_net (ActorPath [''user'', ''a'']) InvalidResponse family_system
      = (Inl (Supervision t), sm')"
proof -
  have "sup_books (sm_root_path family_system) (sm_sup family_system)"
    by (auto simp: sup_books_def family_system_def two_children_def sup_get_childs_def hm_keys_def path_parent_def)
  moreover have "sup_get_childs (ActorPath [''user'', ''a'']) (sm_sup family_system) = [ActorPath [''user'', ''a'', ''x'']]"
    by (simp add: family_system_def two_children_def sup_get_childs_def hm_keys_def path_parent_def)
  ultimately show ?thesis
    using child_error_unregisters_grandchild [of family_system "ActorPath [''user'', ''a'']"
        "ActorPath [''user'', ''a'', ''x'']" "[]" log_net InvalidResponse]
    by (auto simp: family_system_def)
qed

end
