(* ===== verification/Events.thy ===== *)
theory Events
  imports Handler System "HOL-Library.AList" "HOL-Library.Sublist"
begin

text \<open>
  Events from the actor that emits them (\<open>ActorContext::emit_event\<close>) through
  the broadcast channel that its reference carries (\<open>ActorRef::new\<close>, \<open>subscribe\<close> and
  \<open>clone\<close>, \<open>actor/src/actor.rs\<close>) to the handlers that listen
  (\<open>EventManager\<close>, \<open>actor/src/event.rs\<close>, started by \<open>System::add_event_handler\<close>).
  The broadcast channel is tokio's: its calls are the record \<open>broadcast_ops\<close>, what they
  promise is the locale \<open>event_bus\<close>, and a log with one position per receiver
  provides it.
\<close>

section \<open>The broadcast channel\<close>

text \<open>\<open>recv\<close> answers nothing while it has to wait. \<open>bc_close\<close> is the drop of the sender,
  with the context of an actor that has ended.\<close>

record ('e, 'rx, 'w) broadcast_ops =
  bc_send :: "'e \<Rightarrow> 'w \<Rightarrow> (string + nat) \<times> 'w"
  bc_resubscribe :: "'rx \<Rightarrow> 'w \<Rightarrow> 'rx \<times> 'w"
  bc_recv :: "'rx \<Rightarrow> 'w \<Rightarrow> 'e event_recv option \<times> 'w"
  bc_close :: "'w \<Rightarrow> 'w"

text \<open>The event sender of an actor's context.\<close>

definition event_sender ::
  "('e, 'rx, 'w) broadcast_ops \<Rightarrow> ('ev, 'snd, 'sig, 'w) net_ops \<Rightarrow> ('e, 'snd, 'sig, 'w) net_ops" where
  "event_sender B N = \<lparr>nt_action = nt_action N, nt_signal = nt_signal N,
     nt_event = (\<lambda>e w. map_prod (map_sum id (\<lambda>_. ())) id (bc_send B e w))\<rparr>"

section \<open>References and managers\<close>

record ('m, 'r, 'w, 'rx) event_ref = "('m, 'r, 'w) actor_ref" +
  ar_events :: 'rx

definition actor_ref_new :: "actor_path \<Rightarrow> ('m, 'r, 'w) channel_ops \<Rightarrow> 'rx \<Rightarrow> ('m, 'r, 'w, 'rx) event_ref" where
  "actor_ref_new path handler event_receiver =
     \<lparr>ar_path = path, ar_handler = handler, ar_events = event_receiver\<rparr>"

definition ref_path :: "('m, 'r, 'w, 'rx) event_ref \<Rightarrow> actor_path" where
  "ref_path a = ar_path a"

definition ref_subscribe :: "('e, 'rx, 'w) broadcast_ops \<Rightarrow> ('m, 'r, 'v, 'rx) event_ref \<Rightarrow> 'w \<Rightarrow> 'rx \<times> 'w" where
  "ref_subscribe B a w = bc_resubscribe B (ar_events a) w"

definition ref_clone ::
  "('e, 'rx, 'w) broadcast_ops \<Rightarrow> ('m, 'r, 'v, 'rx) event_ref \<Rightarrow> 'w \<Rightarrow> ('m, 'r, 'v, 'rx) event_ref \<times> 'w" where
  "ref_clone B a w =
     (case bc_resubscribe B (ar_events a) w of (rx, w) \<Rightarrow>
       (\<lparr>ar_path = ar_path a, ar_handler = ar_handler a, ar_events = rx\<rparr>, w))"

record ('e, 'h, 'rx) event_manager =
  em_notify :: "'e \<Rightarrow> 'h \<Rightarrow> 'h"
  em_receiver :: 'rx

definition event_manager_new :: "('e \<Rightarrow> 'h \<Rightarrow> 'h) \<Rightarrow> 'rx \<Rightarrow> ('e, 'h, 'rx) event_manager" where
  "event_manager_new handler receiver = \<lparr>em_notify = handler, em_receiver = receiver\<rparr>"

text \<open>\<open>System::add_event_handler\<close> starts one more task.\<close>

definition add_event_handler ::
  "('e \<Rightarrow> 'h \<Rightarrow> 'h) \<Rightarrow> 'rx \<Rightarrow> ('e, 'h, 'rx) event_manager list \<Rightarrow> ('e, 'h, 'rx) event_manager list" where
  "add_event_handler handler receiver tasks = tasks @ [event_manager_new handler receiver]"

text \<open>What the receiver answers until it has to wait or the channel is closed, at most
  \<open>n\<close> times, and the loop of the manager over these answers.\<close>

fun answers :: "('e, 'rx, 'w) broadcast_ops \<Rightarrow> 'rx \<Rightarrow> nat \<Rightarrow> 'w \<Rightarrow> 'e event_recv list \<times> 'w" where
  "answers B k 0 w = ([], w)"
| "answers B k (Suc n) w =
     (case bc_recv B k w of
       (None, w) \<Rightarrow> ([], w)
     | (Some Event_Closed, w) \<Rightarrow> ([Event_Closed], w)
     | (Some a, w) \<Rightarrow> (case answers B k n w of (as, w) \<Rightarrow> (a # as, w)))"

definition manager_run ::
  "('e, 'rx, 'w) broadcast_ops \<Rightarrow> ('e, 'h, 'rx) event_manager \<Rightarrow> nat \<Rightarrow> 'h \<Rightarrow> 'w \<Rightarrow> (bool \<times> 'h) \<times> 'w" where
  "manager_run B m n h w =
     (case answers B (em_receiver m) n w of (as, w) \<Rightarrow> (event_manager_start (em_notify m) as h, w))"

text \<open>One round of the loop of \<open>EventManager::start\<close>; a manager whose loop has ended does
  nothing, one that has to wait stays as it is.\<close>

definition manager_round ::
  "('e, 'rx, 'w) broadcast_ops \<Rightarrow> ('e, 'h, 'rx) event_manager \<Rightarrow> bool \<times> 'h \<Rightarrow> 'w \<Rightarrow> (bool \<times> 'h) \<times> 'w" where
  "manager_round B m x w =
     (if fst x then (x, w)
      else (case bc_recv B (em_receiver m) w of
             (None, w) \<Rightarrow> (x, w)
           | (Some a, w) \<Rightarrow> (event_manager_start (em_notify m) [a] (snd x), w)))"

text \<open>An actor that emits and a manager that reads, in the order in which their steps happen,
  with what other tasks do to the channel in between.\<close>

datatype ('e, 'w) event_step = Emitted 'e | Polled | Elsewhere "'w \<Rightarrow> 'w"

fun event_run ::
  "('e, 'rx, 'w) broadcast_ops \<Rightarrow> ('ev, 'snd, 'sig, 'w) net_ops \<Rightarrow> ('e, 'h, 'rx) event_manager
    \<Rightarrow> ('e, 'w) event_step list \<Rightarrow> bool \<times> 'h \<Rightarrow> ('ref, 'hp, 'snd, 'sig, 'w) ctx
    \<Rightarrow> (bool \<times> 'h) \<times> ('ref, 'hp, 'snd, 'sig, 'w) ctx" where
  "event_run B N m [] x c = (x, c)"
| "event_run B N m (Emitted e # ss) x c = event_run B N m ss x (snd (emit_event (event_sender B N) e c))"
| "event_run B N m (Polled # ss) x c =
     (case manager_round B m x (cx_world c) of (x, w) \<Rightarrow> event_run B N m ss x (cx_set_world w c))"
| "event_run B N m (Elsewhere g # ss) x c = event_run B N m ss x (cx_set_world (g (cx_world c)) c)"

fun emitted :: "('e, 'w) event_step list \<Rightarrow> 'e list" where
  "emitted [] = []"
| "emitted (Emitted e # ss) = e # emitted ss"
| "emitted (_ # ss) = emitted ss"

text \<open>Other tasks subscribe, read and drop their own receivers.\<close>

definition undisturbed ::
  "('w \<Rightarrow> bool) \<Rightarrow> ('w \<Rightarrow> bool) \<Rightarrow> ('rx \<Rightarrow> 'w \<Rightarrow> (nat \<times> 'e list) option) \<Rightarrow> 'rx \<Rightarrow> ('e, 'w) event_step list \<Rightarrow> bool" where
  "undisturbed sound alive view k ss \<longleftrightarrow> (\<forall>g w. Elsewhere g \<in> set ss \<longrightarrow> sound w \<and> view k w \<noteq> None \<longrightarrow>
     sound (g w) \<and> alive (g w) = alive w \<and> view k (g w) = view k w)"

text \<open>The manager, \<open>b\<close> events behind, is never more than \<open>room\<close> behind.\<close>

fun keeps_up :: "nat \<Rightarrow> nat \<Rightarrow> ('e, 'w) event_step list \<Rightarrow> bool" where
  "keeps_up room b [] \<longleftrightarrow> True"
| "keeps_up room b (Emitted e # ss) \<longleftrightarrow> b < room \<and> keeps_up room (Suc b) ss"
| "keeps_up room b (Polled # ss) \<longleftrightarrow> keeps_up room (b - 1) ss"
| "keeps_up room b (Elsewhere g # ss) \<longleftrightarrow> keeps_up room b ss"

section \<open>What the code relies on\<close>

text \<open>A receiver is seen as the number of events it has missed and those it can still
  read; a channel keeps \<open>room\<close> events.\<close>

definition push_event :: "nat \<Rightarrow> 'e \<Rightarrow> nat \<times> 'e list \<Rightarrow> nat \<times> 'e list" where
  "push_event room e v =
     (if length (snd v) < room then (fst v, snd v @ [e]) else (Suc (fst v), tl (snd v) @ [e]))"

fun pop_event :: "bool \<Rightarrow> nat \<times> 'e list \<Rightarrow> 'e event_recv option \<times> nat \<times> 'e list" where
  "pop_event open (Suc n, es) = (Some (Event_Lagged (Suc n)), 0, es)"
| "pop_event open (0, e # es) = (Some (Event_Ok e), 0, es)"
| "pop_event open (0, []) = (if open then None else Some Event_Closed, 0, [])"

locale event_bus =
  fixes B :: "('e, 'rx, 'w) broadcast_ops"
    and ok :: "'w \<Rightarrow> bool" and alive :: "'w \<Rightarrow> bool"
    and view :: "'rx \<Rightarrow> 'w \<Rightarrow> (nat \<times> 'e list) option"
    and room :: nat
  assumes room: "0 < room"
    and send: "ok w \<Longrightarrow> view k w \<noteq> None \<Longrightarrow> \<exists>c w'. bc_send B e w = (Inr c, w') \<and> ok w' \<and> alive w' = alive w
        \<and> (\<forall>j. view j w' = map_option (push_event room e) (view j w))"
    and send_none: "ok w \<Longrightarrow> \<forall>k. view k w = None \<Longrightarrow> bc_send B e w = (Inl ''channel closed'', w)"
    and resubscribe: "ok w \<Longrightarrow> \<exists>j w'. bc_resubscribe B k w = (j, w') \<and> ok w' \<and> alive w' = alive w \<and> view j w = None
        \<and> (\<forall>i. view i w' = (if i = j then Some (0, []) else view i w))"
    and recv: "ok w \<Longrightarrow> view k w = Some v \<Longrightarrow> \<exists>w'. bc_recv B k w = (fst (pop_event (alive w) v), w') \<and> ok w'
        \<and> alive w' = alive w \<and> (\<forall>i. view i w' = (if i = k then Some (snd (pop_event (alive w) v)) else view i w))"
    and close: "ok w \<Longrightarrow> ok (bc_close B w) \<and> \<not> alive (bc_close B w) \<and> view k (bc_close B w) = view k w"
begin

lemma emit_pushes:
  assumes "ok (cx_world c)" and "view k (cx_world c) = Some v"
  shows "\<exists>c'. emit_event (event_sender B N) e c = (Inr (), c') \<and> ok (cx_world c') \<and> alive (cx_world c') = alive (cx_world c)
    \<and> (\<forall>j. view j (cx_world c') = map_option (push_event room e) (view j (cx_world c)))"
proof -
  obtain n w' where "bc_send B e (cx_world c) = (Inr n, w')" "ok w'" "alive w' = alive (cx_world c)"
    "\<forall>j. view j w' = map_option (push_event room e) (view j (cx_world c))"
    using send [OF assms(1)] assms(2) by (metis option.distinct(1))
  then show ?thesis by (simp add: emit_event_def event_sender_def)
qed

lemma reads_pending:
  assumes "ok w" and "view k w = Some (0, es)" and "length es < n"
  shows "\<exists>w'. answers B k n w = (map Event_Ok es @ (if alive w then [] else [Event_Closed]), w')"
  using assms
proof (induction es arbitrary: n w)
  case Nil
  then obtain m where n: "n = Suc m" by (cases n) auto
  from recv [OF Nil.prems(1,2)] obtain w' where "bc_recv B k w = (fst (pop_event (alive w) (0, [] :: 'e list)), w')" by blast
  then show ?case by (cases "alive w") (simp_all add: n)
next
  case (Cons e es)
  then obtain m where n: "n = Suc m" by (cases n) auto
  from recv [OF Cons.prems(1,2)] obtain w' where w': "bc_recv B k w = (Some (Event_Ok e), w')" "ok w'"
    "alive w' = alive w" "view k w' = Some (0, es)" by auto
  from Cons.IH [OF w'(2,4), of m] Cons.prems(3) w' show ?case by (auto simp: n)
qed

lemma reads_all:
  assumes "ok w" and "view k w = Some (m, es)" and "Suc (length es) < n"
  shows "\<exists>w'. answers B k n w
    = ((if m = 0 then [] else [Event_Lagged m]) @ map Event_Ok es @ (if alive w then [] else [Event_Closed]), w')"
proof (cases m)
  case 0
  with reads_pending [OF assms(1), of k es n] assms show ?thesis by auto
next
  case (Suc i)
  obtain n' where n: "n = Suc n'" "length es < n'" using assms(3) by (cases n) auto
  from recv [OF assms(1,2)] Suc obtain w' where w': "bc_recv B k w = (Some (Event_Lagged m), w')" "ok w'"
    "alive w' = alive w" "view k w' = Some (0, es)" by auto
  from reads_pending [OF w'(2,4) n(2)] w' show ?thesis by (auto simp: n Suc)
qed

lemma received_answers:
  "event_manager_start f (map Event_Ok es) h = (False, foldl (\<lambda>h e. f e h) h es)"
  "event_manager_start f (map Event_Ok es @ [Event_Closed]) h = (True, foldl (\<lambda>h e. f e h) h es)"
  by (induction es arbitrary: h) simp_all

text \<open>What a manager has told its handler, and what it can still read, of the events
  emitted since it subscribed.\<close>

definition followed :: "'e list \<Rightarrow> 'e list \<Rightarrow> nat \<times> 'e list \<Rightarrow> bool" where
  "followed es told v \<longleftrightarrow> (\<exists>as. es = as @ snd v \<and> subseq told as) \<and> length (snd v) \<le> room
     \<and> suffix (drop (length es - room) es) (told @ snd v)"

lemma followed_push:
  assumes "followed es told v"
  shows "followed (es @ [e]) told (push_event room e v)"
proof -
  obtain m ps where v: "v = (m, ps)" by (cases v)
  obtain as where as: "es = as @ ps" "subseq told as" "length ps \<le> room"
    "suffix (drop (length es - room) es) (told @ ps)"
    using assms by (auto simp: followed_def v)
  show ?thesis
  proof (cases "length ps < room")
    case True
    obtain i where "Suc (length es) - room = i + (length es - room)"
      using le_Suc_ex [OF diff_le_mono [of "length es" "Suc (length es)" room]] by (auto simp: add.commute)
    then have "suffix (drop (Suc (length es) - room) es) (drop (length es - room) es)"
      by (simp only: drop_drop [symmetric] suffix_drop)
    moreover have "drop (Suc (length es) - room) (es @ [e]) = drop (Suc (length es) - room) es @ [e]"
      using room by simp
    ultimately have "suffix (drop (Suc (length es) - room) (es @ [e])) (drop (length es - room) es @ [e])"
      by simp
    moreover have "suffix (drop (length es - room) es @ [e]) ((told @ ps) @ [e])"
      using as(4) by (simp only: snoc_suffix_snoc)
    ultimately have "suffix (drop (Suc (length es) - room) (es @ [e])) ((told @ ps) @ [e])"
      by (rule suffix_order.trans)
    with as True show ?thesis by (auto simp: followed_def push_event_def v)
  next
    case False
    then obtain x qs where ps: "ps = x # qs" "length ps = room" using as(3) room by (cases ps) auto
    then have "drop (Suc (length es) - room) (es @ [e]) = qs @ [e]" by (simp add: as(1))
    moreover have "es @ [e] = (as @ [x]) @ (qs @ [e])" "subseq told (as @ [x])"
      using as(1,2) ps(1) by (auto intro: subseq_rev_drop_many)
    moreover have "push_event room e v = (Suc m, qs @ [e])"
      using False ps by (simp add: push_event_def v)
    ultimately show ?thesis
      using ps by (simp add: followed_def) (metis append.assoc suffix_appendI suffix_order.refl)
  qed
qed

lemma followed_pop:
  assumes "followed es told v" and "pop_event True v = (a, v')"
  shows "followed es (told @ received (case a of None \<Rightarrow> [] | Some a \<Rightarrow> [a])) v'"
proof (cases "(True, v)" rule: pop_event.cases)
  case (2 b e ps)
  then obtain as where "es = (as @ [e]) @ ps" "subseq told as" using assms(1) by (auto simp: followed_def)
  then show ?thesis
    using assms 2 by (fastforce simp: followed_def)
qed (use assms in \<open>auto simp: followed_def\<close>)

definition caught_up :: "'e list \<Rightarrow> 'e list \<Rightarrow> nat \<times> 'e list \<Rightarrow> bool" where
  "caught_up es told v \<longleftrightarrow> fst v = 0 \<and> es = told @ snd v"

lemma event_run_followed:
  assumes "ok (cx_world c)" and "alive (cx_world c)" and "view (em_receiver m) (cx_world c) = Some v"
    and "followed es told v" and "undisturbed ok alive view (em_receiver m) ss"
    and "h1 = foldl (\<lambda>h e. em_notify m e h) h told"
  shows "\<exists>told' c' v'. event_run B N m ss (False, h1) c = ((False, foldl (\<lambda>h e. em_notify m e h) h told'), c')
    \<and> ok (cx_world c') \<and> alive (cx_world c') \<and> view (em_receiver m) (cx_world c') = Some v'
    \<and> followed (es @ emitted ss) told' v'
    \<and> (keeps_up room (length (snd v)) ss \<and> caught_up es told v \<longrightarrow> caught_up (es @ emitted ss) told' v')
    \<and> (Polled \<notin> set ss \<longrightarrow> told' = told)"
  using assms
proof (induction ss arbitrary: c v es told h1)
  case Nil
  then show ?case by (intro exI [of _ told] exI [of _ c] exI [of _ v]) simp
next
  case (Cons s ss)
  have u: "undisturbed ok alive view (em_receiver m) ss" using Cons.prems(5) by (simp add: undisturbed_def)
  show ?case
  proof (cases s)
    case (Emitted e)
    obtain c1 where c1: "emit_event (event_sender B N) e c = (Inr (), c1)" "ok (cx_world c1)" "alive (cx_world c1)"
      "view (em_receiver m) (cx_world c1) = Some (push_event room e v)"
      using emit_pushes [OF Cons.prems(1,3), of N e] Cons.prems(2,3) by auto
    have "length (snd v) < room \<Longrightarrow> length (snd (push_event room e v)) = Suc (length (snd v))
        \<and> (caught_up es told v \<longrightarrow> caught_up (es @ [e]) told (push_event room e v))"
      by (simp add: push_event_def caught_up_def)
    with Cons.IH [OF c1(2-4) followed_push [OF Cons.prems(4)] u Cons.prems(6)]
    show ?thesis by (fastforce simp: Emitted c1(1))
  next
    case (Elsewhere g)
    with Cons.prems(5) have "ok (g (cx_world c))" "alive (g (cx_world c))" "view (em_receiver m) (g (cx_world c)) = Some v"
      using Cons.prems(1-3) by (auto simp: undisturbed_def)
    with Cons.IH [of "cx_set_world (g (cx_world c)) c", OF _ _ _ Cons.prems(4) u Cons.prems(6)]
    show ?thesis by (simp add: Elsewhere)
  next
    case Polled
    obtain a v1 where pop: "pop_event True v = (a, v1)" by (cases "pop_event True v")
    let ?t = "received (case a of None \<Rightarrow> [] | Some a \<Rightarrow> [a])"
    obtain w1 where w1: "bc_recv B (em_receiver m) (cx_world c) = (a, w1)" "ok w1" "alive w1"
      "view (em_receiver m) w1 = Some v1"
      using recv [OF Cons.prems(1,3)] Cons.prems(2) pop by auto
    have a: "a \<noteq> Some Event_Closed \<and> (caught_up es told v \<longrightarrow> caught_up es (told @ ?t) v1)
        \<and> (fst v = 0 \<longrightarrow> length (snd v1) = length (snd v) - 1)"
      using pop by (cases "(True, v)" rule: pop_event.cases) (auto simp: caught_up_def)
    have lag: "caught_up es told v \<Longrightarrow> fst v = 0" by (simp add: caught_up_def)
    from a have round: "manager_round B m (False, h1) (cx_world c)
        = ((False, foldl (\<lambda>h e. em_notify m e h) h (told @ ?t)), w1)"
      using w1(1) Cons.prems(6)
      by (cases a) (auto simp: manager_round_def event_manager_notifies)
    have p: "ok (cx_world (cx_set_world w1 c))" "alive (cx_world (cx_set_world w1 c))"
      "view (em_receiver m) (cx_world (cx_set_world w1 c)) = Some v1"
      using w1(2-4) Cons.prems(2) by simp_all
    from Cons.IH [OF p followed_pop [OF Cons.prems(4) pop] u refl] show ?thesis
    proof (elim exE conjE, goal_cases)
      case (1 told' c' v')
      moreover have "keeps_up room (length (snd v) - 1) ss \<and> caught_up es told v \<longrightarrow> caught_up (es @ emitted ss) told' v'"
        using 1(6) a lag by metis
      ultimately show ?case
        by (intro exI [of _ told'] exI [of _ c'] exI [of _ v']) (simp add: Polled round)
    qed
  qed
qed

lemma notified:
  assumes "ok (cx_world c)" and "alive (cx_world c)" and "ref_subscribe B a (cx_world c) = (k, w)"
    and "undisturbed ok alive view k ss" and "Suc room < n" and "m = event_manager_new f k"
    and "event_run B N m ss (False, h) (cx_set_world w c) = (x, c')"
  shows "\<exists>ts. \<not> fst x \<and> fst (manager_run B m n (snd x) (cx_world c')) = (False, foldl (\<lambda>h e. f e h) h ts)
    \<and> fst (manager_run B m n (snd x) (bc_close B (cx_world c'))) = (True, foldl (\<lambda>h e. f e h) h ts)
    \<and> subseq ts (emitted ss) \<and> suffix (drop (length (emitted ss) - room) (emitted ss)) ts
    \<and> (keeps_up room 0 ss \<longrightarrow> ts = emitted ss)
    \<and> (Polled \<notin> set ss \<longrightarrow> ts = drop (length (emitted ss) - room) (emitted ss))"
proof -
  have w: "ok w" "alive w" "view k w = Some (0, [])"
    using resubscribe [OF assms(1), of "ar_events a"] assms(2,3) by (auto simp: ref_subscribe_def)
  have m: "em_receiver m = k" "em_notify m = f" by (simp_all add: assms(6) event_manager_new_def)
  have "followed [] [] (0, [])" "caught_up [] [] (0, [])" by (simp_all add: followed_def caught_up_def)
  with event_run_followed [of "cx_set_world w c" m "(0, [])" "[]" "[]" ss h h N] w assms(4,7)
  obtain told ms ps where r: "x = (False, foldl (\<lambda>h e. f e h) h told)" "ok (cx_world c')" "alive (cx_world c')"
    "view k (cx_world c') = Some (ms, ps)" "followed (emitted ss) told (ms, ps)"
    "keeps_up room 0 ss \<longrightarrow> caught_up (emitted ss) told (ms, ps)" "Polled \<notin> set ss \<longrightarrow> told = []"
    by (auto simp: m)
  obtain as where f: "emitted ss = as @ ps" "subseq told as" "length ps \<le> room"
    "suffix (drop (length (emitted ss) - room) (emitted ss)) (told @ ps)"
    using r(5) by (auto simp: followed_def)
  have n: "Suc (length ps) < n" using f(3) assms(5) by simp
  have 1: "fst (manager_run B m n (snd x) (cx_world c')) = (False, foldl (\<lambda>h e. f e h) h (told @ ps))"
    using reads_all [OF r(2,4) n] r(1,3) by (auto simp: manager_run_def m received_answers)
  from close [OF r(2), of k] r(4) have "ok (bc_close B (cx_world c'))" "\<not> alive (bc_close B (cx_world c'))"
    "view k (bc_close B (cx_world c')) = Some (ms, ps)" by simp_all
  from reads_all [OF this(1,3) n] this(2)
  have 2: "fst (manager_run B m n (snd x) (bc_close B (cx_world c'))) = (True, foldl (\<lambda>h e. f e h) h (told @ ps))"
    using r(1) by (auto simp: manager_run_def m received_answers)
  have 3: "ps = drop (length (emitted ss) - room) (emitted ss)" if "told = []"
  proof -
    have "suffix ps (drop (length (emitted ss) - room) (emitted ss))"
      using f(1,3) by (auto simp: suffix_def)
    with f(4) that show ?thesis by (simp add: suffix_order.antisym)
  qed
  have "subseq (told @ ps) (emitted ss)" using f(1,2) by (simp add: list_emb_append_mono)
  with 1 2 3 f(4) r(1,6,7) show ?thesis
    by (intro exI [of _ "told @ ps"]) (auto simp: caught_up_def)
qed

lemma refused:
  assumes "ok (cx_world c)" and "\<forall>k. view k (cx_world c) = None"
  shows "emit_event (event_sender B N) e c = (Inl (Event ''Failed to emit event: channel closed''), c)"
  using send_none [OF assms] by (simp add: emit_event_def event_sender_def with_context_def cx_set_world_def)

end

section \<open>A log with one position per receiver\<close>

record 'e bus =
  bs_room :: nat
  bs_log :: "'e list"
  bs_receivers :: "(nat \<times> nat) list"
  bs_next :: nat
  bs_open :: bool

definition bus_new :: "nat \<Rightarrow> 'e bus" where
  "bus_new room = \<lparr>bs_room = room, bs_log = [], bs_receivers = [(0, 0)], bs_next = 1, bs_open = True\<rparr>"

definition bus_ops :: "('e, nat, 'e bus) broadcast_ops" where
  "bus_ops = \<lparr>
     bc_send = (\<lambda>e b. if bs_receivers b = [] then (Inl ''channel closed'', b)
       else (Inr (length (bs_receivers b)), b\<lparr>bs_log := bs_log b @ [e]\<rparr>)),
     bc_resubscribe = (\<lambda>k b. (bs_next b,
       b\<lparr>bs_next := Suc (bs_next b), bs_receivers := (bs_next b, length (bs_log b)) # bs_receivers b\<rparr>)),
     bc_recv = (\<lambda>k b. case map_of (bs_receivers b) k of
         None \<Rightarrow> (None, b)
       | Some pos \<Rightarrow>
           (let first = length (bs_log b) - bs_room b;
                move = (\<lambda>pos. b\<lparr>bs_receivers := AList.update k pos (bs_receivers b)\<rparr>)
            in if pos < first then (Some (Event_Lagged (first - pos)), move first)
               else if pos < length (bs_log b) then (Some (Event_Ok (bs_log b ! pos)), move (Suc pos))
               else (if bs_open b then None else Some Event_Closed, b))),
     bc_close = (\<lambda>b. b\<lparr>bs_open := False\<rparr>) \<rparr>"

definition bus_ok :: "nat \<Rightarrow> 'e bus \<Rightarrow> bool" where
  "bus_ok room b \<longleftrightarrow> bs_room b = room \<and> (\<forall>(k, pos) \<in> set (bs_receivers b). k < bs_next b \<and> pos \<le> length (bs_log b))"

definition bus_view :: "nat \<Rightarrow> 'e bus \<Rightarrow> (nat \<times> 'e list) option" where
  "bus_view k b = map_option (\<lambda>pos. let first = length (bs_log b) - bs_room b
     in (first - pos, drop (max first pos) (bs_log b))) (map_of (bs_receivers b) k)"

lemma bus_ok_pos: "bus_ok room b \<Longrightarrow> map_of (bs_receivers b) k = Some pos \<Longrightarrow> pos \<le> length (bs_log b) \<and> k < bs_next b"
  by (auto simp: bus_ok_def dest!: map_of_SomeD)

lemma bus_view_None: "(\<forall>k. bus_view k b = None) \<longleftrightarrow> bs_receivers b = []"
  by (cases "bs_receivers b") (auto simp: bus_view_def)

lemma bus_view_push:
  assumes "bus_ok (Suc r) b" and "b' = b\<lparr>bs_log := bs_log b @ [e]\<rparr>"
  shows "bus_view j b' = map_option (push_event (Suc r) e) (bus_view j b)"
proof (cases "map_of (bs_receivers b) j")
  case (Some pos)
  let ?n = "length (bs_log b)"
  have n: "pos \<le> ?n" "bs_room b = Suc r" using bus_ok_pos [OF assms(1) Some] assms(1) by (auto simp: bus_ok_def)
  show ?thesis
  proof (cases "?n - max (?n - Suc r) pos < Suc r")
    case True
    then have "Suc ?n - Suc r \<le> pos" using n by linarith
    then have "Suc ?n - Suc r - pos = 0" "?n - Suc r - pos = 0" "max (Suc ?n - Suc r) pos = pos" "max (?n - Suc r) pos = pos" by auto
    then show ?thesis
      using True n Some assms(2) by (simp add: bus_view_def push_event_def Let_def del: diff_Suc_Suc)
  next
    case False
    then have *: "Suc r \<le> ?n" "pos \<le> ?n - Suc r" using n by linarith+
    then have "max (Suc ?n - Suc r) pos = Suc (?n - Suc r)" "max (?n - Suc r) pos = ?n - Suc r"
      "Suc ?n - Suc r - pos = Suc (?n - Suc r - pos)" by auto
    then show ?thesis
      using * n Some assms(2) by (simp add: bus_view_def push_event_def Let_def drop_Suc tl_drop [symmetric] del: diff_Suc_Suc)
  qed
qed (simp add: bus_view_def assms(2))

lemma bus_view_pop:
  assumes "bus_ok room b" and "bus_view k b = Some v"
  shows "\<exists>b'. bc_recv bus_ops k b = (fst (pop_event (bs_open b) v), b') \<and> bus_ok room b'
    \<and> bs_open b' = bs_open b \<and> (\<forall>i. bus_view i b' = (if i = k then Some (snd (pop_event (bs_open b) v)) else bus_view i b))"
proof -
  obtain pos where pos: "map_of (bs_receivers b) k = Some pos" using assms(2) by (auto simp: bus_view_def)
  define first where "first = length (bs_log b) - bs_room b"
  have le: "pos \<le> length (bs_log b)" "k < bs_next b" using bus_ok_pos [OF assms(1) pos] by auto
  have v: "v = (first - pos, drop (max first pos) (bs_log b))"
    using assms(2) pos by (simp add: bus_view_def first_def Let_def)
  have move: "bus_ok room (b\<lparr>bs_receivers := AList.update k p (bs_receivers b)\<rparr>)
    \<and> (\<forall>i. bus_view i (b\<lparr>bs_receivers := AList.update k p (bs_receivers b)\<rparr>)
      = (if i = k then Some (first - p, drop (max first p) (bs_log b)) else bus_view i b))"
    if p: "p \<le> length (bs_log b)" for p
  proof -
    have "set (AList.update k p xs) \<subseteq> insert (k, p) (set xs)" for xs
      by (induction xs) auto
    from this [of "bs_receivers b"] have "bus_ok room (b\<lparr>bs_receivers := AList.update k p (bs_receivers b)\<rparr>)"
      using assms(1) p le by (fastforce simp: bus_ok_def)
    then show ?thesis by (simp add: bus_view_def update_conv' first_def Let_def)
  qed
  consider "pos < first" | "first \<le> pos" "pos < length (bs_log b)" | "first \<le> pos" "pos = length (bs_log b)" using le by linarith
  then show ?thesis
  proof cases
    case 1
    have "first \<le> length (bs_log b)" by (simp add: first_def)
    from move [OF this] 1 show ?thesis
      by (cases "first - pos") (simp_all add: v bus_ops_def pos first_def [symmetric] Let_def max_def)
  next
    case 2
    then have "Suc pos \<le> length (bs_log b)" by simp
    from move [OF this] 2 show ?thesis
      by (simp add: v bus_ops_def pos first_def [symmetric] Let_def max_def Cons_nth_drop_Suc [symmetric])
  next
    case 3
    then show ?thesis
      using assms pos by (auto simp: v bus_ops_def first_def [symmetric] Let_def max_def)
  qed
qed

lemma bus_view_resubscribe:
  assumes "bus_ok room b"
  shows "\<exists>j b'. bc_resubscribe bus_ops k b = (j, b') \<and> bus_ok room b' \<and> bs_open b' = bs_open b \<and> bus_view j b = None
    \<and> (\<forall>i. bus_view i b' = (if i = j then Some (0, []) else bus_view i b))"
proof -
  have "map_of (bs_receivers b) (bs_next b) = None"
    using bus_ok_pos [OF assms, of "bs_next b"] by (cases "map_of (bs_receivers b) (bs_next b)") auto
  moreover have "bus_ok room (b\<lparr>bs_next := Suc (bs_next b), bs_receivers := (bs_next b, length (bs_log b)) # bs_receivers b\<rparr>)"
    using assms by (auto simp: bus_ok_def)
  ultimately show ?thesis by (auto simp: bus_ops_def bus_view_def)
qed

interpretation bus: event_bus bus_ops "bus_ok (Suc r)" bs_open bus_view "Suc r" for r
proof (unfold_locales, goal_cases)
  case (2 w k e)
  then have "bs_receivers w \<noteq> []" using bus_view_None [of w] by auto
  then show ?case
    using bus_view_push [OF 2(1) refl, of _ e] 2(1) by (auto simp: bus_ops_def bus_ok_def)
next
  case (3 w e)
  then show ?case by (simp add: bus_view_None bus_ops_def)
next
  case (4 w k)
  then show ?case by (rule bus_view_resubscribe)
next
  case (5 w k v)
  then show ?case by (rule bus_view_pop)
next
  case (6 w k)
  then show ?case by (simp add: bus_ops_def bus_ok_def bus_view_def)
qed simp

section \<open>Properties\<close>

text \<open>C16: a handler that subscribes through a reference of an actor that is alive, and is started with
  \<open>add_event_handler\<close>, is told events emitted since, each at most once, in the order of
  their emission, and none from before, however the actor's emissions, the rounds of its own
  manager and what other tasks do with receivers of theirs follow each other. It is always told the
  last events, as many as the channel keeps; it is told every event if it is
  never behind by more than those; and it is told exactly the last ones if it reads
  only after all have been emitted. Its manager waits for more while the actor lives and ends
  when the actor is gone. The channel is any that keeps the laws of \<open>event_bus\<close>.\<close>

theorem subscriber_notified:
  assumes "event_bus B sound alive view room" and "sound (cx_world c)" and "alive (cx_world c)"
    and "ref_subscribe B a (cx_world c) = (k, w)" and "add_event_handler f k [] = [m]"
    and "undisturbed sound alive view k ss" and "Suc room < n"
    and "event_run B N m ss (False, h) (cx_set_world w c) = (x, c')"
  shows "\<exists>ts. \<not> fst x \<and> fst (manager_run B m n (snd x) (cx_world c')) = (False, foldl (\<lambda>h e. f e h) h ts)
    \<and> fst (manager_run B m n (snd x) (bc_close B (cx_world c'))) = (True, foldl (\<lambda>h e. f e h) h ts)
    \<and> subseq ts (emitted ss) \<and> suffix (drop (length (emitted ss) - room) (emitted ss)) ts
    \<and> (keeps_up room 0 ss \<longrightarrow> ts = emitted ss)
    \<and> (Polled \<notin> set ss \<longrightarrow> ts = drop (length (emitted ss) - room) (emitted ss))"
proof -
  have "m = event_manager_new f k" using assms(5) by (simp add: add_event_handler_def)
  from event_bus.notified [OF assms(1-4,6,7) this assms(8)] show ?thesis .
qed

definition bus_ctx :: "(nat, nat, nat, nat, nat bus) ctx" where
  "bus_ctx = ctx_new (ActorPath [''user'', ''a'']) (sup_new [] [] 0 (bus_new 2)) None config_default"

definition quiet_net :: "(nat, nat, nat, nat bus) net_ops" where
  "quiet_net = \<lparr>nt_action = (\<lambda>_ _ w. (Inr (), w)), nt_signal = (\<lambda>_ _ w. (Inr (), w)), nt_event = (\<lambda>_ w. (Inr (), w))\<rparr>"

text \<open>Room for two events: the manager reads 7 in time, then three more are emitted before its
  next round, and it has missed 8.\<close>

definition late_steps :: "(nat, nat bus) event_step list" where
  "late_steps = [Emitted 7, Polled, Emitted 8, Elsewhere (snd \<circ> bc_resubscribe bus_ops 0), Emitted 9, Emitted 10, Polled]"

theorem subscriber_notified_witness:
  "\<exists>w x c'. ref_subscribe bus_ops (actor_ref_new (ActorPath []) (cell_channels counter_handler) 0) (cx_world bus_ctx) = (1, w)
    \<and> event_run bus_ops quiet_net (event_manager_new (\<lambda>e h. h @ [e]) 1) late_steps (False, []) (cx_set_world w bus_ctx) = (x, c')
    \<and> (\<exists>ts. fst (manager_run bus_ops (event_manager_new (\<lambda>e h. h @ [e]) 1) 5 (snd x) (cx_world c')) = (False, ts)
        \<and> suffix [9, 10] ts \<and> subseq ts [7, 8, 9, 10])"
proof -
  let ?a = "actor_ref_new (ActorPath []) (cell_channels counter_handler) 0 :: (nat, nat, (nat, nat, nat) cell, nat) event_ref"
  let ?m = "event_manager_new (\<lambda>e h. h @ [e]) 1 :: (nat, nat list, nat) event_manager"
  obtain w where w: "ref_subscribe bus_ops ?a (cx_world bus_ctx) = (1, w)"
    by (simp add: ref_subscribe_def bus_ops_def bus_ctx_def ctx_new_def sup_new_def bus_new_def)
  have ok: "bus_ok (Suc 1) (cx_world bus_ctx)" "bs_open (cx_world bus_ctx)"
    by (simp_all add: bus_ok_def bus_ctx_def ctx_new_def sup_new_def bus_new_def)
  have "add_event_handler (\<lambda>e h. h @ [e]) 1 [] = [?m]" by (simp add: add_event_handler_def)
  moreover have "undisturbed (bus_ok (Suc 1)) bs_open bus_view 1 late_steps"
    unfolding undisturbed_def
  proof (intro allI impI)
    fix g :: "nat bus \<Rightarrow> nat bus" and w :: "nat bus"
    assume g: "Elsewhere g \<in> set late_steps" and w: "bus_ok (Suc 1) w \<and> bus_view 1 w \<noteq> None"
    from bus_view_resubscribe [of "Suc 1" w 0] w obtain j b' where "bc_resubscribe bus_ops 0 w = (j, b')"
      "bus_ok (Suc 1) b'" "bs_open b' = bs_open w" "bus_view 1 b' = bus_view 1 w" by (metis option.distinct(1))
    with g show "bus_ok (Suc 1) (g w) \<and> bs_open (g w) = bs_open w \<and> bus_view 1 (g w) = bus_view 1 w"
      by (auto simp: late_steps_def)
  qed
  moreover obtain x c' where run: "event_run bus_ops quiet_net ?m late_steps (False, []) (cx_set_world w bus_ctx) = (x, c')"
    by (cases "event_run bus_ops quiet_net ?m late_steps (False, []) (cx_set_world w bus_ctx)")
  ultimately obtain ts where "fst (manager_run bus_ops ?m 5 (snd x) (cx_world c')) = (False, foldl (\<lambda>h e. h @ [e]) [] ts)"
    "subseq ts (emitted late_steps)" "suffix (drop (length (emitted late_steps) - Suc 1) (emitted late_steps)) ts"
    using subscriber_notified [OF bus.event_bus_axioms ok w, of _ ?m late_steps 5 quiet_net "[]" x c'] by auto
  moreover have "foldl (\<lambda>h e. h @ [e]) as bs = as @ bs" for as bs :: "nat list"
    by (induction bs arbitrary: as) simp_all
  moreover have "emitted late_steps = [7, 8, 9, 10]" by (simp add: late_steps_def)
  ultimately show ?thesis
    using w run by (intro exI [of _ w] exI [of _ x] exI [of _ c'] exI [of _ ts] conjI) simp_all
qed

text \<open>An event that nobody can receive is refused, and nothing changes: once the
  last reference to the actor is gone \<open>emit_event\<close> answers an error, while with any
  reference left it succeeds, even if no one listens.\<close>

lemma emit_needs_reference:
  assumes "bus_ok (Suc r) (cx_world c)"
  shows "if bs_receivers (cx_world c) = []
    then emit_event (event_sender bus_ops N) e c = (Inl (Event ''Failed to emit event: channel closed''), c)
    else fst (emit_event (event_sender bus_ops N) e c) = Inr ()"
proof (cases "bs_receivers (cx_world c) = []")
  case True
  with bus.refused [OF assms, of N e] show ?thesis by (simp add: bus_view_None)
next
  case False
  then obtain k where "bus_view k (cx_world c) \<noteq> None" using bus_view_None [of "cx_world c"] by blast
  then obtain v where "bus_view k (cx_world c) = Some v" by blast
  from bus.emit_pushes [OF assms this, of N e] False show ?thesis by auto
qed

end
