(* ===== verification/Orders.thy ===== *)
theory Orders
  imports Runner
begin

text \<open>
  What the two orders of a parent, \<open>ChildAction::Stop\<close> and
  \<open>ChildAction::Restart\<close>, come to when they meet the rest of the runner
  (\<open>actor/src/runner.rs\<close>): a stop that finds a child already gone, and a restart
  under each supervision strategy.
\<close>

section \<open>Stopping over a child that is gone\<close>

lemma stop_children_gone:
  assumes "sup_get_childs parent s = p # ps" and "map_of (su_senders s) p = Some a"
    and "send a CStop (su_world s) = (Inl e, w)"
  shows "sup_stop_children send parent s
    = (Inl (Supervision (with_context (\<lambda>e. e) ''Failed to send stop action to child'' e)),
       (unregister p s)\<lparr>su_world := w\<rparr>)"
  using assms by (simp add: sup_stop_children_def sup_stop_child_def Let_def)


text \<open>A net that keeps what is sent on it, where the channel \<open>gone\<close> is closed, and a running
  actor with two children on it.\<close>

datatype traffic = Asked nat child_action | Signalled nat actor_signal

definition wire_net :: "nat option \<Rightarrow> (nat, nat, nat, traffic list) net_ops" where
  "wire_net gone =
     \<lparr>nt_action = (\<lambda>a act w. if gone = Some a then (Inl ''channel closed'', w) else (Inr (), w @ [Asked a act])),
      nt_signal = (\<lambda>a s w. (Inr (), w @ [Signalled a s])), nt_event = (\<lambda>e w. (Inr (), w))\<rparr>"

definition wired_children :: "(nat, nat, nat, nat, traffic list) sup" where
  "wired_children = \<lparr>su_registry = [(ActorPath [''user'', ''a''], 1), (ActorPath [''user'', ''b''], 2)],
     su_helpers = [], su_senders = [(ActorPath [''user'', ''a''], 10), (ActorPath [''user'', ''b''], 20)],
     su_signal = 0, su_world = []\<rparr>"

definition wired_parent :: "(nat, (nat, nat, nat, nat, traffic list) ctx) runner" where
  "wired_parent = \<lparr>ru_actor = 0, ru_path = ActorPath [''user''],
     ru_ctx = ctx_new (ActorPath [''user'']) wired_children (Some 0) config_default,
     ru_life = Started, ru_retries = 0, ru_init = False, ru_trace = []\<rparr>"


section \<open>Restarting\<close>

lemma restart_loop_all:
  assumes "\<And>a w. a \<in> set as \<Longrightarrow> fst (send a CRestart w) = Inr ()"
  shows "restart_loop send as s
    = (Inr (), s\<lparr>su_world := foldl (\<lambda>w a. snd (send a CRestart w)) (su_world s) as\<rparr>)"
  using assms
proof (induction as arbitrary: s)
  case (Cons a as)
  obtain w where w: "send a CRestart (su_world s) = (Inr (), w)"
    using Cons.prems [of a "su_world s"] by (cases "send a CRestart (su_world s)") auto
  show ?case using Cons.IH [of "s\<lparr>su_world := w\<rparr>"] Cons.prems w by simp
qed simp

text \<open>The context after every child has been asked to restart.\<close>

definition asked_restart ::
  "('ev, 'snd, 'sig, 'w) net_ops \<Rightarrow> ('ref, 'h, 'snd, 'sig, 'w) ctx \<Rightarrow> ('ref, 'h, 'snd, 'sig, 'w) ctx" where
  "asked_restart N c = cx_set_world
     (foldl (\<lambda>w a. snd (nt_action N a CRestart w)) (cx_world c) (map snd (su_senders (cx_sup c)))) c"

lemma restart_children_all:
  assumes "\<And>a w. a \<in> snd ` set (su_senders (cx_sup c)) \<Longrightarrow> fst (nt_action N a CRestart w) = Inr ()"
  shows "ctx_restart_children N c = (Inr (), asked_restart N c)"
  using restart_loop_all [of "map snd (su_senders (cx_sup c))" "nt_action N" "cx_sup c"] assms
  by (simp add: ctx_restart_children_def sup_restart_children_def asked_restart_def cx_set_world_def)

text \<open>C26: a running actor that is ordered to restart, and whose children can be reached,
  first asks each of them once to restart, in the order of its senders, and then applies
  its own strategy. With no retry left, which the default \<open>Stop\<close> never has, it
  terminates: all that it sends after those requests is the report to its parent, so no child
  is asked to stop, and \<open>pre_restart\<close> does not run. With a retry left it waits the first
  delay, runs \<open>pre_restart\<close>, and when that succeeds goes on running with its retries
  counted anew.\<close>

theorem restart_order:
  assumes "ru_life r = Started" and "\<not> ru_init r"
    and "\<And>a w. a \<in> snd ` set (su_senders (cx_sup (ru_ctx r))) \<Longrightarrow> fst (nt_action N a CRestart w) = Inr ()"
    and "emit_stopped N (asked_restart N (ru_ctx r)) = (x, c1)" and "hk_post_stop H (ru_actor r) c1 = (y, a1, c2)"
    and "hk_pre_restart H (ru_actor r) (asked_restart N (ru_ctx r)) = (Inr (), a3, c3)"
  shows "runner_init H N r (RAction CRestart # evs)
    = (case hk_strategy H of
        SRetry st \<Rightarrow>
          if ru_retries r < max_retries st
          then runner_init H N (r\<lparr>ru_actor := a3, ru_ctx := c3, ru_retries := 0,
            ru_trace := ru_trace r @ sleeps (fst (next_backoff st)) @ [TRestart]\<rparr>) evs
          else (r\<lparr>ru_actor := a1, ru_ctx := c2, ru_life := Terminated,
            ru_trace := ru_trace r @ [TEmitStopped, TPostStop]\<rparr>, evs)
      | SStop \<Rightarrow> (r\<lparr>ru_actor := a1, ru_ctx := c2, ru_life := Terminated,
            ru_trace := ru_trace r @ [TEmitStopped, TPostStop]\<rparr>, evs))"
proof -
  let ?c = "asked_restart N (ru_ctx r)"
  let ?r1 = "r\<lparr>ru_ctx := ?c, ru_life := Restarted\<rparr>"
  let ?halted = "r\<lparr>ru_actor := a1, ru_ctx := c2, ru_life := Terminated,
            ru_trace := ru_trace r @ [TEmitStopped, TPostStop]\<rparr>"
  have "run_loop H N (RAction CRestart # evs) r = (Some Restarted, r\<lparr>ru_ctx := ?c\<rparr>, evs)"
    using restart_children_all [of "ru_ctx r" N] assms(3) by (simp add: on_restart_def)
  from runner_init_returns [OF assms(1,2) this]
  have start: "runner_init H N r (RAction CRestart # evs) = runner_init H N ?r1 evs" by simp
  have ends: "runner_init H N ?r1 evs = (?halted, evs)"
    if "apply_supervision_strategy H (hk_strategy H) ?r1 = ?r1\<lparr>ru_life := Failed\<rparr>"
  proof -
    have "runner_step H N ?r1 evs = (True, ?r1\<lparr>ru_life := Failed\<rparr>, evs)"
      using assms(2) that by (simp add: runner_step_def send_init_def)
    moreover have "runner_step H N (?r1\<lparr>ru_life := Failed\<rparr>) evs = (True, ?r1\<lparr>ru_life := Stopped\<rparr>, evs)"
      by (simp add: runner_step_def)
    moreover have "runner_init H N (?r1\<lparr>ru_life := Stopped\<rparr>) evs = (?halted, evs)"
      using runner_init_Stopped [of "?r1\<lparr>ru_life := Stopped\<rparr>" N x c1 H y a1 c2 evs] assms(4,5) by simp
    ultimately show ?thesis by (simp add: runner_init_step)
  qed
  show ?thesis
  proof (cases "hk_strategy H")
    case SStop
    then show ?thesis using start ends by (simp add: apply_supervision_strategy_def)
  next
    case (SRetry st)
    obtain d st' where d: "next_backoff st = (d, st')" by (cases "next_backoff st")
    let ?r3 = "r\<lparr>ru_actor := a3, ru_ctx := c3, ru_retries := 0, ru_trace := ru_trace r @ sleeps d @ [TRestart]\<rparr>"
    show ?thesis
    proof (cases "ru_retries r < max_retries st")
      case True
      then have "apply_supervision_strategy H (SRetry st) ?r1 = ?r3"
        using assms(1,6) d
        by (cases d) (simp_all add: apply_supervision_strategy_def sleeps_def observe_def Let_def)
      then have "runner_step H N ?r1 evs = (True, ?r3, evs)"
        using SRetry assms(1) by (simp add: runner_step_def Let_def)
      from runner_init_step [OF this] start SRetry True d show ?thesis by simp
    next
      case False
      then show ?thesis using SRetry start ends by (simp add: apply_supervision_strategy_def)
    qed
  qed
qed

lemma wired_restart: "asked_restart (wire_net None) (ru_ctx wired_parent)
    = cx_set_world [Asked 10 CRestart, Asked 20 CRestart] (ru_ctx wired_parent)"
  by (simp add: asked_restart_def wire_net_def wired_parent_def wired_children_def ctx_new_def)

theorem restart_order_witness:
  "cx_world (ru_ctx (fst (runner_init (plain_hooks SStop) (wire_net None) wired_parent [RAction CRestart])))
     = [Asked 10 CRestart, Asked 20 CRestart, Signalled 0 (SStopped (ActorPath [''user'']))]
   \<and> ru_life (fst (runner_init (plain_hooks SStop) (wire_net None) wired_parent [RAction CRestart])) = Terminated
   \<and> (let r = fst (runner_init (plain_hooks (SRetry (NoInterval (no_interval_new 2)))) (wire_net None) wired_parent [RAction CRestart])
      in ru_life r = Started \<and> cx_world (ru_ctx r) = [Asked 10 CRestart, Asked 20 CRestart]
        \<and> ru_trace r = [TRestart])"
proof -
  let ?r = "\<lambda>H. runner_init H (wire_net None) wired_parent [RAction CRestart]"
  have reach: "fst (nt_action (wire_net None) a CRestart w) = Inr ()" for a w
    by (simp add: wire_net_def)
  have own: "ru_life wired_parent = Started" "\<not> ru_init wired_parent" "ru_retries wired_parent = 0"
    "ru_trace wired_parent = []" "cx_path (ru_ctx wired_parent) = ActorPath [''user'']"
    "cx_signal (ru_ctx wired_parent) = Some 0"
    by (simp_all add: wired_parent_def ctx_new_def)
  let ?c = "cx_set_world [Asked 10 CRestart, Asked 20 CRestart] (ru_ctx wired_parent)"
  have stop: "emit_stopped (wire_net None) ?c = (Inr (), cx_set_world
      [Asked 10 CRestart, Asked 20 CRestart, Signalled 0 (SStopped (ActorPath [''user'']))] ?c)"
    by (simp add: emit_stopped_def own wire_net_def)
  have h: "hk_post_stop (plain_hooks st) a c = (Inr (), a, c)" "hk_pre_restart (plain_hooks st) a c = (Inr (), a, c)"
    "hk_strategy (plain_hooks st) = st" for st a and c :: "(nat, nat, nat, nat, traffic list) ctx"
    by (simp_all add: plain_hooks_def default_post_stop_def default_pre_restart_def default_pre_start_def)
  note o = restart_order [where N = "wire_net None" and r = wired_parent and evs = "[]", OF own(1,2) reach,
      unfolded wired_restart, OF stop h(1) h(2)]
  have rest: "runner_init (plain_hooks st) (wire_net None) (wired_parent\<lparr>ru_ctx := c, ru_retries := 0, ru_trace := t\<rparr>) []
      = (wired_parent\<lparr>ru_ctx := c, ru_retries := 0, ru_trace := t\<rparr>, [])" for st c t
    by (rule runner_init_end) (simp add: runner_step_def own send_init_def)
  show ?thesis
    using o [of SStop] o [of "SRetry (NoInterval (no_interval_new 2))"] rest
    by (simp add: h own Let_def no_interval_new_def no_interval_backoff_def sleeps_def)
qed

end
