(* ===== verification/Spawn.thy ===== *)
theory Spawn
  imports Orders
begin

text \<open>
  \<open>SupervicionHandler::create_actor\<close> of \<open>actor/src/system.rs\<close> put together with
  the runner it spawns (\<open>actor/src/runner.rs\<close>): the argument \<open>start\<close> of
  \<open>sup_create_actor\<close> becomes a run of \<open>runner_init\<close> on a fresh runner over the
  shared maps, and the first answer on the init channel is the first \<open>TInit\<close> of its
  trace. The schedule is what the new actor receives before its creator goes on.
\<close>

section \<open>Spawning a runner\<close>

fun init_answer :: "runner_call list \<Rightarrow> (actor_error + unit) option" where
  "init_answer [] = None"
| "init_answer (TInit r # tr) = Some r"
| "init_answer (_ # tr) = init_answer tr"

definition spawned ::
  "('a, 'm, ('ref, 'h, 'snd, 'sig, 'w) ctx) hooks \<Rightarrow> ('ev, 'snd, 'sig, 'w) net_ops \<Rightarrow> 'a \<Rightarrow> 'sig
    \<Rightarrow> ('m, ('ref, 'h, 'snd, 'sig, 'w) ctx) runner_event list
    \<Rightarrow> 'sig \<Rightarrow> config \<Rightarrow> actor_path \<Rightarrow> ('ref, 'h, 'snd, 'sig, 'w) sup
    \<Rightarrow> ('a, ('ref, 'h, 'snd, 'sig, 'w) ctx) runner" where
  "spawned H N actor child_signal evs sig conf path s =
     fst (runner_init H N
       (runner_new actor path (Some sig) (su_registry s) (su_helpers s) child_signal (su_world s) conf) evs)"

definition spawn ::
  "('a, 'm, ('ref, 'h, 'snd, 'sig, 'w) ctx) hooks \<Rightarrow> ('ev, 'snd, 'sig, 'w) net_ops \<Rightarrow> 'a \<Rightarrow> 'ref \<Rightarrow> 'snd \<Rightarrow> 'sig
    \<Rightarrow> ('m, ('ref, 'h, 'snd, 'sig, 'w) ctx) runner_event list \<Rightarrow> ('ref, 'h, 'snd, 'sig, 'w) starter" where
  "spawn H N actor actor_ref action_sender child_signal evs sig conf path s =
     (let r = spawned H N actor child_signal evs sig conf path s
      in (\<lparr>st_init = init_answer (ru_trace r), st_ref = actor_ref, st_sender = action_sender\<rparr>,
          s\<lparr>su_registry := su_registry (cx_sup (ru_ctx r)), su_helpers := su_helpers (cx_sup (ru_ctx r)),
            su_world := cx_world (ru_ctx r)\<rparr>))"

section \<open>The answer a runner gives\<close>

lemma init_answer_append:
  "init_answer (a @ b) = (case init_answer a of None \<Rightarrow> init_answer b | Some r \<Rightarrow> Some r)"
  by (induction a rule: init_answer.induct) auto

lemma init_answer_None: "init_answer tr = None \<longleftrightarrow> init_calls tr = 0"
  by (induction tr rule: init_answer.induct) auto

lemma init_answer_quiet [simp]:
  "init_answer (sleeps d) = None" "init_answer (replicate n TPreStop) = None"
  by (simp_all add: init_answer_None)

text \<open>The only error a runner answers is \<open>CreateActor\<close>, and then it is on its way out.\<close>

definition answer_ok :: "('a, 'c) runner \<Rightarrow> bool" where
  "answer_ok r \<longleftrightarrow> life_ok r \<and>
     (\<forall>e. init_answer (ru_trace r) = Some (Inl e) \<longrightarrow>
        (\<exists>t. e = CreateActor t) \<and> ru_life r \<in> {Failed, Stopped, Terminated})"

lemma append_quiet_answer [simp]:
  "init_answer (tr @ sleeps d @ [TRestart]) = init_answer tr"
  "init_answer (tr @ replicate n TPreStop) = init_answer tr"
  by (cases "init_answer tr"; simp add: init_answer_append)+

lemma answer_unsent: "answer_ok r \<Longrightarrow> ru_init r \<Longrightarrow> init_answer (ru_trace r) = None"
  by (simp add: answer_ok_def life_ok_def init_answer_None)

lemma run_loop_answer:
  assumes "answer_ok r" and "ru_life r = Started" and "run_loop H N evs (send_init (Inr ()) r) = (l, r1, evs')"
  shows "init_answer (ru_trace r1) \<noteq> Some (Inl e)"
proof -
  from run_loop_keeps [OF assms(3)] obtain n where
    "ru_trace r1 = (ru_trace r @ (if ru_init r then [TInit (Inr ())] else [])) @ replicate n TPreStop" by auto
  then have "init_answer (ru_trace r1) = init_answer (ru_trace r @ (if ru_init r then [TInit (Inr ())] else []))"
    by (simp only: append_quiet_answer)
  then show ?thesis
    using assms(1,2) answer_unsent [OF assms(1)] by (auto simp: answer_ok_def init_answer_append split: option.splits)
qed

lemma runner_step_answer_ok:
  assumes "answer_ok r" and "runner_step H N r evs = (True, r', evs')"
  shows "answer_ok r'"
proof -
  have ok: "life_ok r'" using assms runner_step_life_ok by (auto simp: answer_ok_def)
  show ?thesis
  proof (cases "ru_life r")
    case Created
    then show ?thesis
      using assms ok by (auto simp: runner_step_def Let_def answer_ok_def init_answer_append
          split: prod.splits sum.splits option.splits)
  next
    case Started
    then obtain l r1 where l: "run_loop H N evs (send_init (Inr ()) r) = (Some l, r1, evs')" "r' = r1\<lparr>ru_life := l\<rparr>"
      using assms(2) by (auto simp: runner_step_def split: prod.splits option.splits)
    then show ?thesis
      using run_loop_answer [OF assms(1) Started l(1)] ok by (auto simp: answer_ok_def)
  next
    case Restarted
    let ?r = "apply_supervision_strategy H (hk_strategy H) r"
    note keeps = apply_strategy_keeps [OF Restarted refl, of H "hk_strategy H"]
    have same: "init_answer (ru_trace ?r) = init_answer (ru_trace r)" "ru_init ?r = ru_init r"
      using keeps by auto
    have no: "init_answer (ru_trace r) \<noteq> Some (Inl e)" for e
      using assms(1) Restarted by (auto simp: answer_ok_def)
    have r': "r' = (if ru_life ?r = Failed then send_init (Inl (start_failure ?r)) ?r else ?r)"
      using assms(2) Restarted by (simp add: runner_step_def Let_def)
    show ?thesis
    proof (cases "ru_life ?r = Failed \<and> ru_init r")
      case True
      then have "init_answer (ru_trace r') = Some (Inl (start_failure ?r))"
        using r' same answer_unsent [OF assms(1)] by (simp add: init_answer_append)
      then show ?thesis using ok r' True by (auto simp: answer_ok_def start_failure_def)
    next
      case False
      then have "init_answer (ru_trace r') = init_answer (ru_trace r)"
        using r' same by (auto simp: init_answer_append split: option.split)
      then show ?thesis using ok no by (simp add: answer_ok_def)
    qed
  next
    case Failed
    then show ?thesis using assms ok by (auto simp: runner_step_def answer_ok_def)
  next
    case Stopped
    then show ?thesis
      using assms ok by (auto simp: runner_step_def Let_def answer_ok_def init_answer_append
          split: prod.splits option.splits)
  next
    case Terminated
    then show ?thesis using assms(2) by (simp add: runner_step_def)
  qed
qed

lemma runner_init_answer_ok:
  assumes "answer_ok r" and "runner_init H N r evs = (r', evs')"
  shows "answer_ok r' \<or> init_answer (ru_trace r') = Some (Inr ())"
  using assms
proof (induction H N r evs rule: runner_init.induct)
  case (1 H N r evs)
  obtain b r1 evs1 where s: "runner_step H N r evs = (b, r1, evs1)" by (cases "runner_step H N r evs") auto
  show ?case
  proof (cases b)
    case True
    with s have step: "runner_step H N r evs = (True, r1, evs1)" by simp
    show ?thesis
      using 1(1) [of True "(r1, evs1)" r1 evs1] step runner_step_answer_ok [OF 1(2) step]
        runner_init_step [OF step] 1(3) by simp
  next
    case False
    with s have step: "runner_step H N r evs = (False, r1, evs1)" by simp
    then have r: "r' = r1" using runner_init_end [OF step] 1(3) by simp
    have ok: "life_ok r" using 1(2) by (simp add: answer_ok_def)
    show ?thesis
    proof (cases "ru_life r = Started")
      case True
      then have l: "run_loop H N evs (send_init (Inr ()) r) = (None, r1, evs1)"
        using step by (auto simp: runner_step_def split: prod.splits option.splits)
      have "init_answer (ru_trace r1) \<noteq> None"
        using runner_step_end [OF ok step] by (simp add: init_answer_None)
      with run_loop_answer [OF 1(2) True l] r show ?thesis
        by (cases "init_answer (ru_trace r1)"; cases "the (init_answer (ru_trace r1))") auto
    next
      case False
      then have "r1 = r"
        using step by (auto simp: runner_step_def Let_def split: prod.splits actor_lifecycle.splits)
      then show ?thesis using 1(2) r by simp
    qed
  qed
qed

lemma spawned_answer:
  "\<exists>r. spawned H N actor child_signal evs sig conf path s = r \<and>
    (init_answer (ru_trace r) = Some (Inr ())
     \<or> (\<exists>t. init_answer (ru_trace r) = Some (Inl (CreateActor t))) \<and> ru_life r = Terminated)"
proof -
  let ?r0 = "runner_new actor path (Some sig) (su_registry s) (su_helpers s) child_signal (su_world s) conf"
  obtain r evs' where r: "runner_init H N ?r0 evs = (r, evs')" by (cases "runner_init H N ?r0 evs")
  have "life_ok ?r0" by (simp add: life_ok_def runner_new_def)
  from runner_init_life_ok [OF this r]
  have calls: "init_calls (ru_trace r) = 1" and lives: "ru_life r = Terminated \<or> ru_life r = Started" by auto
  from calls obtain a where a: "init_answer (ru_trace r) = Some a"
    by (cases "init_answer (ru_trace r)") (auto simp: init_answer_None)
  have "answer_ok ?r0" by (simp add: answer_ok_def life_ok_def runner_new_def)
  from runner_init_answer_ok [OF this r] lives a show ?thesis
    by (cases a) (auto simp: spawned_def r answer_ok_def)
qed

section \<open>Properties\<close>

text \<open>C8: creating an actor on a free path over a real runner always comes back, whatever
  the actor's methods, its strategy and the schedule do: either with the reference,
  and the actor is registered with its stop channel, or with a \<open>CreateActor\<close> error,
  and the runner has terminated and the path is free again. The branch for an init
  channel that is dropped unanswered is never taken.\<close>

theorem create_actor_answered:
  assumes "\<not> hm_contains path (su_registry s)"
  shows "\<exists>s'. sup_create_actor (spawn H N actor a snd_a child_signal evs) conf path s = (Inr a, s')
        \<and> map_of (su_registry s') path = Some a \<and> map_of (su_senders s') path = Some snd_a
    \<or> (\<exists>t. sup_create_actor (spawn H N actor a snd_a child_signal evs) conf path s = (Inl (CreateActor t), s')
        \<and> \<not> hm_contains path (su_registry s') \<and> \<not> hm_contains path (su_senders s')
        \<and> ru_life (spawned H N actor child_signal evs (su_signal s) conf path s) = Terminated)"
  using assms spawned_answer [of H N actor child_signal evs "su_signal s" conf path s]
  by (auto simp: sup_create_actor_def spawn_def Let_def)

theorem create_actor_answered_witness:
  "(\<exists>s'. sup_create_actor (spawn (plain_hooks SStop) log_net 0 7 1 2 []) config_default (ActorPath [''user'', ''a'']) empty_sup
      = (Inr 7, s'))
   \<or> (\<exists>s' t. sup_create_actor (spawn (plain_hooks SStop) log_net 0 7 1 2 []) config_default (ActorPath [''user'', ''a'']) empty_sup
      = (Inl (CreateActor t), s'))"
  using create_actor_answered [of "ActorPath [''user'', ''a'']" empty_sup "plain_hooks SStop" log_net 0 7 1 2 "[]" config_default]
  by (auto simp: empty_sup_def sup_new_def hm_contains_def)

text \<open>The life of an actor under the default strategy whose start fails.\<close>

lemma spawned_failing:
  fixes H :: "('a, 'm, ('ref, 'h, 'snd, 'sig, 'w) ctx) hooks"
  assumes "hk_strategy H = SStop" and "\<And>a c. hk_pre_start H a c = (Inl e, a, c)"
    and "\<And>a c. hk_post_stop H a c = (q, a, c)" and "nt_signal N sig (SStopped path) (su_world s) = (res, w)"
  shows "\<exists>r t. spawned H N actor child_signal evs sig conf path s = r
    \<and> init_answer (ru_trace r) = Some (Inl (CreateActor t))
    \<and> su_registry (cx_sup (ru_ctx r)) = su_registry s \<and> su_helpers (cx_sup (ru_ctx r)) = su_helpers s
    \<and> cx_world (ru_ctx r) = w"
proof -
  let ?r0 = "runner_new actor path (Some sig) (su_registry s) (su_helpers s) child_signal (su_world s) conf
    :: ('a, ('ref, 'h, 'snd, 'sig, 'w) ctx) runner"
  let ?r1 = "?r0\<lparr>ru_life := Restarted, ru_trace := [TPreStart]\<rparr>"
  let ?r2 = "?r1\<lparr>ru_life := Failed, ru_init := False, ru_trace := [TPreStart, TInit (Inl (start_failure ?r0))]\<rparr>"
  let ?r3 = "?r2\<lparr>ru_life := Stopped\<rparr>"
  have "runner_step H N ?r0 evs = (True, ?r1, evs)"
    using assms(2) by (simp add: runner_step_def runner_new_def observe_def)
  moreover have "runner_step H N ?r1 evs = (True, ?r2, evs)"
    using assms(1)
    by (simp add: runner_step_def runner_new_def observe_def send_init_def start_failure_def apply_supervision_strategy_def)
  moreover have "runner_step H N ?r2 evs = (True, ?r3, evs)"
    by (simp add: runner_step_def)
  ultimately have run: "runner_init H N ?r0 evs = runner_init H N ?r3 evs"
    by (simp only: runner_init_step)
  have em: "\<exists>x. emit_stopped N (ru_ctx ?r3) = (x, cx_set_world w (ru_ctx ?r3))"
    using assms(4) by (simp add: runner_new_def ctx_new_def emit_stopped_def sup_new_def)
  then obtain x where "emit_stopped N (ru_ctx ?r3) = (x, cx_set_world w (ru_ctx ?r3))" by blast
  from runner_init_Stopped [OF _ this assms(3), of evs] run show ?thesis
    by (simp add: spawned_def runner_new_def ctx_new_def sup_new_def start_failure_def cx_set_world_def)
qed

text \<open>C18: a child that fails to start takes its creator down: the failed runner reports
  \<open>Stopped\<close> on the creator's signal channel like any other, and a creator with no other
  child takes that for the end of its last child. So an actor that merely tries to
  create a child in a message handler, and handles the error, terminates.\<close>

theorem failed_child_ends_parent:
  assumes "ru_life r = Started" and "\<not> ru_init r" and "wf_segment name"
    and "path_level (cx_path (ru_ctx r)) < MAX_ACTOR_DEPTH" and "\<not> ctx_has_childs (ru_ctx r)"
    and "hk_message H m (ru_actor r) (ru_ctx r)
      = (ru_actor r, snd (ctx_create_child (spawn HC N child a snd_a child_signal evs) name (ru_ctx r)))"
    and "hk_strategy HC = SStop" and "\<And>x c. hk_pre_start HC x c = (Inl e, x, c)"
    and "\<And>x c. hk_post_stop HC x c = (q, x, c)" and "\<And>sg s w. nt_signal N sg s w = (Inr (), w @ [(sg, s)])"
  shows "(\<exists>r1. runner_init H N r [RMsg m] = (r1, []) \<and> ru_life r1 = Started
        \<and> cx_world (ru_ctx r1) = cx_world (ru_ctx r)
            @ [(su_signal (cx_sup (ru_ctx r)), SStopped (path_div (cx_path (ru_ctx r)) name))])
    \<and> (\<exists>r2. runner_init H N r [RMsg m, RSignal (SStopped (path_div (cx_path (ru_ctx r)) name))] = (r2, [])
        \<and> ru_life r2 = Terminated)"
proof -
  let ?c = "ru_ctx r" and ?p = "path_div (cx_path (ru_ctx r)) name"
  have none: "sup_get_childs (cx_path ?c) (cx_sup ?c) = []"
    using assms(5) by (simp add: ctx_has_childs_def sup_has_childs_def)
  then have free: "\<not> hm_contains ?p (su_registry (cx_sup ?c))"
    using path_parent_div [OF assms(3), of "cx_path ?c"]
    by (metis empty_iff list.set(1) set_get_childs)
  let ?w = "cx_world ?c @ [(su_signal (cx_sup ?c), SStopped ?p)]"
  obtain rc t where rc: "spawned HC N child child_signal evs (su_signal (cx_sup ?c)) (cx_config ?c) ?p (cx_sup ?c) = rc"
    "init_answer (ru_trace rc) = Some (Inl (CreateActor t))"
    "su_registry (cx_sup (ru_ctx rc)) = su_registry (cx_sup ?c)" "su_helpers (cx_sup (ru_ctx rc)) = su_helpers (cx_sup ?c)"
    "cx_world (ru_ctx rc) = ?w"
    using spawned_failing [OF assms(7-9), of N "su_signal (cx_sup ?c)" ?p "cx_sup ?c" "Inr ()" ?w child child_signal evs
        "cx_config ?c"] assms(10) by blast
  let ?s = "unregister ?p ((cx_sup ?c)\<lparr>su_world := ?w\<rparr>)"
  have "sup_create_actor (spawn HC N child a snd_a child_signal evs) (cx_config ?c) ?p (cx_sup ?c)
      = (Inl (CreateActor t), ?s)"
    using free rc by (simp add: sup_create_actor_def spawn_def Let_def)
  then have create: "snd (ctx_create_child (spawn HC N child a snd_a child_signal evs) name ?c) = ?c\<lparr>cx_sup := ?s\<rparr>"
    using assms(4) by (simp add: ctx_create_child_def)
  let ?r1 = "r\<lparr>ru_ctx := ?c\<lparr>cx_sup := ?s\<rparr>\<rparr>"
  have msg: "run_event H N (RMsg m) r = (None, ?r1)"
    using assms(6) create by simp
  have init: "send_init (Inr ()) r = r" using assms(2) by (simp add: send_init_def)
  have "runner_step H N r [RMsg m] = (False, ?r1, [])"
    using assms(1) init msg by (simp add: runner_step_def)
  from runner_init_end [OF this] assms(1)
  have first: "\<exists>r1. runner_init H N r [RMsg m] = (r1, []) \<and> ru_life r1 = Started \<and> cx_world (ru_ctx r1) = ?w"
    by simp
  have key: "path_key ?p = name"
    using assms(3) by (simp add: path_key_def path_div_segments path_tokens_segment)
  let ?c2 = "ctx_remove_child name (?c\<lparr>cx_sup := ?s\<rparr>)"
  have "\<not> ctx_has_childs ?c2"
    using none by (auto simp: ctx_has_childs_def sup_has_childs_def ctx_remove_child_def sup_remove_child_def
        sup_get_childs_def filter_empty_conv)
  then have "run_loop H N [RMsg m, RSignal (SStopped ?p)] r = (Some Stopped, r\<lparr>ru_ctx := ?c2\<rparr>, [])"
    using msg key by (simp add: Let_def)
  from runner_init_returns [OF assms(1,2) this] first show ?thesis
    using runner_init_stops [of "(r\<lparr>ru_ctx := ?c2\<rparr>)\<lparr>ru_life := Stopped\<rparr>" H N "[]"] by auto
qed

type_synonym sig_log = "(nat \<times> actor_signal) list"

definition sig_net :: "(nat, nat, nat, sig_log) net_ops" where
  "sig_net = \<lparr>nt_action = (\<lambda>a act w. (Inr (), w)), nt_signal = (\<lambda>sg s w. (Inr (), w @ [(sg, s)])),
     nt_event = (\<lambda>e w. (Inr (), w))\<rparr>"

definition creating_hooks :: "(nat, nat, (nat, nat, nat, nat, sig_log) ctx) hooks" where
  "creating_hooks = (plain_hooks SStop)\<lparr>hk_message := (\<lambda>m x c.
     (x, snd (ctx_create_child (spawn (failing_hooks SStop) sig_net 0 7 1 2 []) ''a'' c)))\<rparr>"

definition lone_actor :: "(nat, (nat, nat, nat, nat, sig_log) ctx) runner" where
  "lone_actor = (runner_new 0 (ActorPath [''user'', ''p'']) (Some 0) [] [] 5 [] config_default)
     \<lparr>ru_life := Started, ru_init := False\<rparr>"

theorem failed_child_ends_parent_witness:
  "\<exists>r2. runner_init creating_hooks sig_net lone_actor
      [RMsg 3, RSignal (SStopped (path_div (ActorPath [''user'', ''p'']) ''a''))] = (r2, [])
    \<and> ru_life r2 = Terminated"
proof -
  have c: "cx_path (ru_ctx lone_actor) = ActorPath [''user'', ''p'']"
    "path_level (cx_path (ru_ctx lone_actor)) < MAX_ACTOR_DEPTH" "\<not> ctx_has_childs (ru_ctx lone_actor)"
    "ru_life lone_actor = Started" "\<not> ru_init lone_actor"
    by (simp_all add: lone_actor_def runner_new_def ctx_new_def sup_new_def path_level_def MAX_ACTOR_DEPTH_def
        ctx_has_childs_def sup_has_childs_def sup_get_childs_def hm_keys_def)
  have n: "wf_segment ''a''" by (simp add: wf_segment_def is_blank_def ws1_def ws2_def ws3_def)
  have msg: "hk_message creating_hooks 3 (ru_actor lone_actor) (ru_ctx lone_actor)
      = (ru_actor lone_actor,
         snd (ctx_create_child (spawn (failing_hooks SStop) sig_net 0 7 1 2 []) ''a'' (ru_ctx lone_actor)))"
    by (simp add: creating_hooks_def)
  show ?thesis
    using failed_child_ends_parent [OF c(4,5) n c(2,3) msg, of InvalidResponse "Inr ()"] c(1)
    by (simp add: failing_hooks_def plain_hooks_def sig_net_def default_post_stop_def)
qed

end
