(* ===== verification/Cluster.thy ===== *)
theory Cluster
  imports Spawn System
begin

text \<open>
  A whole running system: the \<open>System\<close> with its runner (\<open>actor/src/system.rs\<close>) and
  any number of actors with theirs (\<open>actor/src/runner.rs\<close>), over one registry and one
  set of channels. An actor is known by a number, which is also its reference and the
  name of its channels; \<open>0\<close> is the system. A step takes one item off one channel and
  lets its receiver handle it, or lets a runner make a round that receives nothing, so a
  run is an interleaving of all tasks, one \<open>select!\<close> branch at a time. Channels have
  room: a sender never waits.
\<close>

section \<open>Channels\<close>

record 'm channels =
  nw_mail :: "nat \<Rightarrow> 'm list"
  nw_signals :: "nat \<Rightarrow> actor_signal list"
  nw_actions :: "nat \<Rightarrow> child_action list"
  nw_open :: "nat \<Rightarrow> bool"

text \<open>A send fails when the receiving task has ended.\<close>

definition send_action :: "nat \<Rightarrow> child_action \<Rightarrow> 'm channels \<Rightarrow> (string + unit) \<times> 'm channels" where
  "send_action i act w =
     (if nw_open w i then (Inr (), w\<lparr>nw_actions := (nw_actions w)(i := nw_actions w i @ [act])\<rparr>)
      else (Inl ''channel closed'', w))"

definition send_signal :: "nat \<Rightarrow> actor_signal \<Rightarrow> 'm channels \<Rightarrow> (string + unit) \<times> 'm channels" where
  "send_signal i sg w =
     (if nw_open w i then (Inr (), w\<lparr>nw_signals := (nw_signals w)(i := nw_signals w i @ [sg])\<rparr>)
      else (Inl ''channel closed'', w))"

definition channel_net :: "(unit, nat, nat, 'm channels) net_ops" where
  "channel_net = \<lparr>nt_action = send_action, nt_signal = send_signal, nt_event = (\<lambda>e w. (Inr (), w))\<rparr>"

definition close_channels :: "nat \<Rightarrow> 'm channels \<Rightarrow> 'm channels" where
  "close_channels i w = w\<lparr>nw_open := (nw_open w)(i := False)\<rparr>"

text \<open>Taking the next item of one of the three channels of an actor.\<close>

inductive take_item ::
  "nat \<Rightarrow> 'm channels \<Rightarrow> ('m, 'c) runner_event \<Rightarrow> 'm channels \<Rightarrow> bool" where
  mail: "nw_mail w i = m # ms \<Longrightarrow> take_item i w (RMsg m) (w\<lparr>nw_mail := (nw_mail w)(i := ms)\<rparr>)"
| signal: "nw_signals w i = sg # sgs \<Longrightarrow> take_item i w (RSignal sg) (w\<lparr>nw_signals := (nw_signals w)(i := sgs)\<rparr>)"
| action: "nw_actions w i = act # acts \<Longrightarrow> take_item i w (RAction act) (w\<lparr>nw_actions := (nw_actions w)(i := acts)\<rparr>)"

section \<open>The system with its actors\<close>

type_synonym ('h, 'm) actor_ctx = "(nat, 'h, nat, nat, 'm channels) ctx"
type_synonym ('a, 'h, 'm) actor_runner = "('a, ('h, 'm) actor_ctx) runner"
type_synonym ('a, 'h, 'm) actor_hooks = "nat \<Rightarrow> ('a, 'm, ('h, 'm) actor_ctx) hooks"

text \<open>The shared maps and the channels are those of the system's supervisor; an actor's
  runner sees them when it steps. \<open>cl_up\<close> says that the system's runner is in its loop,
  \<open>cl_shutdown\<close> is its flag, \<open>cl_cancelled\<close> the state of the cancellation token.\<close>

record ('a, 'h, 'm) cluster =
  cl_system :: "(nat, 'h, nat, nat, 'm channels) system"
  cl_up :: bool
  cl_shutdown :: bool
  cl_cancelled :: bool
  cl_nodes :: "nat \<Rightarrow> ('a, 'h, 'm) actor_runner option"

abbreviation cl_sup :: "('a, 'h, 'm) cluster \<Rightarrow> (nat, 'h, nat, nat, 'm channels) sup" where
  "cl_sup s \<equiv> sm_sup (cl_system s)"

abbreviation cl_net :: "('a, 'h, 'm) cluster \<Rightarrow> 'm channels" where
  "cl_net s \<equiv> su_world (cl_sup s)"

definition set_net :: "'m channels \<Rightarrow> ('a, 'h, 'm) cluster \<Rightarrow> ('a, 'h, 'm) cluster" where
  "set_net w s = s\<lparr>cl_system := (cl_system s)\<lparr>sm_sup := (cl_sup s)\<lparr>su_world := w\<rparr>\<rparr>\<rparr>"

definition load_runner :: "('a, 'h, 'm) cluster \<Rightarrow> ('a, 'h, 'm) actor_runner \<Rightarrow> ('a, 'h, 'm) actor_runner" where
  "load_runner s r = r\<lparr>ru_ctx := (ru_ctx r)\<lparr>cx_sup := (cx_sup (ru_ctx r))\<lparr>su_registry := su_registry (cl_sup s),
     su_helpers := su_helpers (cl_sup s), su_world := cl_net s\<rparr>\<rparr>\<rparr>"

definition save_runner :: "nat \<Rightarrow> ('a, 'h, 'm) actor_runner \<Rightarrow> ('a, 'h, 'm) cluster \<Rightarrow> ('a, 'h, 'm) cluster" where
  "save_runner i r s = s\<lparr>cl_nodes := (cl_nodes s)(i \<mapsto> r),
     cl_system := (cl_system s)\<lparr>sm_sup := (cl_sup s)\<lparr>su_registry := su_registry (cx_sup (ru_ctx r)),
       su_helpers := su_helpers (cx_sup (ru_ctx r)),
       su_world := (if ru_life r = Terminated then close_channels i (cx_world (ru_ctx r)) else cx_world (ru_ctx r))\<rparr>\<rparr>\<rparr>"

section \<open>Steps\<close>

definition save_system ::
  "bool \<times> bool \<times> (nat, 'h, nat, nat, 'm channels) system \<Rightarrow> ('a, 'h, 'm) cluster \<Rightarrow> ('a, 'h, 'm) cluster" where
  "save_system x s =
     (case x of (stop, shutdown, sm) \<Rightarrow>
       (let s = s\<lparr>cl_system := sm, cl_up := \<not> stop, cl_shutdown := shutdown\<rparr>
        in if stop then set_net (close_channels 0 (cl_net s)) s else s))"

inductive cl_step ::
  "('a, 'h, 'm) actor_hooks \<Rightarrow> ('a, 'h, 'm) cluster \<Rightarrow> ('a, 'h, 'm) cluster \<Rightarrow> bool"
  for H where
  round: "\<lbrakk>cl_nodes s i = Some r; ru_life r \<noteq> Started;
      runner_step (H i) channel_net (load_runner s r) [] = (True, r', evs)\<rbrakk>
    \<Longrightarrow> cl_step H s (save_runner i r' s)"
| receive: "\<lbrakk>cl_nodes s i = Some r; ru_life r = Started; take_item i (cl_net s) ev w;
      runner_step (H i) channel_net (load_runner (set_net w s) r) [ev] = (b, r', evs)\<rbrakk>
    \<Longrightarrow> cl_step H s (save_runner i r' (set_net w s))"
| cancelled: "\<lbrakk>cl_up s; cl_cancelled s\<rbrakk>
    \<Longrightarrow> cl_step H s (save_system (system_round channel_net SysCancelled (cl_shutdown s) (cl_system s)) s)"
| signalled: "\<lbrakk>cl_up s; nw_signals (cl_net s) 0 = sg # sgs;
      s1 = set_net ((cl_net s)\<lparr>nw_signals := (nw_signals (cl_net s))(0 := sgs)\<rparr>) s\<rbrakk>
    \<Longrightarrow> cl_step H s (save_system (system_round channel_net (SysSignal sg) (cl_shutdown s1) (cl_system s1)) s1)"

section \<open>What a step reads and writes\<close>

abbreviation cl_registry :: "('a, 'h, 'm) cluster \<Rightarrow> (actor_path \<times> nat) list" where
  "cl_registry s \<equiv> su_registry (cl_sup s)"

abbreviation path_of :: "('a, 'h, 'm) actor_runner \<Rightarrow> actor_path" where
  "path_of r \<equiv> cx_path (ru_ctx r)"

abbreviation parent_of :: "('a, 'h, 'm) actor_runner \<Rightarrow> nat option" where
  "parent_of r \<equiv> cx_signal (ru_ctx r)"

abbreviation senders_of :: "('a, 'h, 'm) actor_runner \<Rightarrow> (actor_path \<times> nat) list" where
  "senders_of r \<equiv> su_senders (cx_sup (ru_ctx r))"

lemma set_net_sel [simp]:
  "cl_nodes (set_net w s) = cl_nodes s" "cl_up (set_net w s) = cl_up s" "cl_shutdown (set_net w s) = cl_shutdown s"
  "cl_cancelled (set_net w s) = cl_cancelled s" "sm_root_path (cl_system (set_net w s)) = sm_root_path (cl_system s)"
  "cl_registry (set_net w s) = cl_registry s" "cl_net (set_net w s) = w"
  "su_senders (cl_sup (set_net w s)) = su_senders (cl_sup s)" "su_helpers (cl_sup (set_net w s)) = su_helpers (cl_sup s)"
  "su_signal (cl_sup (set_net w s)) = su_signal (cl_sup s)" "sm_config (cl_system (set_net w s)) = sm_config (cl_system s)"
  by (simp_all add: set_net_def)

lemma load_runner_sel [simp]:
  "ru_actor (load_runner s r) = ru_actor r" "ru_path (load_runner s r) = ru_path r"
  "ru_life (load_runner s r) = ru_life r" "ru_retries (load_runner s r) = ru_retries r"
  "ru_init (load_runner s r) = ru_init r" "ru_trace (load_runner s r) = ru_trace r"
  "path_of (load_runner s r) = path_of r" "parent_of (load_runner s r) = parent_of r"
  "senders_of (load_runner s r) = senders_of r" "cx_config (ru_ctx (load_runner s r)) = cx_config (ru_ctx r)"
  "su_registry (cx_sup (ru_ctx (load_runner s r))) = cl_registry s"
  "su_helpers (cx_sup (ru_ctx (load_runner s r))) = su_helpers (cl_sup s)"
  "su_signal (cx_sup (ru_ctx (load_runner s r))) = su_signal (cx_sup (ru_ctx r))"
  "cx_world (ru_ctx (load_runner s r)) = cl_net s"
  by (simp_all add: load_runner_def)

lemma save_runner_sel [simp]:
  "cl_nodes (save_runner i r s) = (cl_nodes s)(i \<mapsto> r)" "cl_up (save_runner i r s) = cl_up s"
  "cl_shutdown (save_runner i r s) = cl_shutdown s" "cl_cancelled (save_runner i r s) = cl_cancelled s"
  "sm_root_path (cl_system (save_runner i r s)) = sm_root_path (cl_system s)"
  "sm_config (cl_system (save_runner i r s)) = sm_config (cl_system s)"
  "cl_registry (save_runner i r s) = su_registry (cx_sup (ru_ctx r))"
  "su_helpers (cl_sup (save_runner i r s)) = su_helpers (cx_sup (ru_ctx r))"
  "su_senders (cl_sup (save_runner i r s)) = su_senders (cl_sup s)"
  "su_signal (cl_sup (save_runner i r s)) = su_signal (cl_sup s)"
  "cl_net (save_runner i r s)
    = (if ru_life r = Terminated then close_channels i (cx_world (ru_ctx r)) else cx_world (ru_ctx r))"
  by (simp_all add: save_runner_def)

lemma close_channels_sel [simp]:
  "nw_mail (close_channels i w) = nw_mail w" "nw_signals (close_channels i w) = nw_signals w"
  "nw_actions (close_channels i w) = nw_actions w" "nw_open (close_channels i w) = (nw_open w)(i := False)"
  by (simp_all add: close_channels_def)

lemma channel_net_sel [simp]:
  "nt_action channel_net = send_action" "nt_signal channel_net = send_signal"
  by (simp_all add: channel_net_def)

inductive_cases take_mailE: "take_item i w (RMsg m) w'"
inductive_cases take_signalE: "take_item i w (RSignal sg) w'"
inductive_cases take_actionE: "take_item i w (RAction act) w'"

lemma take_item_cases:
  assumes "take_item i w ev w'"
  obtains (mail) m ms where "ev = RMsg m" "nw_mail w i = m # ms" "w' = w\<lparr>nw_mail := (nw_mail w)(i := ms)\<rparr>"
  | (signal) sg sgs where "ev = RSignal sg" "nw_signals w i = sg # sgs" "w' = w\<lparr>nw_signals := (nw_signals w)(i := sgs)\<rparr>"
  | (action) act acts where "ev = RAction act" "nw_actions w i = act # acts" "w' = w\<lparr>nw_actions := (nw_actions w)(i := acts)\<rparr>"
  using assms by (auto elim: take_item.cases)

section \<open>Actors whose methods leave the tree alone\<close>

text \<open>What the theorems about a tree assume of the actors' own methods: they may compute
  and fail no stop, but they neither create nor stop children nor signal.\<close>

definition tame_hooks :: "('a, 'm, 'c) hooks \<Rightarrow> bool" where
  "tame_hooks h \<longleftrightarrow>
     (\<forall>a c. \<exists>a'. hk_pre_stop h a c = (Inr (), a', c))
   \<and> (\<forall>a c. \<exists>x a'. hk_post_stop h a c = (x, a', c))
   \<and> (\<forall>m a c. \<exists>a'. hk_message h m a c = (a', c))"

lemma step_mail:
  assumes "tame_hooks h" and "ru_life r = Started" and "\<not> ru_init r"
  shows "\<exists>a'. runner_step h N r [RMsg m] = (False, r\<lparr>ru_actor := a'\<rparr>, [])"
proof -
  obtain a' where "hk_message h m (ru_actor r) (ru_ctx r) = (a', ru_ctx r)"
    using assms(1) unfolding tame_hooks_def by blast
  then show ?thesis using assms(2,3) by (auto simp: runner_step_def send_init_def intro!: exI [of _ a'])
qed

lemma step_child_stopped:
  assumes "ru_life r = Started" and "\<not> ru_init r"
  shows "runner_step h N r [RSignal (SStopped p)]
    = (let c = ctx_remove_child (path_key p) (ru_ctx r)
       in if ctx_has_childs c then (False, r\<lparr>ru_ctx := c\<rparr>, []) else (True, r\<lparr>ru_ctx := c, ru_life := Stopped\<rparr>, []))"
  using assms by (simp add: runner_step_def send_init_def Let_def)

lemma step_stop:
  assumes "tame_hooks h" and "ru_life r = Started" and "\<not> ru_init r"
    and "sup_stop_children (nt_action N) (path_of r) (cx_sup (ru_ctx r)) = (Inr b, u)"
  shows "\<exists>a'. runner_step h N r [RAction CStop]
    = (\<not> b, r\<lparr>ru_actor := a', ru_ctx := (ru_ctx r)\<lparr>cx_sup := u\<rparr>, ru_life := if b then Started else Stopped,
        ru_trace := ru_trace r @ [TPreStop]\<rparr>, [])"
proof -
  obtain a' where "hk_pre_stop h (ru_actor r) (ru_ctx r) = (Inr (), a', ru_ctx r)"
    using assms(1) unfolding tame_hooks_def by blast
  then show ?thesis
    using assms(2-4)
    by (auto simp: runner_step_def send_init_def on_stop_def observe_def Let_def ctx_stop_children_def intro!: exI [of _ a'])
qed

lemma step_stopped:
  assumes "tame_hooks h" and "ru_life r = Stopped" and "parent_of r = Some j"
  shows "\<exists>a'. runner_step h N r evs = (True, r\<lparr>ru_actor := a',
      ru_ctx := cx_set_world (snd (nt_signal N j (SStopped (path_of r)) (cx_world (ru_ctx r)))) (ru_ctx r),
      ru_life := Terminated, ru_trace := ru_trace r @ [TEmitStopped, TPostStop]\<rparr>, evs)"
proof -
  obtain x w where w: "nt_signal N j (SStopped (path_of r)) (cx_world (ru_ctx r)) = (x, w)" by fastforce
  let ?c = "cx_set_world w (ru_ctx r)"
  obtain y a' where "hk_post_stop h (ru_actor r) ?c = (y, a', ?c)"
    using assms(1) unfolding tame_hooks_def by blast
  then show ?thesis
    using assms(2,3) w by (auto simp: runner_step_def observe_def Let_def emit_stopped_def intro!: exI [of _ a'])
qed

end
