(* ===== verification/Trees.thy ===== *)
theory Trees
  imports Cluster
begin

text \<open>
  How the tree of a system grows: \<open>System::create_actor\<close> and
  \<open>ActorContext::create_child\<close> (\<open>actor/src/system.rs\<close>, \<open>actor/src/actor.rs\<close>)
  over real runners. A tree is consistent (\<open>at_rest\<close>) when registry, action senders,
  signal channels and runners agree; a creation and a message handled keep it so.
\<close>

section \<open>A tree at rest\<close>

definition actor_at_rest :: "('a, 'h, 'm) cluster \<Rightarrow> nat \<Rightarrow> ('a, 'h, 'm) actor_runner \<Rightarrow> bool" where
  "actor_at_rest s i r \<longleftrightarrow>
     ru_life r = Started \<and> \<not> ru_init r \<and> nw_open (cl_net s) i
   \<and> nw_signals (cl_net s) i = [] \<and> nw_actions (cl_net s) i = []
   \<and> wf_path (path_of r) \<and> 1 < path_level (path_of r)
   \<and> path_level (path_of r) \<le> MAX_ACTOR_DEPTH \<and> su_signal (cx_sup (ru_ctx r)) = i
   \<and> sup_books (path_of r) (cx_sup (ru_ctx (load_runner s r)))
   \<and> (\<forall>p k. map_of (senders_of r) p = Some k \<longrightarrow>
        (\<exists>rk. cl_nodes s k = Some rk \<and> path_of rk = p \<and> parent_of rk = Some i))
   \<and> (parent_of r = Some 0 \<and> map_of (su_senders (cl_sup s)) (path_of r) = Some i
      \<or> (\<exists>j rj. j \<noteq> 0 \<and> cl_nodes s j = Some rj \<and> parent_of r = Some j
           \<and> map_of (senders_of rj) (path_of r) = Some i))"

definition at_rest :: "('a, 'h, 'm) actor_hooks \<Rightarrow> ('a, 'h, 'm) cluster \<Rightarrow> bool" where
  "at_rest H s \<longleftrightarrow>
     (\<forall>i. tame_hooks (H i)) \<and> finite (dom (cl_nodes s)) \<and> cl_nodes s 0 = None
   \<and> cl_up s \<and> \<not> cl_shutdown s \<and> nw_open (cl_net s) 0 \<and> nw_signals (cl_net s) 0 = []
   \<and> wf_path (sm_root_path (cl_system s)) \<and> path_level (sm_root_path (cl_system s)) = 1
   \<and> su_signal (cl_sup s) = 0
   \<and> (\<forall>p. hm_contains p (cl_registry s) \<longrightarrow> (\<exists>i r. cl_nodes s i = Some r \<and> path_of r = p))
   \<and> sup_books (sm_root_path (cl_system s)) (cl_sup s)
   \<and> (\<forall>p i. map_of (su_senders (cl_sup s)) p = Some i \<longrightarrow>
        (\<exists>r. cl_nodes s i = Some r \<and> path_of r = p \<and> parent_of r = Some 0))
   \<and> (\<forall>i r. cl_nodes s i = Some r \<longrightarrow> actor_at_rest s i r)
   \<and> (\<forall>i j r q. cl_nodes s i = Some r \<longrightarrow> cl_nodes s j = Some q \<longrightarrow> path_of r = path_of q \<longrightarrow> i = j)"

text \<open>Children are known to their parents and the other way round.\<close>

lemma at_rest_parent:
  assumes "at_rest H s0" and "cl_nodes s0 i = Some r"
  obtains (top) "parent_of r = Some 0" "path_parent (path_of r) = sm_root_path (cl_system s0)"
  | (child) j q where "j \<noteq> 0" "cl_nodes s0 j = Some q" "parent_of r = Some j" "path_parent (path_of r) = path_of q"
      "map_of (senders_of q) (path_of r) = Some i"
proof -
  have r: "actor_at_rest s0 i r" using assms by (auto simp: at_rest_def)
  consider "parent_of r = Some 0" "map_of (su_senders (cl_sup s0)) (path_of r) = Some i"
    | j q where "j \<noteq> 0" "cl_nodes s0 j = Some q" "parent_of r = Some j" "map_of (senders_of q) (path_of r) = Some i"
    using r by (auto simp: actor_at_rest_def)
  then show ?thesis
  proof cases
    case 1
    have "sup_books (sm_root_path (cl_system s0)) (cl_sup s0)" using assms(1) by (simp add: at_rest_def)
    moreover have "hm_contains (path_of r) (su_senders (cl_sup s0))" using 1 by (auto simp: hm_contains_map_of)
    ultimately have "path_parent (path_of r) = sm_root_path (cl_system s0)"
      by (auto simp: sup_books_def hm_contains_keys set_get_childs)
    with 1 top show ?thesis by blast
  next
    case 2
    have "actor_at_rest s0 j q" using assms(1) 2 by (auto simp: at_rest_def)
    then have "sup_books (path_of q) (cx_sup (ru_ctx (load_runner s0 q)))" by (simp add: actor_at_rest_def)
    moreover have "hm_contains (path_of r) (senders_of q)" using 2 by (auto simp: hm_contains_map_of)
    ultimately have "path_parent (path_of r) = path_of q"
      by (auto simp: sup_books_def hm_contains_keys set_get_childs)
    with 2 child show ?thesis by blast
  qed
qed

lemma at_rest_finite: "at_rest H s \<Longrightarrow> finite (dom (cl_nodes s))"
  by (simp add: at_rest_def)

lemma at_rest_actor: "at_rest H s \<Longrightarrow> cl_nodes s i = Some r \<Longrightarrow> actor_at_rest s i r"
  unfolding at_rest_def by blast

lemma at_rest_path: "at_rest H s \<Longrightarrow> cl_nodes s i = Some r \<Longrightarrow> wf_path (path_of r) \<and> 1 < path_level (path_of r)"
  using at_rest_actor [of H s i r] by (simp add: actor_at_rest_def)

lemma at_rest_tame: "at_rest H s \<Longrightarrow> tame_hooks (H i)"
  by (simp add: at_rest_def)

lemma at_rest_no_zero: "at_rest H s \<Longrightarrow> cl_nodes s k = Some r \<Longrightarrow> k \<noteq> 0"
  unfolding at_rest_def by (metis option.distinct(1))

lemma at_rest_path_neq_root:
  assumes "at_rest H s0" and "cl_nodes s0 i = Some r"
  shows "path_of r \<noteq> sm_root_path (cl_system s0)"
proof -
  have "1 < path_level (path_of r)" "path_level (sm_root_path (cl_system s0)) = 1"
    using assms by (auto simp: at_rest_def actor_at_rest_def)
  then show ?thesis by auto
qed

lemma path_level_parent: "1 < path_level p \<Longrightarrow> path_level p = Suc (path_level (path_parent p))"
  by (simp add: path_level_def path_parent_segments)

lemma path_div_parent_key: "wf_path p \<Longrightarrow> 1 \<le> path_level p \<Longrightarrow> path_div (path_parent p) (path_key p) = p"
  by (auto simp: segments_inject [symmetric] path_div_segments path_parent_segments path_key_def path_level_def
      wf_path_iff path_tokens_segment)

lemma at_rest_child:
  assumes "at_rest H s0" and "cl_nodes s0 k = Some r" and "parent_of r = Some j" and "j \<noteq> 0"
  obtains q where "cl_nodes s0 j = Some q" "path_parent (path_of r) = path_of q"
    "map_of (senders_of q) (path_of r) = Some k" "path_level (path_of r) = Suc (path_level (path_of q))"
proof -
  from at_rest_parent [OF assms(1,2)] assms(3,4) obtain q where q: "cl_nodes s0 j = Some q"
    "path_parent (path_of r) = path_of q" "map_of (senders_of q) (path_of r) = Some k"
    by (metis option.inject)
  have "1 < path_level (path_of r)" using assms(1,2) by (auto simp: at_rest_def actor_at_rest_def)
  from path_level_parent [OF this] q that show ?thesis by simp
qed

lemma at_rest_senders:
  assumes "at_rest H s0" and "cl_nodes s0 i = Some q" and "map_of (senders_of q) p = Some k"
  obtains r where "cl_nodes s0 k = Some r" "path_of r = p" "parent_of r = Some i"
proof -
  have "actor_at_rest s0 i q" using assms(1,2) by (auto simp: at_rest_def)
  then show ?thesis using assms(3) that by (auto simp: actor_at_rest_def)
qed

lemma at_rest_inj:
  "at_rest H s0 \<Longrightarrow> cl_nodes s0 i = Some r \<Longrightarrow> cl_nodes s0 j = Some q \<Longrightarrow> path_of r = path_of q \<Longrightarrow> i = j"
  unfolding at_rest_def by blast

lemma at_rest_family:
  assumes "at_rest H s0" and "cl_nodes s0 i = Some r0"
  shows "(\<exists>p. map_of (senders_of r0) p = Some k) \<longleftrightarrow> (\<exists>rk. cl_nodes s0 k = Some rk \<and> parent_of rk = Some i)"
proof
  assume "\<exists>p. map_of (senders_of r0) p = Some k"
  then show "\<exists>rk. cl_nodes s0 k = Some rk \<and> parent_of rk = Some i"
    using at_rest_senders [OF assms] by metis
next
  assume "\<exists>rk. cl_nodes s0 k = Some rk \<and> parent_of rk = Some i"
  then obtain rk where k: "cl_nodes s0 k = Some rk" "parent_of rk = Some i" by blast
  from at_rest_child [OF assms(1) k at_rest_no_zero [OF assms]] assms(2)
  show "\<exists>p. map_of (senders_of r0) p = Some k" by (metis option.inject)
qed

lemma at_rest_level:
  assumes "at_rest H s0" and "cl_nodes s0 i = Some r0" and "cl_nodes s0 k = Some rk" and "parent_of rk = Some i"
  shows "path_level (path_of rk) = Suc (path_level (path_of r0))" and "path_parent (path_of rk) = path_of r0"
  using at_rest_child [OF assms(1,3,4) at_rest_no_zero [OF assms(1,2)]] assms(2) by (metis option.inject)+

section \<open>Creating actors\<close>

definition open_channels :: "nat \<Rightarrow> 'm channels \<Rightarrow> 'm channels" where
  "open_channels i w = w\<lparr>nw_mail := (nw_mail w)(i := []), nw_signals := (nw_signals w)(i := []),
     nw_actions := (nw_actions w)(i := []), nw_open := (nw_open w)(i := True)\<rparr>"

text \<open>The new runner becomes a task of its own, or has already ended.\<close>

definition adopt_runner :: "nat \<Rightarrow> ('a, 'h, 'm) actor_runner \<Rightarrow> ('a, 'h, 'm) cluster \<Rightarrow> ('a, 'h, 'm) cluster" where
  "adopt_runner i r s =
     (let s = s\<lparr>cl_nodes := (cl_nodes s)(i \<mapsto> r)\<rparr>
      in if ru_life r = Terminated then set_net (close_channels i (cl_net s)) s else s)"

text \<open>\<open>System::create_actor\<close> for an actor that is number \<open>i\<close>.\<close>

definition cl_create_root ::
  "('a, 'h, 'm) actor_hooks \<Rightarrow> nat \<Rightarrow> 'a \<Rightarrow> string \<Rightarrow> ('a, 'h, 'm) cluster
    \<Rightarrow> (actor_error + nat) \<times> ('a, 'h, 'm) cluster" where
  "cl_create_root H i actor name s =
     (let s1 = set_net (open_channels i (cl_net s)) s;
          path = path_div (sm_root_path (cl_system s)) name;
          r = spawned (H i) channel_net actor i [] (su_signal (cl_sup s1)) (sm_config (cl_system s1)) path (cl_sup s1)
      in (case system_create_actor (spawn (H i) channel_net actor i i i []) name (cl_system s1) of
           (res, sm) \<Rightarrow>
             (res, if hm_contains path (cl_registry s) then s else adopt_runner i r (s1\<lparr>cl_system := sm\<rparr>))))"

text \<open>\<open>ActorContext::create_child\<close>, called by actor \<open>j\<close> (whose runner is \<open>q\<close>).\<close>

definition cl_create_child ::
  "('a, 'h, 'm) actor_hooks \<Rightarrow> nat \<Rightarrow> ('a, 'h, 'm) actor_runner \<Rightarrow> nat \<Rightarrow> 'a \<Rightarrow> string \<Rightarrow> ('a, 'h, 'm) cluster
    \<Rightarrow> (actor_error + nat) \<times> ('a, 'h, 'm) cluster" where
  "cl_create_child H j q i actor name s =
     (let s1 = set_net (open_channels i (cl_net s)) s;
          c = ru_ctx (load_runner s1 q);
          r = spawned (H i) channel_net actor i [] (su_signal (cx_sup c)) (cx_config c) (path_div (cx_path c) name) (cx_sup c)
      in (case ctx_create_child (spawn (H i) channel_net actor i i i []) name c of
           (res, c') \<Rightarrow>
             (res, if path_level (cx_path c) \<ge> MAX_ACTOR_DEPTH \<or> hm_contains (path_div (cx_path c) name) (cl_registry s)
                   then s else adopt_runner i r (save_runner j (q\<lparr>ru_ctx := c'\<rparr>) s1))))"

section \<open>Growing trees\<close>

definition no_channels :: "'m channels" where
  "no_channels = \<lparr>nw_mail = (\<lambda>_. []), nw_signals = (\<lambda>_. []), nw_actions = (\<lambda>_. []), nw_open = (\<lambda>i. i = 0)\<rparr>"

definition cl_new :: "config \<Rightarrow> ('a, 'h, 'm) cluster" where
  "cl_new conf = \<lparr>cl_system = system_new conf 0 no_channels, cl_up = True, cl_shutdown = False,
     cl_cancelled = False, cl_nodes = Map.empty\<rparr>"

definition cl_tell :: "nat \<Rightarrow> 'm \<Rightarrow> ('a, 'h, 'm) cluster \<Rightarrow> ('a, 'h, 'm) cluster" where
  "cl_tell i m s = set_net ((cl_net s)\<lparr>nw_mail := (nw_mail (cl_net s))(i := nw_mail (cl_net s) i @ [m])\<rparr>) s"

text \<open>A start that neither fails nor touches the tree.\<close>

definition tame_start :: "('a, 'm, 'c) hooks \<Rightarrow> bool" where
  "tame_start h \<longleftrightarrow> (\<forall>a c. \<exists>a'. hk_pre_start h a c = (Inr (), a', c))"

text \<open>A start that succeeds, and what the actor then receives while it runs.\<close>

lemma spawned_runs:
  fixes h :: "('a, 'm, ('ref, 'h, 'snd, 'sig, 'w) ctx) hooks"
  assumes "hk_pre_start h actor (ctx_new path (sup_new (su_registry u) (su_helpers u) child_signal (su_world u)) (Some sig) conf)
      = (Inr (), a', c')"
    and "run_loop h N evs \<lparr>ru_actor = a', ru_path = path, ru_ctx = c', ru_life = Started, ru_retries = 0, ru_init = False,
       ru_trace = [TPreStart, TInit (Inr ())]\<rparr> = (None, r, rest)"
  shows "spawned h N actor child_signal evs sig conf path u = r"
proof -
  let ?r0 = "runner_new actor path (Some sig) (su_registry u) (su_helpers u) child_signal (su_world u) conf
    :: ('a, ('ref, 'h, 'snd, 'sig, 'w) ctx) runner"
  let ?r1 = "?r0\<lparr>ru_actor := a', ru_ctx := c', ru_life := Started, ru_trace := [TPreStart]\<rparr>"
  have "runner_step h N ?r0 evs = (True, ?r1, evs)"
    using assms(1) by (simp add: runner_step_def runner_new_def observe_def)
  moreover have "runner_step h N ?r1 evs = (False, r, rest)"
    using assms(2) by (simp add: runner_step_def runner_new_def observe_def send_init_def)
  ultimately show ?thesis
    by (simp add: spawned_def runner_init_step runner_init_end)
qed

lemmas spawned_from = spawned_runs [where evs = "[]" and rest = "[]", simplified, OF _ refl]

lemma spawned_started:
  fixes h :: "('a, 'm, ('ref, 'h, 'snd, 'sig, 'w) ctx) hooks"
  assumes "tame_start h"
  shows "\<exists>a'. spawned h N actor child_signal [] sig conf path u
    = \<lparr>ru_actor = a', ru_path = path,
       ru_ctx = ctx_new path (sup_new (su_registry u) (su_helpers u) child_signal (su_world u)) (Some sig) conf,
       ru_life = Started, ru_retries = 0, ru_init = False, ru_trace = [TPreStart, TInit (Inr ())]\<rparr>"
proof -
  let ?c = "ctx_new path (sup_new (su_registry u) (su_helpers u) child_signal (su_world u)) (Some sig) conf"
  obtain a' where "hk_pre_start h actor ?c = (Inr (), a', ?c)"
    using assms unfolding tame_start_def by blast
  from spawned_from [OF this, of N] show ?thesis by blast
qed

section \<open>A new actor leaves the tree consistent\<close>

lemma at_rest_registered:
  assumes "at_rest H s" and "cl_nodes s i = Some r"
  shows "hm_contains (path_of r) (cl_registry s)"
proof -
  from at_rest_actor [OF assms] consider "map_of (su_senders (cl_sup s)) (path_of r) = Some i"
    | j q where "cl_nodes s j = Some q" "map_of (senders_of q) (path_of r) = Some i"
    by (auto simp: actor_at_rest_def)
  then show ?thesis
  proof cases
    case 1
    then have "path_of r \<in> set (hm_keys (su_senders (cl_sup s)))"
      by (simp add: hm_contains_keys [symmetric] hm_contains_map_of)
    moreover have "sup_books (sm_root_path (cl_system s)) (cl_sup s)"
      using assms(1) by (simp add: at_rest_def)
    ultimately show ?thesis by (simp add: sup_books_def set_get_childs)
  next
    case 2
    then have "path_of r \<in> set (hm_keys (senders_of q))"
      by (simp add: hm_contains_keys [symmetric] hm_contains_map_of)
    moreover have "sup_books (path_of q) (cx_sup (ru_ctx (load_runner s q)))"
      using at_rest_actor [OF assms(1) 2(1)] by (simp add: actor_at_rest_def)
    ultimately show ?thesis by (simp add: sup_books_def set_get_childs)
  qed
qed

lemma books_grow:
  assumes "sup_books parent u" and "su_registry u' = hm_insert p x (su_registry u)"
    and "if path_parent p = parent then su_senders u' = hm_insert p y (su_senders u) else su_senders u' = su_senders u"
  shows "sup_books parent u'"
  using assms by (auto simp: sup_books_def sup_get_childs_def distinct_hm_keys_insert split: if_splits)

lemma open_channels_sel [simp]:
  "nw_mail (open_channels i w) = (nw_mail w)(i := [])" "nw_signals (open_channels i w) = (nw_signals w)(i := [])"
  "nw_actions (open_channels i w) = (nw_actions w)(i := [])" "nw_open (open_channels i w) = (nw_open w)(i := True)"
  by (simp_all add: open_channels_def)

lemma actor_at_rest_grow:
  assumes rest: "at_rest H s" and k: "cl_nodes s k = Some q" "k \<noteq> i"
    and reg: "cl_registry t = hm_insert p i (cl_registry s)" and free: "\<not> hm_contains p (cl_registry s)"
    and net: "cl_net t = open_channels i (cl_net s)"
    and nodes: "\<And>m rm. cl_nodes s m = Some rm \<Longrightarrow> \<exists>rm'. cl_nodes t m = Some rm' \<and> path_of rm' = path_of rm
        \<and> parent_of rm' = parent_of rm \<and> (\<forall>x. x \<noteq> p \<longrightarrow> map_of (senders_of rm') x = map_of (senders_of rm) x)"
    and sys: "\<And>x. x \<noteq> p \<Longrightarrow> map_of (su_senders (cl_sup t)) x = map_of (su_senders (cl_sup s)) x"
    and q': "path_of q' = path_of q" "parent_of q' = parent_of q" "ru_life q' = ru_life q" "ru_init q' = ru_init q"
      "su_signal (cx_sup (ru_ctx q')) = su_signal (cx_sup (ru_ctx q))"
    and own: "if path_parent p = path_of q
      then senders_of q' = hm_insert p i (senders_of q) \<and> (\<exists>r. cl_nodes t i = Some r \<and> path_of r = p \<and> parent_of r = Some k)
      else senders_of q' = senders_of q"
  shows "actor_at_rest t k q'"
proof -
  note old = at_rest_actor [OF rest k(1), unfolded actor_at_rest_def]
  have neq: "path_of q \<noteq> p" using at_rest_registered [OF rest k(1)] free by auto
  have "sup_books (path_of q') (cx_sup (ru_ctx (load_runner t q')))"
    by (rule books_grow [of _ "cx_sup (ru_ctx (load_runner s q))" _ p i i]) (use old own reg q'(1) in auto)
  moreover have "\<exists>rx. cl_nodes t x = Some rx \<and> path_of rx = y \<and> parent_of rx = Some k"
    if y: "map_of (senders_of q') y = Some x" for x y
  proof (cases "path_parent p = path_of q \<and> y = p")
    case True
    then show ?thesis using own y by auto
  next
    case False
    then have "map_of (senders_of q) y = Some x" using own y by (auto split: if_splits)
    then obtain rx where "cl_nodes s x = Some rx" "path_of rx = y" "parent_of rx = Some k" using old by blast
    with nodes show ?thesis by fastforce
  qed
  moreover have "parent_of q' = Some 0 \<and> map_of (su_senders (cl_sup t)) (path_of q') = Some k
      \<or> (\<exists>j rj. j \<noteq> 0 \<and> cl_nodes t j = Some rj \<and> parent_of q' = Some j \<and> map_of (senders_of rj) (path_of q') = Some k)"
  proof -
    from old consider "parent_of q = Some 0" "map_of (su_senders (cl_sup s)) (path_of q) = Some k"
      | j rj where "j \<noteq> 0" "cl_nodes s j = Some rj" "parent_of q = Some j" "map_of (senders_of rj) (path_of q) = Some k"
      by blast
    then show ?thesis
    proof cases
      case 1
      then show ?thesis using sys [OF neq] q' by simp
    next
      case 2
      from nodes [OF 2(2)] obtain rm' where "cl_nodes t j = Some rm'" "map_of (senders_of rm') (path_of q) = Some k"
        using neq 2(4) by auto
      then show ?thesis using 2 q' by auto
    qed
  qed
  ultimately show ?thesis
    using old q' k(2) net by (simp add: actor_at_rest_def)
qed

text \<open>What a creation does to a system: actor \<open>i\<close> with runner \<open>r\<close> is new, at path \<open>p\<close>, and
  \<open>j\<close>, the system or an actor, has it among its senders.\<close>

definition grown ::
  "nat \<Rightarrow> actor_path \<Rightarrow> nat \<Rightarrow> ('a, 'h, 'm) actor_runner \<Rightarrow> ('a, 'h, 'm) cluster \<Rightarrow> ('a, 'h, 'm) cluster \<Rightarrow> bool" where
  "grown i p j r s t \<longleftrightarrow>
     i \<noteq> 0 \<and> cl_nodes s i = None \<and> wf_path p \<and> 1 < path_level p \<and> path_level p \<le> MAX_ACTOR_DEPTH
   \<and> \<not> hm_contains p (cl_registry s) \<and> cl_registry t = hm_insert p i (cl_registry s)
   \<and> cl_net t = open_channels i (cl_net s) \<and> cl_up t = cl_up s \<and> cl_shutdown t = cl_shutdown s
   \<and> sm_root_path (cl_system t) = sm_root_path (cl_system s) \<and> su_signal (cl_sup t) = su_signal (cl_sup s)
   \<and> cl_nodes t i = Some r \<and> path_of r = p \<and> ru_life r = Started \<and> \<not> ru_init r
   \<and> su_signal (cx_sup (ru_ctx r)) = i \<and> senders_of r = [] \<and> parent_of r = Some j
   \<and> (if j = 0 then path_parent p = sm_root_path (cl_system s) \<and> su_senders (cl_sup t) = hm_insert p i (su_senders (cl_sup s))
         \<and> (\<forall>k. k \<noteq> i \<longrightarrow> cl_nodes t k = cl_nodes s k)
       else (\<exists>q q'. cl_nodes s j = Some q \<and> cl_nodes t j = Some q' \<and> path_parent p = path_of q \<and> path_of q' = path_of q
         \<and> parent_of q' = parent_of q \<and> ru_life q' = ru_life q \<and> ru_init q' = ru_init q
         \<and> su_signal (cx_sup (ru_ctx q')) = su_signal (cx_sup (ru_ctx q)) \<and> senders_of q' = hm_insert p i (senders_of q))
         \<and> su_senders (cl_sup t) = su_senders (cl_sup s) \<and> (\<forall>k. k \<noteq> i \<longrightarrow> k \<noteq> j \<longrightarrow> cl_nodes t k = cl_nodes s k))"

lemma grown_parts:
  assumes "grown i p j r s t"
  shows "i \<noteq> 0" "cl_nodes s i = None" "wf_path p" "1 < path_level p" "path_level p \<le> MAX_ACTOR_DEPTH"
    "\<not> hm_contains p (cl_registry s)" "cl_registry t = hm_insert p i (cl_registry s)"
    "cl_net t = open_channels i (cl_net s)" "cl_nodes t i = Some r" "path_of r = p" "ru_life r = Started" "\<not> ru_init r"
    "su_signal (cx_sup (ru_ctx r)) = i" "senders_of r = []" "parent_of r = Some j"
  using assms unfolding grown_def by blast+

lemma grown_flags:
  assumes "grown i p j r s t"
  shows "cl_up t = cl_up s" "cl_shutdown t = cl_shutdown s" "sm_root_path (cl_system t) = sm_root_path (cl_system s)"
    "su_signal (cl_sup t) = su_signal (cl_sup s)"
  using assms unfolding grown_def by blast+

lemma grown_parent:
  assumes "grown i p j r s t"
  obtains (top) "j = 0" "path_parent p = sm_root_path (cl_system s)" "su_senders (cl_sup t) = hm_insert p i (su_senders (cl_sup s))"
      "\<And>k. k \<noteq> i \<Longrightarrow> cl_nodes t k = cl_nodes s k"
  | (child) q q' where "j \<noteq> 0" "cl_nodes s j = Some q" "cl_nodes t j = Some q'" "path_parent p = path_of q" "path_of q' = path_of q"
      "parent_of q' = parent_of q" "ru_life q' = ru_life q" "ru_init q' = ru_init q"
      "su_signal (cx_sup (ru_ctx q')) = su_signal (cx_sup (ru_ctx q))" "senders_of q' = hm_insert p i (senders_of q)"
      "su_senders (cl_sup t) = su_senders (cl_sup s)" "\<And>k. k \<noteq> i \<Longrightarrow> k \<noteq> j \<Longrightarrow> cl_nodes t k = cl_nodes s k"
proof (cases "j = 0")
  case True
  with assms have "path_parent p = sm_root_path (cl_system s) \<and> su_senders (cl_sup t) = hm_insert p i (su_senders (cl_sup s))
      \<and> (\<forall>k. k \<noteq> i \<longrightarrow> cl_nodes t k = cl_nodes s k)" by (simp add: grown_def)
  with True top show ?thesis by blast
next
  case False
  with assms have "(\<exists>q q'. cl_nodes s j = Some q \<and> cl_nodes t j = Some q' \<and> path_parent p = path_of q \<and> path_of q' = path_of q
         \<and> parent_of q' = parent_of q \<and> ru_life q' = ru_life q \<and> ru_init q' = ru_init q
         \<and> su_signal (cx_sup (ru_ctx q')) = su_signal (cx_sup (ru_ctx q)) \<and> senders_of q' = hm_insert p i (senders_of q))
         \<and> su_senders (cl_sup t) = su_senders (cl_sup s) \<and> (\<forall>k. k \<noteq> i \<longrightarrow> k \<noteq> j \<longrightarrow> cl_nodes t k = cl_nodes s k)"
    by (simp add: grown_def)
  with False child show ?thesis by blast
qed

lemma grown_old:
  assumes rest: "at_rest H s" and g: "grown i p j r s t" and k: "cl_nodes s k = Some q"
  shows "\<exists>q'. cl_nodes t k = Some q' \<and> path_of q' = path_of q \<and> parent_of q' = parent_of q \<and> ru_life q' = ru_life q
      \<and> ru_init q' = ru_init q \<and> su_signal (cx_sup (ru_ctx q')) = su_signal (cx_sup (ru_ctx q))
      \<and> (if path_parent p = path_of q
         then senders_of q' = hm_insert p i (senders_of q) \<and> (\<exists>r. cl_nodes t i = Some r \<and> path_of r = p \<and> parent_of r = Some k)
         else senders_of q' = senders_of q)"
proof -
  have ki: "k \<noteq> i" using k grown_parts(2) [OF g] by auto
  from g show ?thesis
  proof (cases rule: grown_parent)
    case top
    then show ?thesis using at_rest_path_neq_root [OF rest k] k ki by auto
  next
    case (child q0 q1)
    show ?thesis
    proof (cases "k = j")
      case True
      then show ?thesis using child k grown_parts(9,10,15) [OF g] by auto
    next
      case False
      then have "path_of q \<noteq> path_of q0" using at_rest_inj [OF rest k child(2)] by blast
      then show ?thesis using child k ki False by auto
    qed
  qed
qed

lemma grown_was: "grown i p j r s t \<Longrightarrow> cl_nodes t k = Some q \<Longrightarrow> k = i \<or> (\<exists>q0. cl_nodes s k = Some q0)"
  unfolding grown_def by (cases "k = i"; cases "k = j") (auto split: if_splits)

text \<open>The new path has nobody below it, so its actor starts without children.\<close>

lemma grown_leaf:
  assumes rest: "at_rest H s" and g: "grown i p j r s t" and reg: "hm_contains x (cl_registry s)"
  shows "path_parent x \<noteq> p"
proof
  assume x: "path_parent x = p"
  obtain k q where k: "cl_nodes s k = Some q" "path_of q = x" using rest reg unfolding at_rest_def by blast
  show False
  proof (cases rule: at_rest_parent [OF rest k(1)])
    case 1
    then show ?thesis using x k grown_parts(4) [OF g] rest by (auto simp: at_rest_def)
  next
    case (2 m q2)
    then show ?thesis using x k grown_parts(6) [OF g] at_rest_registered [OF rest 2(2)] by auto
  qed
qed

lemma grown_new:
  assumes rest: "at_rest H s" and g: "grown i p j r s t"
  shows "actor_at_rest t i r"
proof -
  note new = grown_parts [OF g]
  have "path_parent p \<noteq> p" using path_level_parent [OF new(4)] by auto
  then have "sup_get_childs p (cx_sup (ru_ctx (load_runner t r))) = []"
    using grown_leaf [OF rest g] by (auto simp: sup_get_childs_def new(7) filter_empty_conv hm_contains_keys)
  moreover have "distinct (hm_keys (cl_registry t))"
    using rest by (auto simp: new(7) at_rest_def sup_books_def distinct_hm_keys_insert)
  ultimately have "sup_books p (cx_sup (ru_ctx (load_runner t r)))"
    by (simp add: sup_books_def new(14) hm_keys_def)
  moreover from g have "parent_of r = Some 0 \<and> map_of (su_senders (cl_sup t)) p = Some i
    \<or> (\<exists>j rj. j \<noteq> 0 \<and> cl_nodes t j = Some rj \<and> parent_of r = Some j \<and> map_of (senders_of rj) p = Some i)"
    by (cases rule: grown_parent) (use new(15) in auto)
  ultimately show ?thesis
    using new by (simp add: actor_at_rest_def)
qed

lemma grown_all:
  assumes rest: "at_rest H s" and g: "grown i p j r s t" and k: "cl_nodes t k = Some q'"
  shows "actor_at_rest t k q'"
proof (cases "k = i")
  case True
  then show ?thesis using grown_new [OF rest g] k grown_parts(9) [OF g] by simp
next
  case False
  then obtain q where q: "cl_nodes s k = Some q" using grown_was [OF g k] by blast
  have nodes: "\<exists>rm'. cl_nodes t m = Some rm' \<and> path_of rm' = path_of rm
      \<and> parent_of rm' = parent_of rm \<and> (\<forall>x. x \<noteq> p \<longrightarrow> map_of (senders_of rm') x = map_of (senders_of rm) x)"
    if "cl_nodes s m = Some rm" for m rm
    using grown_old [OF rest g that] by (auto split: if_splits)
  have sys: "map_of (su_senders (cl_sup t)) x = map_of (su_senders (cl_sup s)) x" if "x \<noteq> p" for x
    using g by (cases rule: grown_parent) (use that in simp_all)
  from grown_old [OF rest g q] k show ?thesis
    by (intro actor_at_rest_grow [OF rest q False grown_parts(7) [OF g] grown_parts(6) [OF g] grown_parts(8) [OF g] nodes sys]) auto
qed

lemma grown_inj:
  assumes rest: "at_rest H s" and g: "grown i p j r s t"
    and "cl_nodes t k = Some x" "cl_nodes t m = Some y" "path_of x = path_of y"
  shows "k = m"
proof -
  have fresh: "path_of z \<noteq> p" if "cl_nodes s n = Some z" for n z
    using at_rest_registered [OF rest that] grown_parts(6) [OF g] by auto
  show ?thesis
  proof (cases "k = i \<or> m = i")
    case True
    then show ?thesis
      using assms(3-5) grown_was [OF g, of k x] grown_was [OF g, of m y] grown_old [OF rest g] grown_parts(9,10) [OF g] fresh by fastforce
  next
    case False
    with grown_was [OF g] assms(3,4) obtain x0 y0 where "cl_nodes s k = Some x0" "cl_nodes s m = Some y0" by metis
    then show ?thesis using grown_old [OF rest g] assms(3-5) at_rest_inj [OF rest] by (metis option.inject)
  qed
qed

lemma grown_known:
  assumes rest: "at_rest H s" and g: "grown i p j r s t" and x: "hm_contains x (cl_registry t)"
  shows "\<exists>k q. cl_nodes t k = Some q \<and> path_of q = x"
proof (cases "x = p")
  case True
  then show ?thesis using grown_parts(9,10) [OF g] by auto
next
  case False
  then have "hm_contains x (cl_registry s)" using x by (simp add: grown_parts(7) [OF g])
  then obtain k q where "cl_nodes s k = Some q" "path_of q = x" using rest unfolding at_rest_def by blast
  with grown_old [OF rest g this(1)] show ?thesis by auto
qed

lemma grown_root:
  assumes rest: "at_rest H s" and g: "grown i p j r s t"
  shows "sup_books (sm_root_path (cl_system s)) (cl_sup t)"
    and "map_of (su_senders (cl_sup t)) x = Some k \<Longrightarrow> \<exists>q. cl_nodes t k = Some q \<and> path_of q = x \<and> parent_of q = Some 0"
proof -
  let ?root = "sm_root_path (cl_system s)"
  have root: "sup_books ?root (cl_sup s)" using rest by (simp add: at_rest_def)
  from g have "if path_parent p = ?root then su_senders (cl_sup t) = hm_insert p i (su_senders (cl_sup s))
      else su_senders (cl_sup t) = su_senders (cl_sup s)"
    by (cases rule: grown_parent) (use at_rest_path_neq_root [OF rest] in auto)
  from books_grow [OF root grown_parts(7) [OF g] this] show "sup_books ?root (cl_sup t)" .
  assume x: "map_of (su_senders (cl_sup t)) x = Some k"
  show "\<exists>q. cl_nodes t k = Some q \<and> path_of q = x \<and> parent_of q = Some 0"
  proof (cases "j = 0 \<and> x = p")
    case True
    from g have "su_senders (cl_sup t) = hm_insert p i (su_senders (cl_sup s))"
      by (cases rule: grown_parent) (use True in simp_all)
    then have "k = i" using x True by simp
    then show ?thesis using True grown_parts(9,10,15) [OF g] by simp
  next
    case False
    from g have "map_of (su_senders (cl_sup s)) x = Some k"
      by (cases rule: grown_parent) (use False x in simp_all)
    then obtain q where "cl_nodes s k = Some q" "path_of q = x" "parent_of q = Some 0"
      using rest unfolding at_rest_def by blast
    with grown_old [OF rest g this(1)] show ?thesis by auto
  qed
qed

lemma at_rest_grown:
  assumes rest: "at_rest H s" and g: "grown i p j r s t"
  shows "at_rest H t"
proof -
  have "finite (dom (cl_nodes t))"
  proof (rule finite_subset)
    show "dom (cl_nodes t) \<subseteq> insert i (dom (cl_nodes s))" using grown_was [OF g] by auto
    show "finite (insert i (dom (cl_nodes s)))" using at_rest_finite [OF rest] by simp
  qed
  moreover have "cl_nodes t 0 = None"
    using grown_was [OF g, of 0] grown_parts(1) [OF g] at_rest_no_zero [OF rest, of 0] by (cases "cl_nodes t 0") auto
  moreover have "cl_up t" "\<not> cl_shutdown t" "su_signal (cl_sup t) = 0" "nw_open (cl_net t) 0" "nw_signals (cl_net t) 0 = []"
    "wf_path (sm_root_path (cl_system t))" "path_level (sm_root_path (cl_system t)) = 1" "\<forall>i. tame_hooks (H i)"
    using rest grown_flags [OF g] grown_parts(1,8) [OF g] by (simp_all add: at_rest_def)
  moreover have "\<forall>k m x y. cl_nodes t k = Some x \<longrightarrow> cl_nodes t m = Some y \<longrightarrow> path_of x = path_of y \<longrightarrow> k = m"
    using grown_inj [OF rest g] by blast
  ultimately show ?thesis
    unfolding at_rest_def
    using grown_all [OF rest g] grown_known [OF rest g] grown_root [OF rest g] grown_flags(3) [OF g] by simp
qed

section \<open>Every system that is built is consistent\<close>

lemma path_level_div: "wf_segment name \<Longrightarrow> path_level (path_div p name) = Suc (path_level p)"
  by (simp add: path_level_def path_div_segments path_tokens_segment)

lemma at_rest_new:
  assumes "\<forall>i. tame_hooks (H i)"
  shows "at_rest H (cl_new conf)"
proof -
  have "path_from ''/user'' = ActorPath [''user'']" by code_simp
  moreover have "wf_path (path_from ''/user'')" by (rule path_from_wf)
  ultimately show ?thesis
    using assms by (simp add: at_rest_def cl_new_def system_new_def no_channels_def sup_new_def path_level_def
        sup_books_def sup_get_childs_def hm_keys_def hm_contains_def)
qed

lemma at_rest_root_path:
  "at_rest H s \<Longrightarrow> wf_path (sm_root_path (cl_system s)) \<and> path_level (sm_root_path (cl_system s)) = 1"
  by (simp add: at_rest_def)

lemma create_actor_started:
  assumes "tame_start h" and "\<not> hm_contains path (su_registry u)"
  shows "sup_create_actor (spawn h N actor a b cs []) conf path u
    = (Inr a, u\<lparr>su_registry := hm_insert path a (su_registry u), su_senders := hm_insert path b (su_senders u)\<rparr>)"
proof -
  obtain a' where "spawned h N actor cs [] (su_signal u) conf path u
    = \<lparr>ru_actor = a', ru_path = path,
       ru_ctx = ctx_new path (sup_new (su_registry u) (su_helpers u) cs (su_world u)) (Some (su_signal u)) conf,
       ru_life = Started, ru_retries = 0, ru_init = False, ru_trace = [TPreStart, TInit (Inr ())]\<rparr>"
    using spawned_started [OF assms(1)] by blast
  then show ?thesis
    using assms(2) by (simp add: sup_create_actor_def spawn_def Let_def ctx_new_def sup_new_def)
qed

lemma create_actor_taken:
  "hm_contains path (su_registry u) \<Longrightarrow> \<exists>e. sup_create_actor st conf path u = (Inl e, u)"
  by (simp add: sup_create_actor_def)

lemma spawned_sel:
  assumes "tame_start h"
  shows "ru_life (spawned h N actor cs [] sig conf path u) = Started"
    and "\<not> ru_init (spawned h N actor cs [] sig conf path u)"
    and "path_of (spawned h N actor cs [] sig conf path u) = path"
    and "parent_of (spawned h N actor cs [] sig conf path u) = Some sig"
    and "senders_of (spawned h N actor cs [] sig conf path u) = []"
    and "su_signal (cx_sup (ru_ctx (spawned h N actor cs [] sig conf path u))) = cs"
  using spawned_started [OF assms, of N actor cs sig conf path u] by (auto simp: ctx_new_def sup_new_def)

lemma at_rest_create_root:
  assumes rest: "at_rest H s" and h: "tame_start (H i)" and i: "i \<noteq> 0" "cl_nodes s i = None" and name: "wf_segment name"
    and new: "cl_create_root H i actor name s = (Inr a, t)"
  shows "at_rest H t"
proof -
  define p where "p = path_div (sm_root_path (cl_system s)) name"
  define s1 where "s1 = set_net (open_channels i (cl_net s)) s"
  define r where "r = spawned (H i) channel_net actor i [] (su_signal (cl_sup s1)) (sm_config (cl_system s1)) p (cl_sup s1)"
  have same: "sm_root_path (cl_system s1) = sm_root_path (cl_system s)" "cl_registry s1 = cl_registry s"
    by (simp_all add: s1_def)
  have free: "\<not> hm_contains p (cl_registry s)"
  proof
    assume "hm_contains p (cl_registry s)"
    then have "\<exists>e. sup_create_actor (spawn (H i) channel_net actor i i i []) (sm_config (cl_system s1)) p (cl_sup s1)
        = (Inl e, cl_sup s1)"
      using same by (intro create_actor_taken) simp
    with new same show False
      by (auto simp: cl_create_root_def Let_def system_create_actor_def p_def [symmetric] s1_def [symmetric])
  qed
  have t: "t = adopt_runner i r (s1\<lparr>cl_system := (cl_system s1)\<lparr>sm_sup := (cl_sup s1)\<lparr>
      su_registry := hm_insert p i (cl_registry s), su_senders := hm_insert p i (su_senders (cl_sup s1))\<rparr>\<rparr>\<rparr>)"
    using new free create_actor_started [OF h, of p "cl_sup s1" channel_net] same
    by (auto simp: cl_create_root_def Let_def system_create_actor_def p_def [symmetric] s1_def [symmetric] r_def)
  have r: "ru_life r = Started" "\<not> ru_init r" "path_of r = p" "parent_of r = Some (su_signal (cl_sup s1))"
    "senders_of r = []" "su_signal (cx_sup (ru_ctx r)) = i"
    unfolding r_def by (rule spawned_sel [OF h])+
  have p: "wf_path p" "path_level p = 2" "path_parent p = sm_root_path (cl_system s)"
    using at_rest_root_path [OF rest] name by (simp_all add: p_def path_div_wf path_level_div path_parent_div)
  have z: "su_signal (cl_sup s) = 0" using rest by (simp add: at_rest_def)
  show ?thesis
    by (rule at_rest_grown [OF rest, where i = i and p = p and j = 0 and r = r])
      (simp add: grown_def i free t adopt_runner_def r p z s1_def MAX_ACTOR_DEPTH_def)
qed

lemma at_rest_create_child:
  assumes rest: "at_rest H s" and h: "tame_start (H i)" and i: "i \<noteq> 0" "cl_nodes s i = None" and name: "wf_segment name"
    and j: "cl_nodes s j = Some q" and new: "cl_create_child H j q i actor name s = (Inr a, t)"
  shows "at_rest H t"
proof -
  define p where "p = path_div (path_of q) name"
  define s1 where "s1 = set_net (open_channels i (cl_net s)) s"
  define c where "c = ru_ctx (load_runner s1 q)"
  define r where "r = spawned (H i) channel_net actor i [] (su_signal (cx_sup c)) (cx_config c) p (cx_sup c)"
  have same: "cx_path c = path_of q" "su_registry (cx_sup c) = cl_registry s" "su_senders (cx_sup c) = senders_of q"
    "su_signal (cx_sup c) = su_signal (cx_sup (ru_ctx q))" "su_helpers (cx_sup c) = su_helpers (cl_sup s)"
    "su_world (cx_sup c) = open_channels i (cl_net s)"
    by (simp_all add: s1_def c_def load_runner_def)
  note made = new [unfolded cl_create_child_def Let_def, folded s1_def, folded c_def, unfolded same(1), folded p_def]
  have depth: "\<not> path_level (path_of q) \<ge> MAX_ACTOR_DEPTH"
    using made same(1) by (auto simp: ctx_create_child_def)
  have free: "\<not> hm_contains p (cl_registry s)"
  proof
    assume "hm_contains p (cl_registry s)"
    then have "\<exists>e. sup_create_actor (spawn (H i) channel_net actor i i i []) (cx_config c) p (cx_sup c) = (Inl e, cx_sup c)"
      using same by (intro create_actor_taken) simp
    with made same(1) depth show False
      by (auto simp: ctx_create_child_def Let_def p_def [symmetric])
  qed
  define q' where "q' = q\<lparr>ru_ctx := c\<lparr>cx_sup := (cx_sup c)\<lparr>su_registry := hm_insert p i (cl_registry s),
      su_senders := hm_insert p i (senders_of q)\<rparr>\<rparr>\<rparr>"
  have t: "t = adopt_runner i r (save_runner j q' s1)"
    using made free depth create_actor_started [OF h, of p "cx_sup c" channel_net] same
    by (auto simp: ctx_create_child_def Let_def p_def [symmetric] r_def q'_def)
  have q': "path_of q' = path_of q" "parent_of q' = parent_of q" "ru_life q' = ru_life q" "ru_init q' = ru_init q"
    "su_signal (cx_sup (ru_ctx q')) = su_signal (cx_sup (ru_ctx q))" "senders_of q' = hm_insert p i (senders_of q)"
    "su_registry (cx_sup (ru_ctx q')) = hm_insert p i (cl_registry s)"
    "cx_world (ru_ctx q') = open_channels i (cl_net s)"
    unfolding q'_def using same by (simp_all add: c_def)
  have r: "ru_life r = Started" "\<not> ru_init r" "path_of r = p" "parent_of r = Some (su_signal (cx_sup c))"
    "senders_of r = []" "su_signal (cx_sup (ru_ctx r)) = i"
    unfolding r_def by (rule spawned_sel [OF h])+
  have q: "wf_path (path_of q)" "1 < path_level (path_of q)" "ru_life q = Started"
    "su_signal (cx_sup (ru_ctx q)) = j"
    using at_rest_actor [OF rest j] by (auto simp: actor_at_rest_def)
  then have p: "wf_path p" "1 < path_level p" "path_level p \<le> MAX_ACTOR_DEPTH" "path_parent p = path_of q"
    using name depth by (simp_all add: p_def path_div_wf path_level_div path_parent_div)
  have ji: "j \<noteq> i" "j \<noteq> 0" using j i at_rest_no_zero [OF rest j] by auto
  show ?thesis
    by (rule at_rest_grown [OF rest, where i = i and p = p and j = j and r = r])
      (use p in \<open>simp add: grown_def i free t adopt_runner_def r s1_def same q q' j ji\<close>)
qed

text \<open>A creation on a free path succeeds.\<close>

lemma create_root_ok:
  assumes "tame_start (H i)" and "\<not> hm_contains (path_div (sm_root_path (cl_system s)) name) (cl_registry s)"
  shows "\<exists>t r. cl_create_root H i actor name s = (Inr i, t) \<and> cl_nodes t = (cl_nodes s)(i \<mapsto> r)
    \<and> path_of r = path_div (sm_root_path (cl_system s)) name
    \<and> cl_registry t = hm_insert (path_div (sm_root_path (cl_system s)) name) i (cl_registry s)"
  using assms(2)
  by (auto simp: spawned_sel [OF assms(1)] cl_create_root_def Let_def system_create_actor_def adopt_runner_def
      create_actor_started [OF assms(1), of _ _ channel_net])

lemma create_child_ok:
  assumes "tame_start (H i)" and "path_level (path_of q) < MAX_ACTOR_DEPTH"
    and "\<not> hm_contains (path_div (path_of q) name) (cl_registry s)"
  shows "\<exists>t r. cl_create_child H j q i actor name s = (Inr i, t) \<and> cl_nodes t i = Some r
    \<and> path_of r = path_div (path_of q) name \<and> (\<forall>k. k \<noteq> i \<longrightarrow> k \<noteq> j \<longrightarrow> cl_nodes t k = cl_nodes s k)"
  using assms(2,3)
  by (auto simp: spawned_sel [OF assms(1)] cl_create_child_def Let_def ctx_create_child_def adopt_runner_def
      create_actor_started [OF assms(1), of _ _ channel_net])

text \<open>Consistency only looks at what an actor is in the tree, not at its state.\<close>

definition standing :: "('a, 'h, 'm) actor_runner \<Rightarrow> _" where
  "standing r = (path_of r, parent_of r, senders_of r, ru_life r, ru_init r, su_signal (cx_sup (ru_ctx r)))"

lemma sup_books_cong:
  "su_registry u = su_registry v \<Longrightarrow> su_senders u = su_senders v \<Longrightarrow> sup_books p u \<longleftrightarrow> sup_books p v"
  by (simp add: sup_books_def sup_get_childs_def)

lemma actor_at_rest_same:
  assumes "actor_at_rest s k q" and "standing q' = standing q" and "\<And>m. map_option standing (cl_nodes t m) = map_option standing (cl_nodes s m)"
    and "cl_registry t = cl_registry s" "su_senders (cl_sup t) = su_senders (cl_sup s)"
    and "nw_signals (cl_net t) k = nw_signals (cl_net s) k" "nw_actions (cl_net t) k = nw_actions (cl_net s) k"
    "nw_open (cl_net t) k = nw_open (cl_net s) k"
  shows "actor_at_rest t k q'"
proof -
  have eq: "path_of q' = path_of q" "parent_of q' = parent_of q" "senders_of q' = senders_of q" "ru_life q' = ru_life q"
    "ru_init q' = ru_init q" "su_signal (cx_sup (ru_ctx q')) = su_signal (cx_sup (ru_ctx q))"
    using assms(2) by (simp_all add: standing_def)
  have nodes: "\<exists>x'. cl_nodes t m = Some x' \<and> path_of x' = path_of x \<and> parent_of x' = parent_of x \<and> senders_of x' = senders_of x"
    if "cl_nodes s m = Some x" for m x
    using assms(3) [of m] that by (auto simp: standing_def)
  have "sup_books (path_of q) (cx_sup (ru_ctx (load_runner t q')))"
    using assms(1,4) eq sup_books_cong [of "cx_sup (ru_ctx (load_runner t q'))" "cx_sup (ru_ctx (load_runner s q))"]
    by (simp add: actor_at_rest_def)
  moreover have "\<exists>rk. cl_nodes t m = Some rk \<and> path_of rk = y \<and> parent_of rk = Some k"
    if "map_of (senders_of q) y = Some m" for y m
    using assms(1) that nodes unfolding actor_at_rest_def by metis
  moreover have "parent_of q = Some 0 \<and> map_of (su_senders (cl_sup t)) (path_of q) = Some k
      \<or> (\<exists>j rj. j \<noteq> 0 \<and> cl_nodes t j = Some rj \<and> parent_of q = Some j \<and> map_of (senders_of rj) (path_of q) = Some k)"
    using assms(1,5) nodes unfolding actor_at_rest_def by metis
  ultimately show ?thesis
    using assms(1,6-8) eq by (simp add: actor_at_rest_def)
qed

lemma at_rest_same:
  assumes "at_rest H s" and "\<And>m. map_option standing (cl_nodes t m) = map_option standing (cl_nodes s m)"
    and "cl_registry t = cl_registry s" "su_senders (cl_sup t) = su_senders (cl_sup s)" "su_signal (cl_sup t) = su_signal (cl_sup s)"
    and "\<And>k. k = 0 \<or> cl_nodes s k \<noteq> None \<Longrightarrow> nw_signals (cl_net t) k = nw_signals (cl_net s) k"
    "\<And>k. cl_nodes s k \<noteq> None \<Longrightarrow> nw_actions (cl_net t) k = nw_actions (cl_net s) k"
    "\<And>k. k = 0 \<or> cl_nodes s k \<noteq> None \<Longrightarrow> nw_open (cl_net t) k = nw_open (cl_net s) k"
    and "cl_up t = cl_up s" "cl_shutdown t = cl_shutdown s" "sm_root_path (cl_system t) = sm_root_path (cl_system s)"
  shows "at_rest H t"
proof -
  have fwd: "\<exists>x'. cl_nodes t m = Some x' \<and> standing x' = standing x" if "cl_nodes s m = Some x" for m x
    using assms(2) [of m] that by auto
  have bwd: "\<exists>x'. cl_nodes s m = Some x' \<and> standing x = standing x'" if "cl_nodes t m = Some x" for m x
    using assms(2) [of m] that by (cases "cl_nodes s m") auto
  have "actor_at_rest t k q'" if k: "cl_nodes t k = Some q'" for k q'
  proof -
    obtain q where q: "cl_nodes s k = Some q" "standing q' = standing q" using bwd [OF k] by blast
    from actor_at_rest_same [OF at_rest_actor [OF assms(1) q(1)] q(2) assms(2-4)] assms(6-8) [of k] q(1) show ?thesis by simp
  qed
  moreover have "dom (cl_nodes t) = dom (cl_nodes s)" using fwd bwd unfolding dom_def by blast
  moreover have "i = j"
    if xy: "cl_nodes t i = Some x" "cl_nodes t j = Some y" "path_of x = path_of y" for i j x y
  proof -
    obtain x0 y0 where "cl_nodes s i = Some x0" "cl_nodes s j = Some y0" "path_of x0 = path_of y0"
      using bwd [OF xy(1)] bwd [OF xy(2)] xy(3) by (auto simp: standing_def)
    then show ?thesis using at_rest_inj [OF assms(1)] by blast
  qed
  moreover have "\<exists>i r. cl_nodes t i = Some r \<and> path_of r = x" if x: "hm_contains x (cl_registry t)" for x
  proof -
    obtain i r where "cl_nodes s i = Some r" "path_of r = x"
      using assms(1) x unfolding at_rest_def assms(3) by blast
    with fwd [OF this(1)] show ?thesis by (auto simp: standing_def)
  qed
  moreover have "\<exists>r. cl_nodes t i = Some r \<and> path_of r = x \<and> parent_of r = Some 0"
    if x: "map_of (su_senders (cl_sup t)) x = Some i" for x i
  proof -
    obtain r where "cl_nodes s i = Some r" "path_of r = x" "parent_of r = Some 0"
      using assms(1) x unfolding at_rest_def assms(4) by blast
    with fwd [OF this(1)] show ?thesis by (auto simp: standing_def)
  qed
  moreover have "sup_books (sm_root_path (cl_system t)) (cl_sup t)"
    using assms(1,3,4,11) sup_books_cong [of "cl_sup t" "cl_sup s"] by (simp add: at_rest_def)
  moreover have "cl_nodes t 0 = None" using bwd at_rest_no_zero [OF assms(1)] by (cases "cl_nodes t 0") auto
  ultimately show ?thesis
    using assms(1,5-11) unfolding at_rest_def by simp
qed

lemma at_rest_handle:
  assumes "at_rest H s" and r: "cl_nodes s i = Some r" and w: "w = (cl_net s)\<lparr>nw_mail := f\<rparr>"
    and step: "runner_step (H i) channel_net (load_runner (set_net w s) r) [RMsg m] = (b, r', evs)"
  shows "at_rest H (save_runner i r' (set_net w s))"
proof -
  let ?r = "load_runner (set_net w s) r"
  have live: "ru_life ?r = Started" "\<not> ru_init ?r"
    using at_rest_actor [OF assms(1) r] by (simp_all add: actor_at_rest_def)
  from step_mail [OF at_rest_tame [OF assms(1)] live, of i channel_net m] step
  obtain a' where r': "r' = ?r\<lparr>ru_actor := a'\<rparr>" by auto
  show ?thesis
    by (rule at_rest_same [OF assms(1)]) (use live r in \<open>simp_all add: r' w standing_def\<close>)
qed

text \<open>Actors with the default methods are tame.\<close>

lemma plain_tame: "tame_hooks (plain_hooks st)" "tame_start (plain_hooks st)"
  by (simp_all add: tame_hooks_def tame_start_def plain_hooks_def default_pre_start_def default_pre_stop_def
      default_post_stop_def)

end
