(* ===== verification/Closing.thy ===== *)
theory Closing
  imports Trees
begin

text \<open>
  What happens to a tree of actors when a part of it is stopped (\<open>System\<close>,
  \<open>SystemRunner\<close> and \<open>ActorRunner\<close> together). Each actor goes through five
  phases; the relation \<open>closing\<close> compares the running system with the one before
  the stop, every step of it keeps the relation and takes from its \<open>work\<close>, and where
  no step is possible the part is gone and the rest as it was.
\<close>

section \<open>Stop requests over the channels\<close>

lemma books_has_childs:
  assumes "sup_books parent u"
  shows "sup_has_childs parent u \<longleftrightarrow> (\<exists>p k. map_of (su_senders u) p = Some k)"
proof -
  have "sup_has_childs parent u \<longleftrightarrow> (\<exists>p. hm_contains p (su_senders u))"
    using assms by (simp add: sup_has_childs_def sup_books_def hm_contains_keys ex_in_conv)
  then show ?thesis by (simp add: hm_contains_map_of)
qed

lemma send_stops:
  assumes "inj_on f (set ps)" and "distinct ps" and "\<forall>p \<in> set ps. nw_open w (f p)"
  shows "foldl (\<lambda>w p. snd (send_action (f p) CStop w)) w ps
    = w\<lparr>nw_actions := (\<lambda>i. nw_actions w i @ (if i \<in> f ` set ps then [CStop] else []))\<rparr>"
  using assms
proof (induction ps arbitrary: w)
  case (Cons p ps)
  let ?w = "w\<lparr>nw_actions := (nw_actions w)(f p := nw_actions w (f p) @ [CStop])\<rparr>"
  have p: "snd (send_action (f p) CStop w) = ?w"
    using Cons.prems(3) by (simp add: send_action_def)
  have "inj_on f (set ps)" "distinct ps" "\<forall>q \<in> set ps. nw_open ?w (f q)" "f p \<notin> f ` set ps"
    using Cons.prems by auto
  with Cons.IH [of ?w] show ?case
    by (auto simp: p fun_eq_iff)
qed simp

lemma stop_children_channels:
  assumes "sup_books parent u"
    and "\<And>p i. map_of (su_senders u) p = Some i \<Longrightarrow> nw_open (su_world u) i"
    and "\<And>p q i. map_of (su_senders u) p = Some i \<Longrightarrow> map_of (su_senders u) q = Some i \<Longrightarrow> p = q"
  shows "\<exists>u'. sup_stop_children send_action parent u = (Inr (sup_has_childs parent u), u')
    \<and> \<not> sup_has_childs parent u' \<and> sup_books parent u' \<and> su_helpers u' = su_helpers u
    \<and> (\<forall>p. map_of (su_registry u') p = (if path_parent p = parent then None else map_of (su_registry u) p))
    \<and> su_world u' = (su_world u)\<lparr>nw_actions := (\<lambda>i. nw_actions (su_world u) i
        @ (if \<exists>p. map_of (su_senders u) p = Some i then [CStop] else []))\<rparr>"
proof -
  let ?A = "{i. \<exists>p. map_of (su_senders u) p = Some i}" and ?ps = "sup_get_childs parent u"
  let ?f = "\<lambda>p. the (map_of (su_senders u) p)"
  have own: "p \<in> set ?ps \<longleftrightarrow> (\<exists>i. map_of (su_senders u) p = Some i)" for p
    using assms(1) hm_contains_map_of [of p "su_senders u"] by (auto simp: sup_books_def hm_contains_keys)
  have "fst (send_action a CStop w) = Inr () \<and> (\<forall>i \<in> ?A. nw_open (snd (send_action a CStop w)) i)"
    if "a \<in> ?A" "\<forall>i \<in> ?A. nw_open w i" for a w
    using that by (auto simp: send_action_def)
  from stop_children_ready [OF assms(1), of ?A "\<lambda>w. \<forall>i \<in> ?A. nw_open w i" send_action, OF this] assms(2)
  obtain u' where u': "sup_stop_children send_action parent u = (Inr (sup_has_childs parent u), u')"
    "su_world u' = foldl (\<lambda>w p. snd (send_action (?f p) CStop w)) (su_world u) ?ps"
    "\<not> sup_has_childs parent u'" "sup_books parent u'" "su_helpers u' = su_helpers u"
    "\<forall>p. map_of (su_registry u') p = (if path_parent p = parent then None else map_of (su_registry u) p)"
    by blast
  have "distinct ?ps" using assms(1) by (simp add: sup_books_def sup_get_childs_def)
  moreover have "inj_on ?f (set ?ps)"
    using own assms(3) by (metis (no_types, lifting) inj_onI option.sel)
  moreover have "\<forall>p \<in> set ?ps. nw_open (su_world u) (?f p)"
    using own assms(2) by force
  moreover have "i \<in> ?f ` set ?ps \<longleftrightarrow> (\<exists>p. map_of (su_senders u) p = Some i)" for i
    using own by (force simp: image_iff)
  ultimately have "su_world u' = (su_world u)\<lparr>nw_actions := (\<lambda>i. nw_actions (su_world u) i
        @ (if \<exists>p. map_of (su_senders u) p = Some i then [CStop] else []))\<rparr>"
    unfolding u'(2) by (subst send_stops) auto
  with u' show ?thesis by blast
qed

section \<open>The phases of an actor that is being shut down\<close>

datatype phase = Untouched | Asked | Stopping | Leaving | Gone

text \<open>What holds in each phase of actor \<open>i\<close>, compared with its state \<open>r0\<close> before.\<close>

definition phase_ok ::
  "('a, 'h, 'm) cluster \<Rightarrow> ('a, 'h, 'm) cluster \<Rightarrow> nat \<Rightarrow> ('a, 'h, 'm) actor_runner \<Rightarrow> ('a, 'h, 'm) actor_runner \<Rightarrow> phase \<Rightarrow> bool"
where
  "phase_ok s0 s i r0 r ph \<longleftrightarrow>
     path_of r = path_of r0 \<and> parent_of r = parent_of r0 \<and> \<not> ru_init r
   \<and> (ph \<in> {Untouched, Asked} \<longrightarrow> ru_life r = Started \<and> ru_trace r = ru_trace r0 \<and> nw_open (cl_net s) i
        \<and> nw_signals (cl_net s) i = [] \<and> senders_of r = senders_of r0
        \<and> nw_actions (cl_net s) i = (if ph = Asked then [CStop] else [])
        \<and> (\<forall>p. path_parent p = path_of r0 \<longrightarrow> map_of (cl_registry s) p = map_of (cl_registry s0) p))
   \<and> (ph = Stopping \<longrightarrow> ru_life r = Started \<and> ru_trace r = ru_trace r0 @ [TPreStop] \<and> nw_open (cl_net s) i
        \<and> nw_actions (cl_net s) i = [])
   \<and> (ph \<in> {Stopping, Leaving, Gone} \<longrightarrow> (\<forall>p. path_parent p = path_of r0 \<longrightarrow> \<not> hm_contains p (cl_registry s)))
   \<and> (ph = Leaving \<longrightarrow> ru_life r = Stopped \<and> ru_trace r = ru_trace r0 @ [TPreStop])
   \<and> (ph = Gone \<longrightarrow> ru_life r = Terminated \<and> ru_trace r = ru_trace r0 @ [TPreStop, TEmitStopped, TPostStop])"

text \<open>
  The whole system, where \<open>T\<close> is what is being stopped, a part of the tree that with an
  actor contains its children: parents move before their children, and an actor that
  waits for its children has one to wait for or the report of one. With \<open>down\<close> the
  system itself is being shut down; otherwise its runner goes on.
\<close>

definition top_left :: "nat set \<Rightarrow> ('a, 'h, 'm) cluster \<Rightarrow> actor_path \<Rightarrow> nat option" where
  "top_left T s0 p =
     (if \<exists>i r0. i \<in> T \<and> cl_nodes s0 i = Some r0 \<and> path_of r0 = p then None else map_of (cl_registry s0) p)"

lemma top_left_region: "i \<in> T \<Longrightarrow> cl_nodes s0 i = Some r0 \<Longrightarrow> top_left T s0 (path_of r0) = None"
  by (auto simp: top_left_def)

definition closing ::
  "nat set \<Rightarrow> bool \<Rightarrow> ('a, 'h, 'm) cluster \<Rightarrow> (nat \<Rightarrow> phase) \<Rightarrow> ('a, 'h, 'm) cluster \<Rightarrow> bool" where
  "closing T down s0 ph s \<longleftrightarrow>
     (cl_shutdown s \<longleftrightarrow> down) \<and> (cl_cancelled s \<longleftrightarrow> down) \<and> sm_root_path (cl_system s) = sm_root_path (cl_system s0)
   \<and> distinct (hm_keys (cl_registry s))
   \<and> (\<forall>p. path_parent p = sm_root_path (cl_system s0) \<longrightarrow> map_of (cl_registry s) p = top_left T s0 p)
   \<and> (\<forall>i. (case cl_nodes s0 i of None \<Rightarrow> cl_nodes s i = None
        | Some r0 \<Rightarrow> (\<exists>r. cl_nodes s i = Some r \<and> phase_ok s0 s i r0 r (ph i))))
   \<and> (\<forall>i r0. cl_nodes s0 i = Some r0 \<longrightarrow>
        (ph i = Untouched \<longleftrightarrow> i \<notin> T \<or> (\<exists>j. j \<noteq> 0 \<and> parent_of r0 = Some j \<and> ph j \<in> {Untouched, Asked})))
   \<and> (\<forall>i r0. cl_nodes s0 i = Some r0 \<longrightarrow> ph i = Stopping \<longrightarrow> nw_signals (cl_net s) i \<noteq> []
        \<or> (\<exists>k rk. cl_nodes s0 k = Some rk \<and> parent_of rk = Some i \<and> ph k \<noteq> Gone))
   \<and> (\<forall>i. (i = 0 \<or> i \<in> dom (cl_nodes s0)) \<longrightarrow> (\<forall>sg \<in> set (nw_signals (cl_net s) i).
        \<exists>k rk. k \<in> T \<and> cl_nodes s0 k = Some rk \<and> parent_of rk = Some i \<and> sg = SStopped (path_of rk)))
   \<and> (\<forall>i j r0. cl_nodes s0 i = Some r0 \<longrightarrow> parent_of r0 = Some j \<longrightarrow> j \<noteq> 0 \<longrightarrow> (i \<in> T \<longleftrightarrow> j \<in> T))
   \<and> (cl_up s \<or> down) \<and> (down \<longrightarrow> dom (cl_nodes s0) \<subseteq> T)"

fun weight :: "phase \<Rightarrow> nat" where
  "weight Untouched = 6"
| "weight Asked = 5"
| "weight Stopping = 4"
| "weight Leaving = 3"
| "weight Gone = 0"

definition work :: "('a, 'h, 'm) cluster \<Rightarrow> (nat \<Rightarrow> phase) \<Rightarrow> ('a, 'h, 'm) cluster \<Rightarrow> nat" where
  "work s0 ph s = (if cl_up s then 1 else 0)
     + (\<Sum>i \<in> dom (cl_nodes s0). length (nw_mail (cl_net s) i))
     + (\<Sum>i \<in> insert 0 (dom (cl_nodes s0)). length (nw_signals (cl_net s) i))
     + (\<Sum>i \<in> dom (cl_nodes s0). weight (ph i))"

section \<open>One step of a shutdown\<close>

lemma phase_ok_frame:
  assumes "phase_ok s0 s i r0 r ph"
    and "nw_open (cl_net s') i = nw_open (cl_net s) i"
    and "nw_actions (cl_net s') i = nw_actions (cl_net s) i"
    and "ph \<in> {Untouched, Asked} \<Longrightarrow> nw_signals (cl_net s') i = nw_signals (cl_net s) i"
    and "\<And>p. ph \<in> {Untouched, Asked} \<Longrightarrow> path_parent p = path_of r0 \<Longrightarrow> map_of (cl_registry s') p = map_of (cl_registry s) p"
    and "\<And>p. hm_contains p (cl_registry s') \<Longrightarrow> hm_contains p (cl_registry s)"
  shows "phase_ok s0 s' i r0 r ph"
  using assms by (cases ph) (auto simp: phase_ok_def)

lemma phase_ok_runner:
  assumes "path_of r' = path_of r" and "parent_of r' = parent_of r" and "ru_init r' = ru_init r"
    and "ru_life r' = ru_life r" and "ru_trace r' = ru_trace r" and "senders_of r' = senders_of r"
  shows "phase_ok s0 s i r0 r' ph = phase_ok s0 s i r0 r ph"
  using assms by (simp add: phase_ok_def)

lemma closing_node:
  assumes "closing T down s0 ph s" and "cl_nodes s i = Some r"
  obtains r0 where "cl_nodes s0 i = Some r0" "phase_ok s0 s i r0 r (ph i)"
  using assms by (auto simp: closing_def split: option.splits dest!: spec [of _ i])

lemma closing_dom: "closing T down s0 ph s \<Longrightarrow> cl_nodes s0 i = Some r0 \<Longrightarrow>
    \<exists>r. cl_nodes s i = Some r \<and> phase_ok s0 s i r0 r (ph i)"
  by (auto simp: closing_def split: option.splits dest!: spec [of _ i])

text \<open>The parts of \<open>closing\<close>, to take it apart and put it together.\<close>

lemma closingI:
  assumes "cl_shutdown s \<longleftrightarrow> down" "cl_cancelled s \<longleftrightarrow> down" "sm_root_path (cl_system s) = sm_root_path (cl_system s0)"
    and "distinct (hm_keys (cl_registry s))"
    and "\<And>p. path_parent p = sm_root_path (cl_system s0) \<Longrightarrow> map_of (cl_registry s) p = top_left T s0 p"
    and "\<And>i. cl_nodes s0 i = None \<Longrightarrow> cl_nodes s i = None"
    and "\<And>i r0. cl_nodes s0 i = Some r0 \<Longrightarrow> \<exists>r. cl_nodes s i = Some r \<and> phase_ok s0 s i r0 r (ph i)"
    and "\<And>i r0. cl_nodes s0 i = Some r0 \<Longrightarrow>
        ph i = Untouched \<longleftrightarrow> i \<notin> T \<or> (\<exists>j. j \<noteq> 0 \<and> parent_of r0 = Some j \<and> ph j \<in> {Untouched, Asked})"
    and "\<And>i r0. cl_nodes s0 i = Some r0 \<Longrightarrow> ph i = Stopping \<Longrightarrow> nw_signals (cl_net s) i \<noteq> []
        \<or> (\<exists>k rk. cl_nodes s0 k = Some rk \<and> parent_of rk = Some i \<and> ph k \<noteq> Gone)"
    and "\<And>i sg. i = 0 \<or> i \<in> dom (cl_nodes s0) \<Longrightarrow> sg \<in> set (nw_signals (cl_net s) i) \<Longrightarrow>
        \<exists>k rk. k \<in> T \<and> cl_nodes s0 k = Some rk \<and> parent_of rk = Some i \<and> sg = SStopped (path_of rk)"
    and "\<And>i j r0. cl_nodes s0 i = Some r0 \<Longrightarrow> parent_of r0 = Some j \<Longrightarrow> j \<noteq> 0 \<Longrightarrow> i \<in> T \<longleftrightarrow> j \<in> T"
    and "cl_up s \<or> down" and "down \<Longrightarrow> dom (cl_nodes s0) \<subseteq> T"
  shows "closing T down s0 ph s"
  unfolding closing_def using assms by (auto split: option.split)

lemma closing_parts:
  assumes "closing T down s0 ph s"
  shows "cl_shutdown s \<longleftrightarrow> down" "cl_cancelled s \<longleftrightarrow> down" "sm_root_path (cl_system s) = sm_root_path (cl_system s0)"
    and "distinct (hm_keys (cl_registry s))"
    and "path_parent p = sm_root_path (cl_system s0) \<Longrightarrow> map_of (cl_registry s) p = top_left T s0 p"
    and "cl_nodes s0 i = Some r0 \<Longrightarrow>
        ph i = Untouched \<longleftrightarrow> i \<notin> T \<or> (\<exists>j. j \<noteq> 0 \<and> parent_of r0 = Some j \<and> ph j \<in> {Untouched, Asked})"
    and "cl_nodes s0 i = Some r0 \<Longrightarrow> ph i = Stopping \<Longrightarrow> nw_signals (cl_net s) i \<noteq> []
        \<or> (\<exists>k rk. cl_nodes s0 k = Some rk \<and> parent_of rk = Some i \<and> ph k \<noteq> Gone)"
    and "i = 0 \<or> i \<in> dom (cl_nodes s0) \<Longrightarrow> sg \<in> set (nw_signals (cl_net s) i) \<Longrightarrow>
        \<exists>k rk. k \<in> T \<and> cl_nodes s0 k = Some rk \<and> parent_of rk = Some i \<and> sg = SStopped (path_of rk)"
  using assms unfolding closing_def by auto

lemma closing_region:
  assumes "closing T down s0 ph s"
  shows "cl_nodes s0 i = Some r0 \<Longrightarrow> parent_of r0 = Some j \<Longrightarrow> j \<noteq> 0 \<Longrightarrow> i \<in> T \<longleftrightarrow> j \<in> T"
    and "cl_up s \<or> down" and "down \<Longrightarrow> dom (cl_nodes s0) \<subseteq> T"
    and "cl_nodes s0 i = Some r0 \<Longrightarrow> ph i \<noteq> Untouched \<Longrightarrow> i \<in> T"
  using assms unfolding closing_def by blast+

lemma closing_keep:
  assumes "closing T down s0 ph s"
    and "cl_shutdown t = cl_shutdown s" "cl_cancelled t = cl_cancelled s"
      "sm_root_path (cl_system t) = sm_root_path (cl_system s)" "cl_up t = cl_up s \<or> down"
    and "distinct (hm_keys (cl_registry t))"
    and "\<And>p. path_parent p = sm_root_path (cl_system s0) \<Longrightarrow> map_of (cl_registry t) p = top_left T s0 p"
    and "\<And>i. cl_nodes s0 i = None \<Longrightarrow> cl_nodes t i = None"
    and "\<And>i r0. cl_nodes s0 i = Some r0 \<Longrightarrow> \<exists>r. cl_nodes t i = Some r \<and> phase_ok s0 t i r0 r (ph' i)"
    and "\<And>i r0. cl_nodes s0 i = Some r0 \<Longrightarrow>
        ph' i = Untouched \<longleftrightarrow> i \<notin> T \<or> (\<exists>j. j \<noteq> 0 \<and> parent_of r0 = Some j \<and> ph' j \<in> {Untouched, Asked})"
    and "\<And>i r0. cl_nodes s0 i = Some r0 \<Longrightarrow> ph' i = Stopping \<Longrightarrow> nw_signals (cl_net t) i \<noteq> []
        \<or> (\<exists>k rk. cl_nodes s0 k = Some rk \<and> parent_of rk = Some i \<and> ph' k \<noteq> Gone)"
    and "\<And>i sg. i = 0 \<or> i \<in> dom (cl_nodes s0) \<Longrightarrow> sg \<in> set (nw_signals (cl_net t) i) \<Longrightarrow>
        \<exists>k rk. k \<in> T \<and> cl_nodes s0 k = Some rk \<and> parent_of rk = Some i \<and> sg = SStopped (path_of rk)"
  shows "closing T down s0 ph' t"
proof (rule closingI)
  show "cl_shutdown t \<longleftrightarrow> down" "cl_cancelled t \<longleftrightarrow> down" "sm_root_path (cl_system t) = sm_root_path (cl_system s0)"
    "cl_up t \<or> down"
    using closing_parts(1-3) [OF assms(1)] closing_region(2) [OF assms(1)] assms(2-5) by auto
  show "down \<Longrightarrow> dom (cl_nodes s0) \<subseteq> T" by (rule closing_region(3) [OF assms(1)])
qed (rule assms(6-12) closing_region(1) [OF assms(1)]; assumption)+

lemma closing_absent: "closing T down s0 ph s \<Longrightarrow> cl_nodes s0 i = None \<Longrightarrow> cl_nodes s i = None"
  by (auto simp: closing_def dest!: spec [of _ i])

lemma phase_later:
  assumes "ph i \<notin> {Untouched, Asked}" and "p \<notin> {Untouched, Asked}"
  shows "(ph(i := p)) k = Untouched \<longleftrightarrow> ph k = Untouched"
    and "(ph(i := p)) k \<in> {Untouched, Asked} \<longleftrightarrow> ph k \<in> {Untouched, Asked}"
  using assms by auto

lemma sum_length_push:
  fixes f :: "nat \<Rightarrow> 'x list"
  assumes "finite D"
  shows "(\<Sum>i \<in> D. length ((f(j := f j @ [x])) i)) \<le> (\<Sum>i \<in> D. length (f i)) + 1"
proof (cases "j \<in> D")
  case True
  then have "(\<Sum>i \<in> D. length ((f(j := f j @ [x])) i)) = length (f j) + 1 + (\<Sum>i \<in> D - {j}. length (f i))"
    using assms by (simp add: sum.remove [of D j])
  then show ?thesis using assms True by (simp add: sum.remove [of D j])
next
  case False
  then have "(\<Sum>i \<in> D. length ((f(j := f j @ [x])) i)) = (\<Sum>i \<in> D. length (f i))"
    by (intro sum.cong) auto
  then show ?thesis by simp
qed

lemma sum_pop:
  fixes f :: "nat \<Rightarrow> 'x list"
  assumes "finite D" and "i \<in> D" and "f i = x # xs"
  shows "(\<Sum>k \<in> D. length ((f(i := xs)) k)) + 1 = (\<Sum>k \<in> D. length (f k))"
  using assms by (simp add: sum.remove [of D i])

lemma weights_update:
  assumes "finite D" and "i \<in> D"
  shows "(\<Sum>k \<in> D. weight ((ph(i := p)) k)) + weight (ph i) = (\<Sum>k \<in> D. weight (ph k)) + weight p"
  using assms by (simp add: sum.remove [of D i])

text \<open>One actor moves on, to another phase or not; what the others see of it they are told.\<close>

lemma closing_move:
  assumes cl: "closing T down s0 ph s" and i: "cl_nodes s0 i = Some r0"
    and t: "cl_nodes t = (cl_nodes s)(i \<mapsto> r')" "cl_shutdown t = cl_shutdown s" "cl_cancelled t = cl_cancelled s"
      "cl_up t = cl_up s" "sm_root_path (cl_system t) = sm_root_path (cl_system s)"
    and reg: "distinct (hm_keys (cl_registry t))"
      "\<And>p. path_parent p = sm_root_path (cl_system s0) \<Longrightarrow> map_of (cl_registry t) p = top_left T s0 p"
    and own: "phase_ok s0 t i r0 r' (ph' i)"
    and others: "\<And>k q0 q. k \<noteq> i \<Longrightarrow> cl_nodes s0 k = Some q0 \<Longrightarrow> cl_nodes s k = Some q \<Longrightarrow> phase_ok s0 s k q0 q (ph k)
      \<Longrightarrow> phase_ok s0 t k q0 q (ph' k)"
    and order: "\<And>k q0. cl_nodes s0 k = Some q0 \<Longrightarrow>
        ph' k = Untouched \<longleftrightarrow> k \<notin> T \<or> (\<exists>j. j \<noteq> 0 \<and> parent_of q0 = Some j \<and> ph' j \<in> {Untouched, Asked})"
    and wait: "\<And>k q0. cl_nodes s0 k = Some q0 \<Longrightarrow> ph' k = Stopping \<Longrightarrow> nw_signals (cl_net t) k \<noteq> []
        \<or> (\<exists>m rm. cl_nodes s0 m = Some rm \<and> parent_of rm = Some k \<and> ph' m \<noteq> Gone)"
    and reports: "\<And>k sg. k = 0 \<or> k \<in> dom (cl_nodes s0) \<Longrightarrow> sg \<in> set (nw_signals (cl_net t) k) \<Longrightarrow>
        \<exists>m rm. m \<in> T \<and> cl_nodes s0 m = Some rm \<and> parent_of rm = Some k \<and> sg = SStopped (path_of rm)"
  shows "closing T down s0 ph' t"
proof (rule closing_keep [OF cl])
  show "\<exists>q. cl_nodes t k = Some q \<and> phase_ok s0 t k q0 q (ph' k)" if k: "cl_nodes s0 k = Some q0" for k q0
    using closing_dom [OF cl k] others [OF _ k] own i k by (cases "k = i") (auto simp: t)
qed (use t reg order wait reports closing_region(2) [OF cl] closing_absent [OF cl] i in auto)

text \<open>The round of an actor that leaves: it reports, and is gone.\<close>

lemma round_effect:
  assumes rest: "at_rest H s0" and cl: "closing T down s0 ph s" and node: "cl_nodes s i = Some r"
    and life: "ru_life r \<noteq> Started"
    and step: "runner_step (H i) channel_net (load_runner s r) [] = (True, r', evs)"
  obtains r0 j where "cl_nodes s0 i = Some r0" "ph i = Leaving" "path_of r' = path_of r0" "parent_of r' = parent_of r0"
    "\<not> ru_init r'" "ru_life r' = Terminated" "ru_trace r' = ru_trace r0 @ [TPreStop, TEmitStopped, TPostStop]"
    "parent_of r0 = Some j" "j = 0 \<or> cl_nodes s0 j \<noteq> None \<and> ph j \<notin> {Untouched, Asked}"
    "cx_sup (ru_ctx r') = (cx_sup (ru_ctx (load_runner s r)))\<lparr>su_world := snd (send_signal j (SStopped (path_of r0)) (cl_net s))\<rparr>"
proof -
  obtain r0 where r0: "cl_nodes s0 i = Some r0" "phase_ok s0 s i r0 r (ph i)"
    using closing_node [OF cl node] .
  have lv: "ph i = Leaving" "ru_life r = Stopped" "ru_trace r = ru_trace r0 @ [TPreStop]"
    "path_of r = path_of r0" "parent_of r = parent_of r0" "\<not> ru_init r"
    using r0(2) life step by (cases "ph i"; auto simp: phase_ok_def runner_step_def)+
  obtain j where j: "parent_of r0 = Some j" "j = 0 \<or> cl_nodes s0 j \<noteq> None \<and> ph j \<notin> {Untouched, Asked}"
    using at_rest_parent [OF rest r0(1)] closing_parts(6) [OF cl r0(1)] lv(1)
    by (metis option.distinct(1) phase.distinct(5))
  from step_stopped [OF at_rest_tame [OF rest], of "load_runner s r" j i channel_net "[]"] lv j(1)
  obtain a' where "r' = (load_runner s r)\<lparr>ru_actor := a',
      ru_ctx := cx_set_world (snd (send_signal j (SStopped (path_of r0)) (cl_net s))) (ru_ctx (load_runner s r)), ru_life := Terminated,
      ru_trace := ru_trace r0 @ [TPreStop, TEmitStopped, TPostStop]\<rparr>"
    using step by auto
  with that r0(1) lv j show ?thesis by (simp add: cx_set_world_def)
qed

lemma closing_round:
  assumes rest: "at_rest H s0" and cl: "closing T down s0 ph s" and node: "cl_nodes s i = Some r"
    and life: "ru_life r \<noteq> Started"
    and step: "runner_step (H i) channel_net (load_runner s r) [] = (True, r', evs)"
  shows "\<exists>ph'. closing T down s0 ph' (save_runner i r' s) \<and> work s0 ph' (save_runner i r' s) < work s0 ph s"
proof -
  obtain r0 j where r0: "cl_nodes s0 i = Some r0" "ph i = Leaving"
    and r': "path_of r' = path_of r0" "parent_of r' = parent_of r0" "\<not> ru_init r'" "ru_life r' = Terminated"
      "ru_trace r' = ru_trace r0 @ [TPreStop, TEmitStopped, TPostStop]"
    and j: "parent_of r0 = Some j" "j = 0 \<or> cl_nodes s0 j \<noteq> None \<and> ph j \<notin> {Untouched, Asked}"
    and sup: "cx_sup (ru_ctx r') = (cx_sup (ru_ctx (load_runner s r)))\<lparr>su_world := snd (send_signal j (SStopped (path_of r0)) (cl_net s))\<rparr>"
    by (rule round_effect [OF assms]) (rule that)
  define t where "t = save_runner i r' s"
  let ?ph = "ph(i := Gone)"
  have t: "cl_registry t = cl_registry s" "cl_nodes t = (cl_nodes s)(i \<mapsto> r')" "cl_shutdown t = cl_shutdown s"
    "cl_cancelled t = cl_cancelled s" "cl_up t = cl_up s" "sm_root_path (cl_system t) = sm_root_path (cl_system s)"
    by (simp_all add: t_def sup)
  have w: "nw_mail (cl_net t) = nw_mail (cl_net s)" "nw_actions (cl_net t) = nw_actions (cl_net s)"
    "nw_open (cl_net t) = (nw_open (cl_net s))(i := False)"
    "nw_signals (cl_net t) = (if nw_open (cl_net s) j then (nw_signals (cl_net s))(j := nw_signals (cl_net s) j @ [SStopped (path_of r0)])
      else nw_signals (cl_net s))"
    by (simp_all add: t_def r'(4) sup send_signal_def)
  have gone: "\<not> hm_contains p (cl_registry s)" if "path_parent p = path_of r0" for p
    using closing_dom [OF cl r0(1)] r0(2) that by (auto simp: phase_ok_def)
  have "closing T down s0 ?ph t"
  proof (rule closing_move [OF cl r0(1)])
    show "phase_ok s0 t i r0 r' (?ph i)" using r' gone by (simp add: phase_ok_def t)
  next
    fix k q0 q assume k: "k \<noteq> i" "cl_nodes s0 k = Some q0" and q: "phase_ok s0 s k q0 q (ph k)"
    have "phase_ok s0 t k q0 q (ph k)"
    proof (rule phase_ok_frame [OF q])
      assume "ph k \<in> {Untouched, Asked}"
      with j(2) at_rest_no_zero [OF rest k(2)] have "k \<noteq> j" by metis
      then show "nw_signals (cl_net t) k = nw_signals (cl_net s) k" by (simp add: w)
    qed (simp_all add: w t k)
    then show "phase_ok s0 t k q0 q (?ph k)" using k by simp
  next
    fix k q0 assume k: "cl_nodes s0 k = Some q0"
    show "?ph k = Untouched \<longleftrightarrow> k \<notin> T \<or> (\<exists>j. j \<noteq> 0 \<and> parent_of q0 = Some j \<and> ?ph j \<in> {Untouched, Asked})"
      using closing_parts(6) [OF cl k] phase_later [of ph i Gone] r0(2) by simp
    assume "?ph k = Stopping"
    then have st: "ph k = Stopping" by (auto split: if_splits)
    have op: "nw_open (cl_net s) k" using closing_dom [OF cl k] st by (auto simp: phase_ok_def)
    from closing_parts(7) [OF cl k st]
    show "nw_signals (cl_net t) k \<noteq> [] \<or> (\<exists>m rm. cl_nodes s0 m = Some rm \<and> parent_of rm = Some k \<and> ?ph m \<noteq> Gone)"
      using op r0(1) j(1) by (auto simp: w) (metis option.inject)
  next
    fix k sg assume "k = 0 \<or> k \<in> dom (cl_nodes s0)" "sg \<in> set (nw_signals (cl_net t) k)"
    then show "\<exists>m rm. m \<in> T \<and> cl_nodes s0 m = Some rm \<and> parent_of rm = Some k \<and> sg = SStopped (path_of rm)"
      using closing_parts(8) [OF cl, of k sg] closing_region(4) [OF cl r0(1)] r0 j(1) by (auto simp: w split: if_splits)
  qed (use closing_parts(4,5) [OF cl] in \<open>simp_all add: t\<close>)
  moreover have "work s0 ?ph t < work s0 ph s"
    using sum_length_push [of "insert 0 (dom (cl_nodes s0))", OF finite.insertI [OF at_rest_finite [OF rest]],
        of "nw_signals (cl_net s)" j "SStopped (path_of r0)"]
      weights_update [OF at_rest_finite [OF rest], of i ph Gone] r0 domI [of "cl_nodes s0" i r0]
    by (simp add: work_def w t)
  ultimately show ?thesis unfolding t_def by blast
qed

lemma closing_mail:
  assumes rest: "at_rest H s0" and cl: "closing T down s0 ph s" and node: "cl_nodes s i = Some r"
    and life: "ru_life r = Started" and mail: "nw_mail (cl_net s) i = m # ms"
    and w: "w = (cl_net s)\<lparr>nw_mail := (nw_mail (cl_net s))(i := ms)\<rparr>"
    and step: "runner_step (H i) channel_net (load_runner (set_net w s) r) [RMsg m] = (b, r', evs)"
  shows "closing T down s0 ph (save_runner i r' (set_net w s)) \<and> work s0 ph (save_runner i r' (set_net w s)) < work s0 ph s"
proof -
  obtain r0 where r0: "cl_nodes s0 i = Some r0" "phase_ok s0 s i r0 r (ph i)"
    using closing_node [OF cl node] .
  then have i: "i \<in> dom (cl_nodes s0)" by auto
  have "tame_hooks (H i)" using rest by (simp add: at_rest_def)
  from step_mail [OF this, of "load_runner (set_net w s) r" channel_net m] r0(2) life
  obtain a' where "runner_step (H i) channel_net (load_runner (set_net w s) r) [RMsg m]
      = (False, (load_runner (set_net w s) r)\<lparr>ru_actor := a'\<rparr>, [])"
    by (auto simp: phase_ok_def)
  then have r': "r' = (load_runner (set_net w s) r)\<lparr>ru_actor := a'\<rparr>" using step by simp
  let ?s = "save_runner i r' (set_net w s)"
  have "closing T down s0 ph ?s"
  proof (rule closing_keep [OF cl])
    fix k q0 assume k: "cl_nodes s0 k = Some q0"
    obtain q where q: "cl_nodes s k = Some q" "phase_ok s0 s k q0 q (ph k)"
      using closing_dom [OF cl k] by blast
    have "phase_ok s0 ?s k q0 q (ph k)"
      by (rule phase_ok_frame [OF q(2)]) (use life in \<open>simp_all add: r' w\<close>)
    then show "\<exists>q. cl_nodes ?s k = Some q \<and> phase_ok s0 ?s k q0 q (ph k)"
      using q node phase_ok_runner [of r' r s0 ?s k q0 "ph k"] by (cases "k = i") (auto simp: r')
    show "ph k = Untouched \<longleftrightarrow> k \<notin> T \<or> (\<exists>j. j \<noteq> 0 \<and> parent_of q0 = Some j \<and> ph j \<in> {Untouched, Asked})"
      by (rule closing_parts(6) [OF cl k])
  next
    fix k q0 assume "cl_nodes s0 k = Some q0" "ph k = Stopping"
    from closing_parts(7) [OF cl this] life
    show "nw_signals (cl_net ?s) k \<noteq> [] \<or> (\<exists>m rm. cl_nodes s0 m = Some rm \<and> parent_of rm = Some k \<and> ph m \<noteq> Gone)"
      by (simp add: r' w)
  next
    fix k sg assume "k = 0 \<or> k \<in> dom (cl_nodes s0)" "sg \<in> set (nw_signals (cl_net ?s) k)"
    then show "\<exists>m rm. m \<in> T \<and> cl_nodes s0 m = Some rm \<and> parent_of rm = Some k \<and> sg = SStopped (path_of rm)"
      using closing_parts(8) [OF cl, of k sg] life by (simp add: r' w)
  qed (use closing_parts(1-5) [OF cl] closing_absent [OF cl] r0(1) life in \<open>auto simp: r' w\<close>)
  moreover have "work s0 ph ?s < work s0 ph s"
    using sum_pop [OF at_rest_finite [OF rest] i, of "nw_mail (cl_net s)" m ms] mail life
    by (simp add: work_def r' w)
  ultimately show ?thesis by blast
qed

text \<open>A child's report to an actor that stops: it leaves, whichever child it was.\<close>

lemma signal_effect:
  assumes rest: "at_rest H s0" and cl: "closing T down s0 ph s" and node: "cl_nodes s i = Some r"
    and life: "ru_life r = Started" and signal: "nw_signals (cl_net s) i = sg # sgs"
    and step: "runner_step (H i) channel_net (load_runner (set_net w s) r) [RSignal sg] = (b, r', evs)"
  obtains r0 k rk where "cl_nodes s0 i = Some r0" "ph i = Stopping" "k \<in> T" "cl_nodes s0 k = Some rk"
    "path_parent (path_of rk) = path_of r0" "path_of r' = path_of r0" "parent_of r' = parent_of r0" "\<not> ru_init r'"
    "ru_life r' = Stopped" "ru_trace r' = ru_trace r0 @ [TPreStop]" "cx_world (ru_ctx r') = w"
    "su_registry (cx_sup (ru_ctx r')) = hm_remove (path_of rk) (cl_registry s)"
    "\<And>p. path_parent p = path_of r0 \<Longrightarrow> \<not> hm_contains p (cl_registry s)"
proof -
  obtain r0 where r0: "cl_nodes s0 i = Some r0" "phase_ok s0 s i r0 r (ph i)"
    using closing_node [OF cl node] .
  have st: "ph i = Stopping"
    using r0(2) life signal by (cases "ph i") (auto simp: phase_ok_def)
  have keep: "path_of r = path_of r0" "parent_of r = parent_of r0" "\<not> ru_init r" "ru_trace r = ru_trace r0 @ [TPreStop]"
    and none: "path_parent p = path_of r0 \<Longrightarrow> \<not> hm_contains p (cl_registry s)" for p
    using r0(2) st by (auto simp: phase_ok_def)
  obtain k rk where k: "cl_nodes s0 k = Some rk" "parent_of rk = Some i" "sg = SStopped (path_of rk)" "k \<in> T"
    using closing_parts(8) [OF cl, of i sg] r0(1) signal by auto
  have up: "path_parent (path_of rk) = path_of r0" by (rule at_rest_level(2) [OF rest r0(1) k(1,2)])
  from at_rest_path [OF rest k(1)] path_div_parent_key [of "path_of rk"] have p: "path_div (path_of r0) (path_key (path_of rk)) = path_of rk"
    by (simp add: up)
  let ?c = "ctx_remove_child (path_key (path_of rk)) (ru_ctx (load_runner (set_net w s) r))"
  have "\<not> ctx_has_childs ?c"
    using none by (auto simp: ctx_has_childs_def sup_has_childs_def ctx_remove_child_def sup_remove_child_def
        sup_get_childs_def filter_empty_conv hm_contains_keys keep)
  then have "r' = (load_runner (set_net w s) r)\<lparr>ru_ctx := ?c, ru_life := Stopped\<rparr>"
    using step step_child_stopped [of "load_runner (set_net w s) r" "H i" channel_net "path_of rk"] life keep k(3)
    by (simp add: Let_def)
  with that [OF r0(1) st k(4,1) up] none keep p show ?thesis by (simp add: ctx_remove_child_def sup_remove_child_def)
qed

lemma closing_signal:
  assumes rest: "at_rest H s0" and cl: "closing T down s0 ph s" and node: "cl_nodes s i = Some r"
    and life: "ru_life r = Started" and signal: "nw_signals (cl_net s) i = sg # sgs"
    and w: "w = (cl_net s)\<lparr>nw_signals := (nw_signals (cl_net s))(i := sgs)\<rparr>"
    and step: "runner_step (H i) channel_net (load_runner (set_net w s) r) [RSignal sg] = (b, r', evs)"
  shows "\<exists>ph'. closing T down s0 ph' (save_runner i r' (set_net w s)) \<and> work s0 ph' (save_runner i r' (set_net w s)) < work s0 ph s"
proof -
  obtain r0 k rk where r0: "cl_nodes s0 i = Some r0" "ph i = Stopping" and k: "k \<in> T" "cl_nodes s0 k = Some rk"
    "path_parent (path_of rk) = path_of r0" and r': "path_of r' = path_of r0" "parent_of r' = parent_of r0" "\<not> ru_init r'"
    "ru_life r' = Stopped" "ru_trace r' = ru_trace r0 @ [TPreStop]" "cx_world (ru_ctx r') = w"
    "su_registry (cx_sup (ru_ctx r')) = hm_remove (path_of rk) (cl_registry s)"
    and none: "\<And>p. path_parent p = path_of r0 \<Longrightarrow> \<not> hm_contains p (cl_registry s)"
    by (rule signal_effect [OF rest cl node life signal step]) (rule that)
  define t where "t = save_runner i r' (set_net w s)"
  let ?ph = "ph(i := Leaving)"
  have t: "cl_registry t = hm_remove (path_of rk) (cl_registry s)" "cl_net t = w" "cl_nodes t = (cl_nodes s)(i \<mapsto> r')"
    "cl_shutdown t = cl_shutdown s" "cl_cancelled t = cl_cancelled s" "cl_up t = cl_up s"
    "sm_root_path (cl_system t) = sm_root_path (cl_system s)"
    by (simp_all add: t_def r')
  have "closing T down s0 ?ph t"
  proof (rule closing_move [OF cl r0(1)])
    show "phase_ok s0 t i r0 r' (?ph i)" using r' none by (simp add: phase_ok_def t)
  next
    fix m q0 q assume m: "m \<noteq> i" "cl_nodes s0 m = Some q0" and q: "phase_ok s0 s m q0 q (ph m)"
    have "path_of q0 \<noteq> path_of r0" using at_rest_inj [OF rest m(2) r0(1)] m(1) by blast
    then have "path_parent p = path_of q0 \<Longrightarrow> p \<noteq> path_of rk" for p using k(3) by auto
    then have "phase_ok s0 t m q0 q (ph m)"
      by (intro phase_ok_frame [OF q]) (simp_all add: t w m)
    then show "phase_ok s0 t m q0 q (?ph m)" using m(1) by simp
  next
    fix m q0 assume m: "cl_nodes s0 m = Some q0"
    show "?ph m = Untouched \<longleftrightarrow> m \<notin> T \<or> (\<exists>j. j \<noteq> 0 \<and> parent_of q0 = Some j \<and> ?ph j \<in> {Untouched, Asked})"
      using closing_parts(6) [OF cl m] phase_later [of ph i Leaving] r0(2) by simp
    assume "?ph m = Stopping"
    then have m': "m \<noteq> i" "ph m = Stopping" by (auto split: if_splits)
    from closing_parts(7) [OF cl m m'(2)] m'(1)
    show "nw_signals (cl_net t) m \<noteq> [] \<or> (\<exists>n rn. cl_nodes s0 n = Some rn \<and> parent_of rn = Some m \<and> ?ph n \<noteq> Gone)"
      by (auto simp: t w)
  next
    fix m sg assume "m = 0 \<or> m \<in> dom (cl_nodes s0)" "sg \<in> set (nw_signals (cl_net t) m)"
    then show "\<exists>n rn. n \<in> T \<and> cl_nodes s0 n = Some rn \<and> parent_of rn = Some m \<and> sg = SStopped (path_of rn)"
      using closing_parts(8) [OF cl, of m sg] signal by (auto simp: t w split: if_splits)
  next
    fix p assume "path_parent p = sm_root_path (cl_system s0)"
    then show "map_of (cl_registry t) p = top_left T s0 p"
      using closing_parts(5) [OF cl] top_left_region [OF k(1,2)] by (simp add: t)
  qed (use closing_parts(4) [OF cl] in \<open>simp_all add: t distinct_hm_keys_remove\<close>)
  moreover have "work s0 ?ph t < work s0 ph s"
    using sum_pop [of "insert 0 (dom (cl_nodes s0))" i "nw_signals (cl_net s)" sg sgs] at_rest_finite [OF rest] signal r0
      weights_update [OF at_rest_finite [OF rest], of i ph Leaving] domI [of "cl_nodes s0" i r0]
    by (simp add: work_def t w)
  ultimately show ?thesis unfolding t_def by blast
qed

text \<open>The supervisor of an actor that has been asked to stop still has all its children.\<close>

lemma asked_stop_children:
  assumes rest: "at_rest H s0" and cl: "closing T down s0 ph s" and node: "cl_nodes s i = Some r"
    and r0: "cl_nodes s0 i = Some r0" and ph: "ph i = Asked"
    and u: "u = cx_sup (ru_ctx (load_runner (set_net w s) r))"
    and w: "nw_open w = nw_open (cl_net s)"
  shows "\<exists>u'. sup_stop_children send_action (path_of r0) u = (Inr (sup_has_childs (path_of r0) u), u')
    \<and> distinct (hm_keys (su_registry u')) \<and> su_helpers u' = su_helpers u
    \<and> (\<forall>p. map_of (su_registry u') p = (if path_parent p = path_of r0 then None else map_of (cl_registry s) p))
    \<and> su_world u' = w\<lparr>nw_actions := (\<lambda>k. nw_actions w k
        @ (if \<exists>rk. cl_nodes s0 k = Some rk \<and> parent_of rk = Some i then [CStop] else []))\<rparr>
    \<and> (sup_has_childs (path_of r0) u \<longleftrightarrow> (\<exists>k rk. cl_nodes s0 k = Some rk \<and> parent_of rk = Some i))"
proof -
  have ok: "phase_ok s0 s i r0 r (ph i)"
    using closing_dom [OF cl r0] node by auto
  have own: "su_senders u = senders_of r0" "su_registry u = cl_registry s" "su_world u = w"
    and same: "path_parent p = path_of r0 \<Longrightarrow> map_of (cl_registry s) p = map_of (cl_registry s0) p" for p
    using ok ph u by (auto simp: phase_ok_def)
  let ?u0 = "cx_sup (ru_ctx (load_runner s0 r0))"
  have b0: "sup_books (path_of r0) ?u0"
    using at_rest_actor [OF rest r0] by (simp add: actor_at_rest_def)
  have kids: "set (sup_get_childs (path_of r0) u) = set (sup_get_childs (path_of r0) ?u0)"
    using same by (auto simp: set_get_childs own hm_contains_map_of)
  have books: "sup_books (path_of r0) u"
    using b0 kids closing_parts(4) [OF cl] by (simp add: sup_books_def own)
  have child: "\<exists>rk. cl_nodes s0 k = Some rk \<and> path_of rk = p \<and> parent_of rk = Some i"
    if "map_of (su_senders u) p = Some k" for p k
    using that at_rest_senders [OF rest r0] own(1) by metis
  have "nw_open (su_world u) k" if p: "map_of (su_senders u) p = Some k" for p k
  proof -
    obtain rk where k: "cl_nodes s0 k = Some rk" "parent_of rk = Some i" using child [OF p] by blast
    then have "ph k = Untouched"
      using closing_parts(6) [OF cl k(1)] ph at_rest_no_zero [OF rest r0] by auto
    then show ?thesis using closing_dom [OF cl k(1)] by (auto simp: phase_ok_def own w)
  qed
  moreover have "p = q" if "map_of (su_senders u) p = Some k" "map_of (su_senders u) q = Some k" for p q k
    using child [OF that(1)] child [OF that(2)] by auto
  ultimately obtain u' where u': "sup_stop_children send_action (path_of r0) u = (Inr (sup_has_childs (path_of r0) u), u')"
    "sup_books (path_of r0) u'" "su_helpers u' = su_helpers u"
    "\<forall>p. map_of (su_registry u') p = (if path_parent p = path_of r0 then None else map_of (su_registry u) p)"
    "su_world u' = (su_world u)\<lparr>nw_actions := (\<lambda>i. nw_actions (su_world u) i
        @ (if \<exists>p. map_of (su_senders u) p = Some i then [CStop] else []))\<rparr>"
    using stop_children_channels [OF books] by blast
  have "sup_has_childs (path_of r0) u \<longleftrightarrow> (\<exists>k p. map_of (su_senders u) p = Some k)"
    using books_has_childs [OF books] by blast
  with u' show ?thesis
    using at_rest_family [OF rest r0] own by (auto simp: sup_books_def)
qed

definition child_of :: "('a, 'h, 'm) cluster \<Rightarrow> nat \<Rightarrow> nat \<Rightarrow> bool" where
  "child_of s0 i k \<longleftrightarrow> (\<exists>rk. cl_nodes s0 k = Some rk \<and> parent_of rk = Some i)"

text \<open>The stop request: the children are asked in turn; without any the actor leaves.\<close>

lemma action_effect:
  assumes rest: "at_rest H s0" and cl: "closing T down s0 ph s" and node: "cl_nodes s i = Some r"
    and life: "ru_life r = Started" and action: "nw_actions (cl_net s) i = act # acts"
    and w: "w = (cl_net s)\<lparr>nw_actions := (nw_actions (cl_net s))(i := acts)\<rparr>"
    and step: "runner_step (H i) channel_net (load_runner (set_net w s) r) [RAction act] = (b, r', evs)"
  obtains r0 where "cl_nodes s0 i = Some r0" "ph i = Asked" "acts = []" "nw_open (cl_net s) i"
    "path_of r' = path_of r0" "parent_of r' = parent_of r0" "\<not> ru_init r'"
    "ru_life r' = (if \<exists>k. child_of s0 i k then Started else Stopped)" "ru_trace r' = ru_trace r0 @ [TPreStop]"
    "distinct (hm_keys (su_registry (cx_sup (ru_ctx r'))))"
    "\<And>p. map_of (su_registry (cx_sup (ru_ctx r'))) p = (if path_parent p = path_of r0 then None else map_of (cl_registry s) p)"
    "cx_world (ru_ctx r') = w\<lparr>nw_actions := (\<lambda>k. nw_actions w k @ (if child_of s0 i k then [CStop] else []))\<rparr>"
proof -
  obtain r0 where r0: "cl_nodes s0 i = Some r0" "phase_ok s0 s i r0 r (ph i)"
    using closing_node [OF cl node] .
  have ask: "ph i = Asked" and act: "act = CStop" "acts = []"
    using r0(2) life action by (cases "ph i"; auto simp: phase_ok_def)+
  have keep: "path_of r = path_of r0" "parent_of r = parent_of r0" "\<not> ru_init r" "ru_trace r = ru_trace r0"
    and op: "nw_open (cl_net s) i"
    using r0(2) ask by (auto simp: phase_ok_def)
  let ?r = "load_runner (set_net w s) r"
  have "nw_open w = nw_open (cl_net s)" using w by simp
  from asked_stop_children [OF rest cl node r0(1) ask refl this, folded child_of_def]
  obtain u' where "sup_stop_children send_action (path_of r0) (cx_sup (ru_ctx ?r)) = (Inr (sup_has_childs (path_of r0) (cx_sup (ru_ctx ?r))), u')"
    "sup_has_childs (path_of r0) (cx_sup (ru_ctx ?r)) \<longleftrightarrow> (\<exists>k. child_of s0 i k)"
    and u': "distinct (hm_keys (su_registry u'))"
    "\<forall>p. map_of (su_registry u') p = (if path_parent p = path_of r0 then None else map_of (cl_registry s) p)"
    "su_world u' = w\<lparr>nw_actions := (\<lambda>k. nw_actions w k @ (if child_of s0 i k then [CStop] else []))\<rparr>"
    by blast
  then have stop: "sup_stop_children send_action (path_of r0) (cx_sup (ru_ctx ?r)) = (Inr (\<exists>k. child_of s0 i k), u')" by simp
  obtain a' where "r' = ?r\<lparr>ru_actor := a', ru_ctx := (ru_ctx ?r)\<lparr>cx_sup := u'\<rparr>,
      ru_life := if \<exists>k. child_of s0 i k then Started else Stopped, ru_trace := ru_trace r0 @ [TPreStop]\<rparr>"
    using step_stop [OF at_rest_tame [OF rest], of ?r channel_net "\<exists>k. child_of s0 i k" u' i] life keep stop step act by auto
  with that [OF r0(1) ask act(2) op] keep u' show ?thesis by simp
qed

text \<open>The phases after it.\<close>

lemma asked_order:
  assumes rest: "at_rest H s0" and cl: "closing T down s0 ph s" and i: "cl_nodes s0 i = Some r0" "ph i = Asked"
    and ph': "ph' = (\<lambda>k. if k = i then (if \<exists>k. child_of s0 i k then Stopping else Leaving) else if child_of s0 i k then Asked else ph k)"
  shows "\<not> child_of s0 i i" and "child_of s0 i k \<Longrightarrow> ph k = Untouched"
    and "cl_nodes s0 m = Some q0 \<Longrightarrow>
      ph' m = Untouched \<longleftrightarrow> m \<notin> T \<or> (\<exists>j. j \<noteq> 0 \<and> parent_of q0 = Some j \<and> ph' j \<in> {Untouched, Asked})"
proof -
  have i0: "i \<noteq> 0" using at_rest_no_zero [OF rest i(1)] .
  show self: "\<not> child_of s0 i i"
    using at_rest_level(1) [OF rest i(1) i(1)] by (auto simp: child_of_def i(1))
  show kid: "child_of s0 i k \<Longrightarrow> ph k = Untouched" for k
    using closing_parts(6) [OF cl] i i0 by (auto simp: child_of_def)
  have later: "ph' j \<in> {Untouched, Asked} \<longleftrightarrow> ph j \<in> {Untouched, Asked} \<and> j \<noteq> i" for j
    using kid by (auto simp: ph')
  assume m: "cl_nodes s0 m = Some q0"
  obtain j where j: "parent_of q0 = Some j"
    using at_rest_parent [OF rest m] by metis
  have km: "child_of s0 i m \<longleftrightarrow> j = i" using m j by (auto simp: child_of_def)
  have old: "ph m = Untouched \<longleftrightarrow> m \<notin> T \<or> (j \<noteq> 0 \<and> ph j \<in> {Untouched, Asked})"
    using closing_parts(6) [OF cl m] j by simp
  have "i \<in> T" using closing_region(4) [OF cl i(1)] i(2) by simp
  then have "j = i \<Longrightarrow> m \<in> T" using closing_region(1) [OF cl m j] i0 by simp
  then have "ph' m = Untouched \<longleftrightarrow> m \<notin> T \<or> (j \<noteq> 0 \<and> ph' j \<in> {Untouched, Asked})"
    unfolding later using old km i self by (cases "m = i"; cases "j = i") (auto simp: ph')
  then show "ph' m = Untouched \<longleftrightarrow> m \<notin> T \<or> (\<exists>j. j \<noteq> 0 \<and> parent_of q0 = Some j \<and> ph' j \<in> {Untouched, Asked})"
    using j by simp
qed

lemma closing_action:
  assumes rest: "at_rest H s0" and cl: "closing T down s0 ph s" and node: "cl_nodes s i = Some r"
    and life: "ru_life r = Started" and action: "nw_actions (cl_net s) i = act # acts"
    and w: "w = (cl_net s)\<lparr>nw_actions := (nw_actions (cl_net s))(i := acts)\<rparr>"
    and step: "runner_step (H i) channel_net (load_runner (set_net w s) r) [RAction act] = (b, r', evs)"
  shows "\<exists>ph'. closing T down s0 ph' (save_runner i r' (set_net w s)) \<and> work s0 ph' (save_runner i r' (set_net w s)) < work s0 ph s"
proof -
  obtain r0 where r0: "cl_nodes s0 i = Some r0" "ph i = Asked" and acts: "acts = []" "nw_open (cl_net s) i"
    and r': "path_of r' = path_of r0" "parent_of r' = parent_of r0" "\<not> ru_init r'"
      "ru_life r' = (if \<exists>k. child_of s0 i k then Started else Stopped)" "ru_trace r' = ru_trace r0 @ [TPreStop]"
    and dist: "distinct (hm_keys (su_registry (cx_sup (ru_ctx r'))))"
    and reg: "\<And>p. map_of (su_registry (cx_sup (ru_ctx r'))) p = (if path_parent p = path_of r0 then None else map_of (cl_registry s) p)"
    and net: "cx_world (ru_ctx r') = w\<lparr>nw_actions := (\<lambda>k. nw_actions w k @ (if child_of s0 i k then [CStop] else []))\<rparr>"
    by (rule action_effect [OF assms]) (rule that)
  define t where "t = save_runner i r' (set_net w s)"
  define ph' where "ph' = (\<lambda>k. if k = i then (if \<exists>k. child_of s0 i k then Stopping else Leaving)
    else if child_of s0 i k then Asked else ph k)"
  note order = asked_order [OF rest cl r0 ph'_def]
  have t: "cl_nodes t = (cl_nodes s)(i \<mapsto> r')" "cl_shutdown t = cl_shutdown s" "cl_cancelled t = cl_cancelled s"
    "cl_up t = cl_up s" "sm_root_path (cl_system t) = sm_root_path (cl_system s)" "distinct (hm_keys (cl_registry t))"
    "\<And>p. map_of (cl_registry t) p = (if path_parent p = path_of r0 then None else map_of (cl_registry s) p)"
    "nw_mail (cl_net t) = nw_mail (cl_net s)" "nw_signals (cl_net t) = nw_signals (cl_net s)"
    "nw_open (cl_net t) = nw_open (cl_net s)"
    "\<And>k. nw_actions (cl_net t) k = (if k = i then [] else nw_actions (cl_net s) k) @ (if child_of s0 i k then [CStop] else [])"
    by (simp_all add: t_def dist reg r'(4) net w acts)
  have gone: "hm_contains p (cl_registry t) \<longleftrightarrow> path_parent p \<noteq> path_of r0 \<and> hm_contains p (cl_registry s)" for p
    by (auto simp: hm_contains_map_of t)
  have "closing T down s0 ph' t"
  proof (rule closing_move [OF cl r0(1)])
    show "phase_ok s0 t i r0 r' (ph' i)"
      using r' acts(2) order(1) by (auto simp: phase_ok_def t gone ph'_def)
  next
    fix m q0 q assume m: "m \<noteq> i" "cl_nodes s0 m = Some q0" and q: "phase_ok s0 s m q0 q (ph m)"
    then have neq: "path_of q0 \<noteq> path_of r0" using at_rest_inj [OF rest m(2) r0(1)] by blast
    show "phase_ok s0 t m q0 q (ph' m)"
    proof (cases "child_of s0 i m")
      case True
      then show ?thesis using q order(2) [OF True] m(1) neq by (auto simp: phase_ok_def t ph'_def)
    next
      case False
      then have "phase_ok s0 t m q0 q (ph m)"
        by (intro phase_ok_frame [OF q]) (use m(1) neq in \<open>auto simp: t gone\<close>)
      then show ?thesis using m(1) False by (simp add: ph'_def)
    qed
  next
    fix m q0 assume m: "cl_nodes s0 m = Some q0" and st: "ph' m = Stopping"
    show "nw_signals (cl_net t) m \<noteq> [] \<or> (\<exists>n rn. cl_nodes s0 n = Some rn \<and> parent_of rn = Some m \<and> ph' n \<noteq> Gone)"
    proof (cases "m = i")
      case True
      then obtain k where "child_of s0 i k" using st by (auto simp: ph'_def split: if_splits)
      then have "child_of s0 i k \<and> ph' k \<noteq> Gone" using order(1) by (auto simp: ph'_def)
      then show ?thesis using True by (auto simp: child_of_def)
    next
      case False
      then have "ph m = Stopping" using st by (auto simp: ph'_def split: if_splits)
      from closing_parts(7) [OF cl m this] show ?thesis by (auto simp: t ph'_def)
    qed
  qed (use closing_parts(5,8) [OF cl] order(3) at_rest_path_neq_root [OF rest r0(1)] in \<open>auto simp: t\<close>)
  moreover have "(\<Sum>k \<in> dom (cl_nodes s0). weight (ph' k)) < (\<Sum>k \<in> dom (cl_nodes s0). weight (ph k))"
    by (rule sum_strict_mono_ex1) (use at_rest_finite [OF rest] r0 order(2) in \<open>auto simp: ph'_def\<close>)
  then have "work s0 ph' t < work s0 ph s" by (simp add: work_def t)
  ultimately show ?thesis unfolding t_def by blast
qed

text \<open>A round of the system's runner: it takes paths of stopped actors off the registry,
  and ends exactly when the system is shutting down.\<close>

lemma closing_system:
  assumes rest: "at_rest H s0" and cl: "closing T down s0 ph s"
    and t: "cl_nodes t = cl_nodes s" "cl_up t = (cl_up s \<and> \<not> down)" "cl_shutdown t = cl_shutdown s"
      "cl_cancelled t = cl_cancelled s" "sm_root_path (cl_system t) = sm_root_path (cl_system s)"
      "nw_actions (cl_net t) = nw_actions (cl_net s)"
      "\<And>i. i \<noteq> 0 \<Longrightarrow> nw_open (cl_net t) i = nw_open (cl_net s) i"
      "\<And>i. i \<noteq> 0 \<Longrightarrow> nw_signals (cl_net t) i = nw_signals (cl_net s) i"
      "set (nw_signals (cl_net t) 0) \<subseteq> set (nw_signals (cl_net s) 0)"
      "distinct (hm_keys (cl_registry t))"
      "\<And>p. map_of (cl_registry t) p = (if p \<in> D then None else map_of (cl_registry s) p)"
    and D: "\<And>p. p \<in> D \<Longrightarrow> path_parent p = sm_root_path (cl_system s0) \<and> top_left T s0 p = None"
  shows "closing T down s0 ph t"
proof (rule closing_keep [OF cl])
  fix m q0 assume m: "cl_nodes s0 m = Some q0"
  obtain q where q: "cl_nodes s m = Some q" "phase_ok s0 s m q0 q (ph m)"
    using closing_dom [OF cl m] by blast
  have "m \<noteq> 0" using at_rest_no_zero [OF rest m] .
  have "phase_ok s0 t m q0 q (ph m)"
  proof (rule phase_ok_frame [OF q(2)])
    fix p assume "path_parent p = path_of q0"
    then have "p \<notin> D" using D at_rest_path_neq_root [OF rest m] by metis
    then show "map_of (cl_registry t) p = map_of (cl_registry s) p" by (simp add: t(11))
  next
    fix p assume "hm_contains p (cl_registry t)"
    then show "hm_contains p (cl_registry s)" by (auto simp: hm_contains_map_of t(11) split: if_splits)
  qed (use t \<open>m \<noteq> 0\<close> in auto)
  then show "\<exists>q. cl_nodes t m = Some q \<and> phase_ok s0 t m q0 q (ph m)"
    using q(1) t(1) by auto
  show "ph m = Untouched \<longleftrightarrow> m \<notin> T \<or> (\<exists>j. j \<noteq> 0 \<and> parent_of q0 = Some j \<and> ph j \<in> {Untouched, Asked})"
    by (rule closing_parts(6) [OF cl m])
  assume "ph m = Stopping"
  from closing_parts(7) [OF cl m this] \<open>m \<noteq> 0\<close>
  show "nw_signals (cl_net t) m \<noteq> [] \<or> (\<exists>n rn. cl_nodes s0 n = Some rn \<and> parent_of rn = Some m \<and> ph n \<noteq> Gone)"
    by (simp add: t(8))
next
  fix m sg assume "m = 0 \<or> m \<in> dom (cl_nodes s0)" "sg \<in> set (nw_signals (cl_net t) m)"
  then show "\<exists>n rn. n \<in> T \<and> cl_nodes s0 n = Some rn \<and> parent_of rn = Some m \<and> sg = SStopped (path_of rn)"
    using closing_parts(8) [OF cl, of m sg] t(8) [of m] t(9) by (cases "m = 0") auto
next
  fix p assume "path_parent p = sm_root_path (cl_system s0)"
  then show "map_of (cl_registry t) p = top_left T s0 p"
    using closing_parts(5) [OF cl] D [of p] by (simp add: t(11))
qed (use closing_absent [OF cl] t in auto)

lemma top_left_all:
  assumes "at_rest H s0" and "dom (cl_nodes s0) \<subseteq> T"
  shows "top_left T s0 p = None"
proof (cases "hm_contains p (cl_registry s0)")
  case True
  then obtain i r where r: "cl_nodes s0 i = Some r" "path_of r = p"
    using assms(1) unfolding at_rest_def by blast
  then have "i \<in> T" using assms(2) by blast
  from top_left_region [OF this r(1)] r(2) show ?thesis by simp
next
  case False
  then show ?thesis by (simp add: top_left_def hm_contains_map_of)
qed

lemma closing_no_top:
  assumes "at_rest H s0" and cl: "closing T True s0 ph s"
  shows "sup_get_childs (sm_root_path (cl_system s)) (cl_sup s) = []"
proof -
  have "dom (cl_nodes s0) \<subseteq> T" using closing_region(3) [OF cl] by simp
  then have "\<not> hm_contains p (cl_registry s)" if "path_parent p = sm_root_path (cl_system s0)" for p
    using closing_parts(5) [OF cl that] top_left_all [OF assms(1)] by (simp add: hm_contains_map_of)
  then show ?thesis
    using closing_parts(3) [OF cl] by (auto simp: sup_get_childs_def filter_empty_conv hm_contains_keys)
qed

lemma closing_cancelled:
  assumes rest: "at_rest H s0" and cl: "closing T down s0 ph s" and up: "cl_up s" and can: "cl_cancelled s"
    and t: "t = save_system (system_round channel_net SysCancelled (cl_shutdown s) (cl_system s)) s"
  shows "closing T down s0 ph t \<and> work s0 ph t < work s0 ph s"
proof -
  have down: "down" using closing_parts(2) [OF cl] can by simp
  have "system_stop_children channel_net (cl_system s) = (Inr False, cl_system s)"
    using closing_no_top [OF rest cl [unfolded eqTrueI [OF down]]]
    by (simp add: system_stop_children_def sup_stop_children_def)
  then have eq: "t = set_net (close_channels 0 (cl_net s)) (s\<lparr>cl_up := False, cl_shutdown := True\<rparr>)"
    by (simp add: t save_system_def Let_def)
  have "closing T down s0 ph t"
    by (rule closing_system [OF rest cl, where D = "{}"])
      (use closing_parts(1,4) [OF cl] down in \<open>simp_all add: eq\<close>)
  then show ?thesis using up by (simp add: work_def eq)
qed

lemma closing_signalled:
  assumes rest: "at_rest H s0" and cl: "closing T down s0 ph s"
    and sg: "nw_signals (cl_net s) 0 = sg # sgs"
    and s1: "s1 = set_net ((cl_net s)\<lparr>nw_signals := (nw_signals (cl_net s))(0 := sgs)\<rparr>) s"
    and up: "cl_up s"
    and t: "t = save_system (system_round channel_net (SysSignal sg) (cl_shutdown s1) (cl_system s1)) s1"
  shows "closing T down s0 ph t \<and> work s0 ph t < work s0 ph s"
proof -
  obtain k rk where k: "cl_nodes s0 k = Some rk" "parent_of rk = Some 0" "sg = SStopped (path_of rk)" "k \<in> T"
    using closing_parts(8) [OF cl, of 0 sg] sg by auto
  have top: "path_parent (path_of rk) = sm_root_path (cl_system s0)"
    using at_rest_parent [OF rest k(1)] k(2) by (metis option.inject)
  let ?sm = "system_remove_child (path_of rk) (cl_system s1)"
  have "\<not> system_has_childs ?sm" if down
    using closing_no_top [OF rest cl [unfolded eqTrueI [OF that]]]
    by (simp add: system_has_childs_def sup_has_childs_def system_remove_child_def sup_remove_child_def sup_get_childs_def
        s1 filter_empty_conv)
  then have "system_round channel_net (SysSignal sg) (cl_shutdown s1) (cl_system s1) = (down, down, ?sm)"
    using closing_parts(1) [OF cl] by (auto simp: k(3) Let_def s1)
  then have eq: "t = (let u = s1\<lparr>cl_system := ?sm, cl_up := \<not> down, cl_shutdown := down\<rparr>
      in if down then set_net (close_channels 0 (cl_net u)) u else u)"
    by (simp add: t save_system_def Let_def)
  have net: "nw_signals (cl_net t) = (nw_signals (cl_net s))(0 := sgs)" "nw_mail (cl_net t) = nw_mail (cl_net s)"
    "cl_up t = (\<not> down)"
    by (simp_all add: eq s1 Let_def system_remove_child_def sup_remove_child_def)
  have "closing T down s0 ph t"
  proof (rule closing_system [OF rest cl, where D = "{path_of rk}"])
    show "set (nw_signals (cl_net t) 0) \<subseteq> set (nw_signals (cl_net s) 0)"
      using sg by (auto simp: net)
    show "path_parent p = sm_root_path (cl_system s0) \<and> top_left T s0 p = None" if "p \<in> {path_of rk}" for p
      using that top top_left_region [OF k(4,1)] by simp
    show "distinct (hm_keys (cl_registry t))"
      using closing_parts(4) [OF cl]
      by (simp add: eq s1 Let_def system_remove_child_def sup_remove_child_def distinct_hm_keys_remove)
  qed (use closing_parts(1) [OF cl] up net in
      \<open>simp_all add: eq s1 Let_def system_remove_child_def sup_remove_child_def\<close>)
  moreover have "work s0 ph t < work s0 ph s"
    using sum_pop [of "insert 0 (dom (cl_nodes s0))" 0 "nw_signals (cl_net s)" sg sgs] at_rest_finite [OF rest] sg up
    by (simp add: work_def net)
  ultimately show ?thesis by blast
qed

lemma closing_step:
  assumes rest: "at_rest H s0" and cl: "closing T down s0 ph s" and step: "cl_step H s t"
  shows "\<exists>ph'. closing T down s0 ph' t \<and> work s0 ph' t < work s0 ph s"
  using step
proof (cases rule: cl_step.cases)
  case (round i r r' evs)
  then show ?thesis using closing_round [OF rest cl] by blast
next
  case (receive i r ev w b r' evs)
  show ?thesis
    using receive(4)
  proof (cases rule: take_item_cases)
    case mail
    then show ?thesis using closing_mail [OF rest cl receive(2,3)] receive by blast
  next
    case signal
    then show ?thesis using closing_signal [OF rest cl receive(2,3)] receive by blast
  next
    case action
    then show ?thesis using closing_action [OF rest cl receive(2,3)] receive by blast
  qed
next
  case cancelled
  then show ?thesis using closing_cancelled [OF rest cl] by blast
next
  case (signalled sg sgs s1)
  then show ?thesis using closing_signalled [OF rest cl] by blast
qed

lemma closing_steps:
  assumes "at_rest H s0" and "closing T down s0 ph s1" and "(cl_step H ^^ n) s1 s"
  shows "\<exists>ph'. closing T down s0 ph' s \<and> work s0 ph' s + n \<le> work s0 ph s1"
  using assms(3)
proof (induction n arbitrary: s)
  case 0
  then show ?case using assms(2) by auto
next
  case (Suc n)
  then obtain u where u: "(cl_step H ^^ n) s1 u" "cl_step H u s" by auto
  from Suc.IH [OF u(1)] obtain ph1 where p: "closing T down s0 ph1 u" "work s0 ph1 u + n \<le> work s0 ph s1" by blast
  from closing_step [OF assms(1) p(1) u(2)] p(2) show ?case by fastforce
qed

section \<open>The first round and the last state\<close>

definition first_phase :: "nat set \<Rightarrow> ('a, 'h, 'm) cluster \<Rightarrow> nat \<Rightarrow> phase" where
  "first_phase T s0 i =
     (case cl_nodes s0 i of None \<Rightarrow> Untouched
      | Some r \<Rightarrow> if i \<in> T \<and> parent_of r = Some 0 then Asked else Untouched)"

lemma closing_first:
  assumes rest: "at_rest H s0"
    and region: "\<And>i j r0. cl_nodes s0 i = Some r0 \<Longrightarrow> parent_of r0 = Some j \<Longrightarrow> j \<noteq> 0 \<Longrightarrow> i \<in> T \<longleftrightarrow> j \<in> T"
      "down \<Longrightarrow> dom (cl_nodes s0) \<subseteq> T"
    and flags: "cl_shutdown t = down" "cl_cancelled t = down" "sm_root_path (cl_system t) = sm_root_path (cl_system s0)"
      "cl_nodes t = cl_nodes s0" "cl_up t \<or> down"
    and dist: "distinct (hm_keys (cl_registry t))"
    and reg: "\<And>p. path_parent p = sm_root_path (cl_system s0) \<Longrightarrow> map_of (cl_registry t) p = top_left T s0 p"
      "\<And>p. path_parent p \<noteq> sm_root_path (cl_system s0) \<Longrightarrow> map_of (cl_registry t) p = map_of (cl_registry s0) p"
    and net: "nw_signals (cl_net t) = nw_signals (cl_net s0)"
      "\<And>k. k \<noteq> 0 \<Longrightarrow> nw_open (cl_net t) k = nw_open (cl_net s0) k"
      "\<And>k r. cl_nodes s0 k = Some r \<Longrightarrow> nw_actions (cl_net t) k
        = nw_actions (cl_net s0) k @ (if k \<in> T \<and> parent_of r = Some 0 then [CStop] else [])"
  shows "closing T down s0 (first_phase T s0) t"
proof (rule closingI)
  fix m q0 assume m: "cl_nodes s0 m = Some q0"
  have "path_of q0 \<noteq> sm_root_path (cl_system s0)" using at_rest_path_neq_root [OF rest m] .
  then have "map_of (cl_registry t) p = map_of (cl_registry s0) p" if "path_parent p = path_of q0" for p
    using that by (simp add: reg)
  then have "phase_ok s0 t m q0 q0 (first_phase T s0 m)"
    using at_rest_actor [OF rest m] at_rest_no_zero [OF rest m] m
    by (auto simp: phase_ok_def actor_at_rest_def first_phase_def net)
  then show "\<exists>q. cl_nodes t m = Some q \<and> phase_ok s0 t m q0 q (first_phase T s0 m)"
    using m flags by auto
  obtain j where j: "parent_of q0 = Some j"
    using at_rest_parent [OF rest m] by metis
  have "first_phase T s0 j \<in> {Untouched, Asked}"
    by (simp add: first_phase_def split: option.split)
  moreover have "first_phase T s0 m = Untouched \<longleftrightarrow> m \<notin> T \<or> j \<noteq> 0"
    using m j by (auto simp: first_phase_def)
  ultimately show "first_phase T s0 m = Untouched
      \<longleftrightarrow> m \<notin> T \<or> (\<exists>j. j \<noteq> 0 \<and> parent_of q0 = Some j \<and> first_phase T s0 j \<in> {Untouched, Asked})"
    using j by simp
next
  fix m q0 assume "first_phase T s0 m = Stopping"
  then show "nw_signals (cl_net t) m \<noteq> [] \<or> (\<exists>k rk. cl_nodes s0 k = Some rk \<and> parent_of rk = Some m \<and> first_phase T s0 k \<noteq> Gone)"
    by (simp add: first_phase_def split: option.splits if_splits)
next
  fix m sg assume m: "m = 0 \<or> m \<in> dom (cl_nodes s0)" and "sg \<in> set (nw_signals (cl_net t) m)"
  moreover have "nw_signals (cl_net s0) m = []"
  proof (cases "m = 0")
    case True
    then show ?thesis using rest by (simp add: at_rest_def)
  next
    case False
    then obtain q where "cl_nodes s0 m = Some q" using m by auto
    from at_rest_actor [OF rest this] show ?thesis by (simp add: actor_at_rest_def)
  qed
  ultimately show "\<exists>k rk. k \<in> T \<and> cl_nodes s0 k = Some rk \<and> parent_of rk = Some m \<and> sg = SStopped (path_of rk)"
    by (simp add: net)
qed (use flags dist reg region in auto)

text \<open>The system stops its children over their channels.\<close>

lemma rest_top_senders:
  assumes rest: "at_rest H s0"
  shows "(\<exists>p. map_of (su_senders (cl_sup s0)) p = Some k) \<longleftrightarrow> (\<exists>r. cl_nodes s0 k = Some r \<and> parent_of r = Some 0)"
    and "map_of (su_senders (cl_sup s0)) p = Some k \<Longrightarrow> \<exists>r. cl_nodes s0 k = Some r \<and> path_of r = p \<and> nw_open (cl_net s0) k"
proof -
  have node: "\<exists>r. cl_nodes s0 k = Some r \<and> path_of r = p \<and> parent_of r = Some 0" if "map_of (su_senders (cl_sup s0)) p = Some k" for p
    using that rest unfolding at_rest_def by blast
  have "\<exists>p. map_of (su_senders (cl_sup s0)) p = Some k" if "cl_nodes s0 k = Some r" "parent_of r = Some 0" for r
    using at_rest_actor [OF rest that(1)] that(2) by (auto simp: actor_at_rest_def)
  with node show "(\<exists>p. map_of (su_senders (cl_sup s0)) p = Some k) \<longleftrightarrow> (\<exists>r. cl_nodes s0 k = Some r \<and> parent_of r = Some 0)"
    by meson
  show "\<exists>r. cl_nodes s0 k = Some r \<and> path_of r = p \<and> nw_open (cl_net s0) k" if p: "map_of (su_senders (cl_sup s0)) p = Some k"
    using node [OF p] at_rest_actor [OF rest] by (auto simp: actor_at_rest_def)
qed

lemma cancel_round:
  assumes rest: "at_rest H s0"
  obtains u' where "system_round channel_net SysCancelled (cl_shutdown s0) (cl_system s0)
      = (\<not> sup_has_childs (sm_root_path (cl_system s0)) (cl_sup s0), True, (cl_system s0)\<lparr>sm_sup := u'\<rparr>)"
    "sup_books (sm_root_path (cl_system s0)) u'"
    "\<And>p. map_of (su_registry u') p = (if path_parent p = sm_root_path (cl_system s0) then None else map_of (cl_registry s0) p)"
    "su_world u' = (cl_net s0)\<lparr>nw_actions := (\<lambda>i. nw_actions (cl_net s0) i
        @ (if \<exists>r. cl_nodes s0 i = Some r \<and> parent_of r = Some 0 then [CStop] else []))\<rparr>"
proof -
  let ?root = "sm_root_path (cl_system s0)" and ?u = "cl_sup s0"
  have books: "sup_books ?root ?u" using rest by (simp add: at_rest_def)
  have "p = q" if "map_of (su_senders ?u) p = Some k" "map_of (su_senders ?u) q = Some k" for p q k
    using rest_top_senders(2) [OF rest that(1)] rest_top_senders(2) [OF rest that(2)] by auto
  then obtain u' where u': "sup_stop_children send_action ?root ?u = (Inr (sup_has_childs ?root ?u), u')"
    "sup_books ?root u'"
    "\<And>p. map_of (su_registry u') p = (if path_parent p = ?root then None else map_of (su_registry ?u) p)"
    "su_world u' = (su_world ?u)\<lparr>nw_actions := (\<lambda>i. nw_actions (su_world ?u) i
        @ (if \<exists>p. map_of (su_senders ?u) p = Some i then [CStop] else []))\<rparr>"
    using stop_children_channels [OF books] rest_top_senders(2) [OF rest] by blast
  have "system_round channel_net SysCancelled (cl_shutdown s0) (cl_system s0)
      = (\<not> sup_has_childs ?root ?u, True, (cl_system s0)\<lparr>sm_sup := u'\<rparr>)"
    using u'(1) by (simp add: system_stop_children_def)
  from that [OF this u'(2,3)] u'(4) show ?thesis by (simp add: rest_top_senders(1) [OF rest])
qed

lemma closing_start:
  assumes rest: "at_rest H s0" and can: "cl_cancelled s0"
    and t: "t = save_system (system_round channel_net SysCancelled (cl_shutdown s0) (cl_system s0)) s0"
  shows "closing (dom (cl_nodes s0)) True s0 (first_phase (dom (cl_nodes s0)) s0) t"
proof -
  obtain u' where u': "system_round channel_net SysCancelled (cl_shutdown s0) (cl_system s0)
      = (\<not> sup_has_childs (sm_root_path (cl_system s0)) (cl_sup s0), True, (cl_system s0)\<lparr>sm_sup := u'\<rparr>)"
    "sup_books (sm_root_path (cl_system s0)) u'"
    "\<And>p. map_of (su_registry u') p = (if path_parent p = sm_root_path (cl_system s0) then None else map_of (cl_registry s0) p)"
    "su_world u' = (cl_net s0)\<lparr>nw_actions := (\<lambda>i. nw_actions (cl_net s0) i
        @ (if \<exists>r. cl_nodes s0 i = Some r \<and> parent_of r = Some 0 then [CStop] else []))\<rparr>"
    by (rule cancel_round [OF rest]) (rule that)
  note sm = t [unfolded u'(1)]
  have top: "top_left (dom (cl_nodes s0)) s0 p = None" for p
    by (rule top_left_all [OF rest]) simp
  show ?thesis
  proof (rule closing_first [OF rest])
    fix i j r0 assume i: "cl_nodes s0 i = Some r0" and j: "parent_of r0 = Some j" "j \<noteq> 0"
    from at_rest_child [OF rest i j] i show "i \<in> dom (cl_nodes s0) \<longleftrightarrow> j \<in> dom (cl_nodes s0)" by (metis domI)
  next
    fix k r assume "cl_nodes s0 k = Some r"
    then show "nw_actions (cl_net t) k = nw_actions (cl_net s0) k
        @ (if k \<in> dom (cl_nodes s0) \<and> parent_of r = Some 0 then [CStop] else [])"
      by (simp add: sm save_system_def Let_def u'(4) domIff)
  qed (use u'(2,3) can in \<open>simp_all add: sm save_system_def Let_def sup_books_def top u'(4)\<close>)
qed

lemma some_step_round:
  assumes "at_rest H s0" and "cl_nodes s i = Some r" and "ru_life r = Stopped" and "parent_of r = Some j"
  shows "\<exists>t. cl_step H s t"
proof -
  obtain r' where "runner_step (H i) channel_net (load_runner s r) [] = (True, r', [])"
    using step_stopped [OF at_rest_tame [OF assms(1)], of "load_runner s r" j i channel_net "[]"] assms(3,4)
    by (metis load_runner_sel(3,8))
  from cl_step.round [of s i r H, OF assms(2) _ this] assms(3) show ?thesis by auto
qed

lemma some_step_receive:
  fixes s :: "('a, 'h, 'm) cluster"
  assumes "cl_nodes s i = Some r" and "ru_life r = Started"
    and "nw_signals (cl_net s) i \<noteq> [] \<or> nw_actions (cl_net s) i \<noteq> []"
  shows "\<exists>t. cl_step H s t"
proof -
  obtain ev :: "('m, ('h, 'm) actor_ctx) runner_event" and w where take: "take_item i (cl_net s) ev w"
    using assms(3) by (metis neq_Nil_conv take_item.signal take_item.action)
  obtain b r' evs where "runner_step (H i) channel_net (load_runner (set_net w s) r) [ev] = (b, r', evs)"
    by (metis prod_cases3)
  from cl_step.receive [of s i r ev w H, OF assms(1,2) take this] show ?thesis by blast
qed

text \<open>Where no step is possible no actor is on its way through the phases: it would have
  a round to make or something to receive, or wait for a child that has.\<close>

lemma stuck_not_leaving:
  assumes rest: "at_rest H s0" and cl: "closing T down s0 ph s" and stuck: "\<nexists>t. cl_step H s t"
    and i: "cl_nodes s0 i = Some r0"
  shows "ph i \<noteq> Leaving"
proof
  assume "ph i = Leaving"
  with closing_dom [OF cl i] obtain r where r: "cl_nodes s i = Some r" "ru_life r = Stopped" "parent_of r = parent_of r0"
    by (auto simp: phase_ok_def)
  obtain j where "parent_of r0 = Some j"
    using at_rest_parent [OF rest i] by metis
  with r have "parent_of r = Some j" by simp
  from some_step_round [OF rest r(1,2) this] stuck show False by blast
qed

lemma stuck_not_asked:
  assumes cl: "closing T down s0 ph s" and stuck: "\<nexists>t. cl_step H s t" and i: "cl_nodes s0 i = Some r0"
  shows "ph i \<noteq> Asked"
proof
  assume "ph i = Asked"
  with closing_dom [OF cl i] obtain r where "cl_nodes s i = Some r" "ru_life r = Started" "nw_actions (cl_net s) i \<noteq> []"
    by (auto simp: phase_ok_def)
  from some_step_receive [OF this(1,2)] this(3) stuck show False by blast
qed

lemma stuck_stopping_below:
  assumes rest: "at_rest H s0" and cl: "closing T down s0 ph s" and stuck: "\<nexists>t. cl_step H s t"
    and i: "cl_nodes s0 i = Some r0" and st: "ph i = Stopping"
  shows "\<exists>k rk. cl_nodes s0 k = Some rk \<and> parent_of rk = Some i \<and> ph k = Stopping"
proof -
  from closing_dom [OF cl i] st obtain r where "cl_nodes s i = Some r" "ru_life r = Started"
    by (auto simp: phase_ok_def)
  from some_step_receive [OF this] stuck have "nw_signals (cl_net s) i = []" by blast
  with closing_parts(7) [OF cl i st] obtain k rk where k: "cl_nodes s0 k = Some rk" "parent_of rk = Some i" "ph k \<noteq> Gone"
    by blast
  have "ph k \<noteq> Untouched"
    using closing_parts(6) [OF cl k(1)] k(2) st closing_region(4) [OF cl i] closing_region(1) [OF cl k(1,2)]
      at_rest_no_zero [OF rest i] by auto
  with stuck_not_leaving [OF rest cl stuck k(1)] stuck_not_asked [OF cl stuck k(1)] k show ?thesis by (cases "ph k") auto
qed

text \<open>A set of actors each of which has another one below it, or above it, is empty.\<close>

lemma no_endless_descent:
  assumes rest: "at_rest H s0"
    and below: "\<And>i r0. i \<in> S \<Longrightarrow> cl_nodes s0 i = Some r0 \<Longrightarrow> \<exists>k rk. k \<in> S \<and> cl_nodes s0 k = Some rk \<and> parent_of rk = Some i"
    and S: "S \<subseteq> dom (cl_nodes s0)"
  shows "S = {}"
proof (rule ccontr)
  assume "S \<noteq> {}"
  let ?level = "\<lambda>i. path_level (path_of (the (cl_nodes s0 i)))"
  have "finite (?level ` S)" using finite_subset [OF S at_rest_finite [OF rest]] by simp
  moreover from this \<open>S \<noteq> {}\<close> obtain m where m: "m \<in> S" "Max (?level ` S) = ?level m"
    using Max_in [of "?level ` S"] by blast
  moreover obtain q k rk where "cl_nodes s0 m = Some q" "k \<in> S" "cl_nodes s0 k = Some rk" "parent_of rk = Some m"
    using below [OF m(1)] m(1) S by blast
  moreover from this have "?level k = Suc (?level m)" using at_rest_level(1) [OF rest] by simp
  ultimately show False using Max_ge [OF _ imageI [of k S ?level]] by simp
qed

lemma no_endless_ascent:
  assumes rest: "at_rest H s0"
    and above: "\<And>i r0. i \<in> S \<Longrightarrow> cl_nodes s0 i = Some r0 \<Longrightarrow> \<exists>j. j \<in> S \<and> j \<noteq> 0 \<and> parent_of r0 = Some j"
    and S: "S \<subseteq> dom (cl_nodes s0)"
  shows "S = {}"
proof (rule ccontr)
  assume "S \<noteq> {}"
  let ?level = "\<lambda>i. path_level (path_of (the (cl_nodes s0 i)))"
  have "finite (?level ` S)" using finite_subset [OF S at_rest_finite [OF rest]] by simp
  moreover from this \<open>S \<noteq> {}\<close> obtain m where m: "m \<in> S" "Min (?level ` S) = ?level m"
    using Min_in [of "?level ` S"] by blast
  moreover obtain q j where q: "cl_nodes s0 m = Some q" "j \<in> S" "j \<noteq> 0" "parent_of q = Some j"
    using above [OF m(1)] m(1) S by blast
  moreover obtain p where "cl_nodes s0 j = Some p" "path_level (path_of q) = Suc (path_level (path_of p))"
    using at_rest_child [OF rest q(1,4,3)] .
  ultimately show False using Min_le [OF _ imageI [of j S ?level]] by simp
qed

lemma stuck_all_gone:
  assumes rest: "at_rest H s0" and cl: "closing T down s0 ph s" and stuck: "\<nexists>t. cl_step H s t"
  shows "(down \<longrightarrow> \<not> cl_up s) \<and> (\<forall>i \<in> dom (cl_nodes s0). i \<in> T \<longrightarrow> ph i = Gone)"
proof
  show "down \<longrightarrow> \<not> cl_up s"
    using stuck cl_step.cancelled [of s H] closing_parts(2) [OF cl] by blast
  have "{i \<in> dom (cl_nodes s0). ph i = Stopping} = {}"
  proof (rule no_endless_descent [OF rest])
    fix i r0 assume "i \<in> {i \<in> dom (cl_nodes s0). ph i = Stopping}" and "cl_nodes s0 i = Some r0"
    with stuck_stopping_below [OF rest cl stuck this(2)]
    show "\<exists>k rk. k \<in> {i \<in> dom (cl_nodes s0). ph i = Stopping} \<and> cl_nodes s0 k = Some rk \<and> parent_of rk = Some i"
      by auto
  qed auto
  moreover have "{i \<in> dom (cl_nodes s0). i \<in> T \<and> ph i = Untouched} = {}"
  proof (rule no_endless_ascent [OF rest])
    fix i r0 assume i: "i \<in> {i \<in> dom (cl_nodes s0). i \<in> T \<and> ph i = Untouched}" "cl_nodes s0 i = Some r0"
    with closing_parts(6) [OF cl i(2)] obtain j where j: "j \<noteq> 0" "parent_of r0 = Some j" "ph j \<in> {Untouched, Asked}"
      by auto
    obtain p where p: "cl_nodes s0 j = Some p" using at_rest_child [OF rest i(2) j(2,1)] .
    have "j \<in> T" using closing_region(1) [OF cl i(2) j(2,1)] i(1) by simp
    with j p stuck_not_asked [OF cl stuck p]
    show "\<exists>j. j \<in> {i \<in> dom (cl_nodes s0). i \<in> T \<and> ph i = Untouched} \<and> j \<noteq> 0 \<and> parent_of r0 = Some j"
      by auto
  qed auto
  ultimately have none: "i \<in> dom (cl_nodes s0) \<Longrightarrow> ph i \<noteq> Stopping \<and> (i \<in> T \<longrightarrow> ph i \<noteq> Untouched)" for i
    by blast
  show "\<forall>i \<in> dom (cl_nodes s0). i \<in> T \<longrightarrow> ph i = Gone"
  proof (intro ballI impI)
    fix i assume "i \<in> dom (cl_nodes s0)" "i \<in> T"
    moreover from this obtain r0 where "cl_nodes s0 i = Some r0" by auto
    ultimately show "ph i = Gone"
      using stuck_not_leaving [OF rest cl stuck] stuck_not_asked [OF cl stuck] none by (cases "ph i") auto
  qed
qed

text \<open>How a run ends: what was being stopped is gone, the rest is as it was.\<close>

definition stopped_since :: "('a, 'h, 'm) actor_runner \<Rightarrow> ('a, 'h, 'm) actor_runner \<Rightarrow> bool" where
  "stopped_since r0 r \<longleftrightarrow> ru_life r = Terminated \<and> ru_trace r = ru_trace r0 @ [TPreStop, TEmitStopped, TPostStop]"

lemma closing_gone:
  assumes cl: "closing T down s0 ph s" and i: "cl_nodes s0 i = Some r0"
  shows "i \<notin> T \<Longrightarrow> ph i = Untouched" and "cl_nodes s i = Some r \<Longrightarrow> ru_life r = Terminated \<longleftrightarrow> ph i = Gone"
proof -
  show "i \<notin> T \<Longrightarrow> ph i = Untouched" using closing_parts(6) [OF cl i] by simp
  show "cl_nodes s i = Some r \<Longrightarrow> ru_life r = Terminated \<longleftrightarrow> ph i = Gone"
    using closing_dom [OF cl i] by (cases "ph i") (auto simp: phase_ok_def)
qed

lemma gone_region:
  assumes rest: "at_rest H s0" and cl: "closing T down s0 ph s"
    and all: "\<And>k q. cl_nodes s0 k = Some q \<Longrightarrow> k \<in> T \<Longrightarrow> ph k = Gone"
    and i: "cl_nodes s0 i = Some r0"
  shows "\<exists>r. cl_nodes s i = Some r
    \<and> (if i \<in> T then stopped_since r0 r else ru_life r = Started \<and> ru_trace r = ru_trace r0)
    \<and> hm_contains (path_of r0) (cl_registry s) = (i \<notin> T)"
proof -
  have "hm_contains (path_of r0) (cl_registry s) = (i \<notin> T)"
  proof (cases rule: at_rest_parent [OF rest i])
    case 1
    then have "map_of (cl_registry s) (path_of r0) = top_left T s0 (path_of r0)" using closing_parts(5) [OF cl] by blast
    moreover have "(\<exists>k q. k \<in> T \<and> cl_nodes s0 k = Some q \<and> path_of q = path_of r0) \<longleftrightarrow> i \<in> T"
      using at_rest_inj [OF rest _ i] i by blast
    ultimately show ?thesis
      using at_rest_registered [OF rest i] by (simp add: hm_contains_map_of top_left_def)
  next
    case (2 j q)
    have "i \<in> T \<longleftrightarrow> j \<in> T" using closing_region(1) [OF cl i] 2 by simp
    then show ?thesis
      using closing_dom [OF cl 2(2)] all [OF 2(2)] closing_gone(1) [OF cl 2(2)] 2(4) at_rest_registered [OF rest i]
      by (cases "j \<in> T") (auto simp: phase_ok_def hm_contains_map_of)
  qed
  then show ?thesis
    using closing_dom [OF cl i] all [OF i] closing_gone(1) [OF cl i]
    by (cases "i \<in> T") (auto simp: phase_ok_def stopped_since_def)
qed

lemma stuck_region:
  assumes rest: "at_rest H s0" and cl: "closing T down s0 ph s" and stuck: "\<nexists>t. cl_step H s t"
    and i: "cl_nodes s0 i = Some r0"
  shows "\<exists>r. cl_nodes s i = Some r
    \<and> (if i \<in> T then stopped_since r0 r else ru_life r = Started \<and> ru_trace r = ru_trace r0)
    \<and> hm_contains (path_of r0) (cl_registry s) = (i \<notin> T)"
proof (rule gone_region [OF rest cl _ i])
  show "ph k = Gone" if "cl_nodes s0 k = Some q" "k \<in> T" for k q
    using stuck_all_gone [OF rest cl stuck] that by blast
qed

lemma closing_outcome:
  assumes rest: "at_rest H s0" and cl: "closing T down s0 ph s1"
  shows "\<exists>N. \<forall>n s. (cl_step H ^^ n) s1 s \<longrightarrow> n \<le> N \<and>
    ((\<nexists>t. cl_step H s t) \<longrightarrow> (cl_up s \<longleftrightarrow> \<not> down) \<and>
      (\<forall>i r0. cl_nodes s0 i = Some r0 \<longrightarrow> (\<exists>r. cl_nodes s i = Some r
        \<and> (if i \<in> T then stopped_since r0 r else ru_life r = Started \<and> ru_trace r = ru_trace r0)
        \<and> hm_contains (path_of r0) (cl_registry s) = (i \<notin> T))))"
proof (intro exI [of _ "work s0 ph s1"] allI impI conjI)
  fix n s assume run: "(cl_step H ^^ n) s1 s"
  obtain ph' where ph': "closing T down s0 ph' s" "work s0 ph' s + n \<le> work s0 ph s1"
    using closing_steps [OF rest cl run] by blast
  then show "n \<le> work s0 ph s1" by simp
  assume stuck: "\<nexists>t. cl_step H s t"
  show "cl_up s \<longleftrightarrow> \<not> down"
    using stuck_all_gone [OF rest ph'(1) stuck] closing_region(2) [OF ph'(1)] by blast
  show "\<exists>r. cl_nodes s i = Some r
      \<and> (if i \<in> T then stopped_since r0 r else ru_life r = Started \<and> ru_trace r = ru_trace r0)
      \<and> hm_contains (path_of r0) (cl_registry s) = (i \<notin> T)" if "cl_nodes s0 i = Some r0" for i r0
    by (rule stuck_region [OF rest ph'(1) stuck that])
qed

text \<open>A run of bounded length can be continued until it is stuck.\<close>

lemma bounded_run:
  assumes "\<And>n t. (R ^^ n) s t \<Longrightarrow> n \<le> (N :: nat)"
  shows "\<exists>n t. (R ^^ n) s t \<and> (\<nexists>t'. R t t')"
proof (rule ccontr)
  assume no: "\<not> ?thesis"
  have "\<exists>t. (R ^^ n) s t" for n
  proof (induction n)
    case (Suc n)
    then obtain t where t: "(R ^^ n) s t" by blast
    with no obtain t' where "R t t'" by blast
    with t show ?case by auto
  qed auto
  then obtain t where "(R ^^ Suc N) s t" by blast
  from assms [OF this] show False by simp
qed

lemma at_rest_cancelled: "at_rest H s \<Longrightarrow> at_rest H (s\<lparr>cl_cancelled := True\<rparr>)"
  by (rule at_rest_same [of H s]) simp_all

end
