(* ===== verification/Stops.thy ===== *)
theory Stops
  imports Closing
begin

text \<open>
  Stopping a top-level actor of a running system (\<open>System::stop_actor\<close>,
  \<open>actor/src/system.rs\<close>): which actors are concerned, that the request starts their
  shutdown, and that what is left once the system has handled the report of the actor
  is again a tree at rest.
\<close>

section \<open>The actors below a top-level actor\<close>

text \<open>\<open>System::stop_actor\<close> called on a running system.\<close>

definition cl_stop_actor :: "string \<Rightarrow> ('a, 'h, 'm) cluster \<Rightarrow> (actor_error + unit) \<times> ('a, 'h, 'm) cluster" where
  "cl_stop_actor name s =
     (case system_stop_actor channel_net name (cl_system s) of (res, sm) \<Rightarrow> (res, s\<lparr>cl_system := sm\<rparr>))"

definition subtree :: "actor_path \<Rightarrow> ('a, 'h, 'm) cluster \<Rightarrow> nat set" where
  "subtree p s = {i. \<exists>r. cl_nodes s i = Some r \<and> prefix (segments p) (segments (path_of r))}"

lemma subtree_node: "cl_nodes s i = Some r \<Longrightarrow> i \<in> subtree p s \<longleftrightarrow> prefix (segments p) (segments (path_of r))"
  by (simp add: subtree_def)

lemma top_actor:
  assumes rest: "at_rest H s" and name: "wf_segment name"
    and reg: "hm_contains (path_div (sm_root_path (cl_system s)) name) (cl_registry s)"
  obtains i r where "cl_nodes s i = Some r" "path_of r = path_div (sm_root_path (cl_system s)) name"
    "parent_of r = Some 0" "map_of (su_senders (cl_sup s)) (path_of r) = Some i" "nw_open (cl_net s) i"
proof -
  obtain i r where r: "cl_nodes s i = Some r" "path_of r = path_div (sm_root_path (cl_system s)) name"
    using rest reg unfolding at_rest_def by blast
  have up: "path_parent (path_of r) = sm_root_path (cl_system s)" by (simp add: r(2) path_parent_div [OF name])
  have "parent_of r = Some 0"
  proof (cases rule: at_rest_parent [OF rest r(1)])
    case (2 j q)
    then show ?thesis using up at_rest_path_neq_root [OF rest 2(2)] by simp
  qed
  moreover have "actor_at_rest s i r" by (rule at_rest_actor [OF rest r(1)])
  ultimately show ?thesis using that r by (auto simp: actor_at_rest_def)
qed

lemma subtree_top:
  assumes rest: "at_rest H s" and i: "cl_nodes s i = Some r" and top: "parent_of r = Some 0"
    and k: "cl_nodes s k = Some q" and par: "parent_of q = Some 0"
  shows "k \<in> subtree (path_of r) s \<longleftrightarrow> k = i"
proof -
  have two: "length (segments (path_of x)) = 2" if "cl_nodes s m = Some x" "parent_of x = Some 0" for m x
  proof -
    have "path_parent (path_of x) = sm_root_path (cl_system s)"
      using at_rest_parent [OF rest that(1)] that(2) by (metis option.inject)
    then have "length (segments (path_parent (path_of x))) = 1"
      using at_rest_root_path [OF rest] by (simp add: path_level_def)
    then show ?thesis
      using at_rest_path [OF rest that(1)] by (simp add: path_parent_segments path_level_def)
  qed
  have "k \<in> subtree (path_of r) s \<longleftrightarrow> path_of r = path_of q"
    using two [OF i top] two [OF k par] by (auto simp: subtree_node [OF k] prefix_def segments_inject [symmetric])
  also have "\<dots> \<longleftrightarrow> k = i" using at_rest_inj [OF rest k i] i k by auto
  finally show ?thesis .
qed

lemma subtree_closed:
  assumes rest: "at_rest H s" and p: "path_level p = 2"
    and i: "cl_nodes s i = Some r" and j: "parent_of r = Some j" "j \<noteq> 0"
  shows "i \<in> subtree p s \<longleftrightarrow> j \<in> subtree p s"
proof -
  obtain q where q: "cl_nodes s j = Some q" "path_parent (path_of r) = path_of q"
    using at_rest_child [OF rest i j] .
  have "1 < length (segments (path_of q))" using at_rest_path [OF rest q(1)] by (simp add: path_level_def)
  moreover have "segments (path_of q) = butlast (segments (path_of r))"
    using q(2) path_parent_segments [of "path_of r"] by simp
  moreover have "segments (path_of r) \<noteq> []"
    using at_rest_path [OF rest i] by (auto simp: path_level_def)
  then have "prefix (segments p) (segments (path_of r))
      \<longleftrightarrow> segments p = segments (path_of r) \<or> prefix (segments p) (butlast (segments (path_of r)))"
    by (metis append_butlast_last_id prefix_snoc)
  ultimately show ?thesis
    using p by (auto simp: subtree_node [OF i] subtree_node [OF q(1)] path_level_def)
qed

text \<open>The request goes to the actor's channel, and its path is given up at once.\<close>

lemma stop_actor_sends:
  assumes "map_of (su_senders (cl_sup s)) p = Some i" and "nw_open (cl_net s) i"
    and "p = path_div (sm_root_path (cl_system s)) name"
  shows "cl_stop_actor name s = (Inr (), s\<lparr>cl_system := (cl_system s)\<lparr>sm_sup := (unregister p (cl_sup s))\<lparr>su_world
      := (cl_net s)\<lparr>nw_actions := (nw_actions (cl_net s))(i := nw_actions (cl_net s) i @ [CStop])\<rparr>\<rparr>\<rparr>\<rparr>)"
  using assms by (simp add: cl_stop_actor_def system_stop_actor_def sup_stop_child_def send_action_def actor_supervision_def)

lemma closing_stop_actor:
  assumes rest: "at_rest H s" and can: "\<not> cl_cancelled s" and name: "wf_segment name"
    and reg: "hm_contains (path_div (sm_root_path (cl_system s)) name) (cl_registry s)"
  defines "T \<equiv> subtree (path_div (sm_root_path (cl_system s)) name) s"
  obtains t where "cl_stop_actor name s = (Inr (), t)" "closing T False s (first_phase T s) t"
proof -
  obtain i r where r: "cl_nodes s i = Some r" "path_of r = path_div (sm_root_path (cl_system s)) name"
    "parent_of r = Some 0" "map_of (su_senders (cl_sup s)) (path_of r) = Some i" "nw_open (cl_net s) i"
    using top_actor [OF rest name reg] .
  have T: "T = subtree (path_of r) s" by (simp add: T_def r(2))
  define t where "t = s\<lparr>cl_system := (cl_system s)\<lparr>sm_sup := (unregister (path_of r) (cl_sup s))\<lparr>su_world
      := (cl_net s)\<lparr>nw_actions := (nw_actions (cl_net s))(i := nw_actions (cl_net s) i @ [CStop])\<rparr>\<rparr>\<rparr>\<rparr>"
  have "cl_stop_actor name s = (Inr (), t)"
    unfolding t_def by (rule stop_actor_sends [OF r(4,5,2)])
  moreover have "closing T False s (first_phase T s) t"
  proof (rule closing_first [OF rest])
    have lvl: "path_level (path_of r) = 2"
      using at_rest_root_path [OF rest]
      by (simp add: r(2) path_level_def path_div_segments path_tokens_segment [OF name])
    show "i \<in> T \<longleftrightarrow> j \<in> T" if "cl_nodes s i = Some r0" "parent_of r0 = Some j" "j \<noteq> 0" for i j r0
      unfolding T using subtree_closed [OF rest lvl that] .
    show "distinct (hm_keys (cl_registry t))"
      using rest by (simp add: t_def at_rest_def sup_books_def distinct_hm_keys_remove)
    have top: "k \<in> T \<longleftrightarrow> k = i" if "cl_nodes s k = Some q" "parent_of q = Some 0" for k q
      unfolding T using subtree_top [OF rest r(1,3) that] .
    show "nw_actions (cl_net t) k = nw_actions (cl_net s) k @ (if k \<in> T \<and> parent_of q = Some 0 then [CStop] else [])"
      if "cl_nodes s k = Some q" for k q
      using top [OF that] r(1,3) that by (auto simp: t_def)
    show "map_of (cl_registry t) p = top_left T s p" if p: "path_parent p = sm_root_path (cl_system s)" for p
    proof (cases "p = path_of r")
      case True
      have "i \<in> T" using top [OF r(1,3)] by simp
      from top_left_region [OF this r(1)] True show ?thesis by (simp add: t_def)
    next
      case False
      have "\<not> (k \<in> T \<and> cl_nodes s k = Some q \<and> path_of q = p)" for k q
      proof
        assume k: "k \<in> T \<and> cl_nodes s k = Some q \<and> path_of q = p"
        then have "parent_of q = Some 0"
          using at_rest_parent [OF rest, of k q] p at_rest_path_neq_root [OF rest] by metis
        then show False using top [of k q] k r(1) False by auto
      qed
      then have "top_left T s p = map_of (cl_registry s) p" by (auto simp: top_left_def)
      then show ?thesis using False by (simp add: t_def)
    qed
    show "map_of (cl_registry t) p = map_of (cl_registry s) p" if "path_parent p \<noteq> sm_root_path (cl_system s)" for p
      using that r(2) path_parent_div [OF name] by (auto simp: t_def)
  qed (use rest can in \<open>simp_all add: t_def at_rest_def\<close>)
  ultimately show ?thesis by (rule that)
qed

section \<open>What a stop leaves alone\<close>

text \<open>While the tree of a top-level actor closes, the system goes on: its supervisor has
  given up exactly the paths concerned, no path is registered, and every actor keeps
  the channel on which its children report.\<close>

definition concerned :: "nat set \<Rightarrow> ('a, 'h, 'm) cluster \<Rightarrow> actor_path \<Rightarrow> bool" where
  "concerned T s0 p \<longleftrightarrow> (\<exists>i r0. i \<in> T \<and> cl_nodes s0 i = Some r0 \<and> path_of r0 = p)"

definition tidy :: "nat set \<Rightarrow> ('a, 'h, 'm) cluster \<Rightarrow> ('a, 'h, 'm) cluster \<Rightarrow> bool" where
  "tidy T s0 s \<longleftrightarrow> su_signal (cl_sup s) = 0 \<and> nw_open (cl_net s) 0
     \<and> su_senders (cl_sup s) = filter (\<lambda>x. \<not> concerned T s0 (fst x)) (su_senders (cl_sup s0))
     \<and> (\<forall>p. hm_contains p (cl_registry s) \<longrightarrow> hm_contains p (cl_registry s0))
     \<and> (\<forall>i r. cl_nodes s i = Some r \<longrightarrow> su_signal (cx_sup (ru_ctx r)) = i)"

lemma map_of_filter_key: "map_of (filter (\<lambda>x. P (fst x)) m) p = (if P p then map_of m p else None)"
  by (induction m) auto

lemma tidy_senders:
  assumes "tidy T s0 s"
  shows "map_of (su_senders (cl_sup s)) p = (if concerned T s0 p then None else map_of (su_senders (cl_sup s0)) p)"
  using assms map_of_filter_key [of "\<lambda>p. \<not> concerned T s0 p" "su_senders (cl_sup s0)" p] by (simp add: tidy_def)

lemma stop_loop_signal: "su_signal (snd (stop_loop send ps u)) = su_signal u"
proof (induction send ps u rule: stop_loop.induct)
  case (2 send path paths s)
  have "su_signal (snd (sup_stop_child send path s)) = su_signal s"
    by (simp add: sup_stop_child_def Let_def split: option.split prod.split)
  with 2 show ?case by (fastforce split: prod.split sum.split)
qed simp

lemma stop_children_signal: "sup_stop_children send parent u = (x, u') \<Longrightarrow> su_signal u' = su_signal u"
  using stop_loop_signal [of send "sup_get_childs parent u" u]
  by (auto simp: sup_stop_children_def split: if_splits prod.splits sum.splits)

lemma tidy_runner:
  assumes "tidy T s0 s" and "cl_nodes s i = Some r" and "i \<noteq> 0"
    and "su_signal (cx_sup (ru_ctx r')) = su_signal (cx_sup (ru_ctx r))"
    and "nw_open (cx_world (ru_ctx r')) = nw_open (cl_net s)"
    and "\<And>p. hm_contains p (su_registry (cx_sup (ru_ctx r'))) \<Longrightarrow> hm_contains p (cl_registry s)"
  shows "tidy T s0 (save_runner i r' (set_net w s))"
  using assms by (auto simp: tidy_def)

text \<open>A step of a runner keeps the channel on which its children report, ends no task,
  registers nobody and sends only to actors of the tree.\<close>

lemma receive_frame:
  assumes rest: "at_rest H s0" and cl: "closing T down s0 ph s"
    and node: "cl_nodes s i = Some r" and life: "ru_life r = Started" and take: "take_item i (cl_net s) ev w"
    and step: "runner_step (H i) channel_net (load_runner (set_net w s) r) [ev] = (b, r', evs)"
  shows "su_signal (cx_sup (ru_ctx r')) = su_signal (cx_sup (ru_ctx r)) \<and> nw_open (cx_world (ru_ctx r')) = nw_open (cl_net s)
    \<and> (\<forall>p. hm_contains p (su_registry (cx_sup (ru_ctx r'))) \<longrightarrow> hm_contains p (cl_registry s))
    \<and> (\<forall>k. cl_nodes s0 k = None \<longrightarrow> nw_signals (cx_world (ru_ctx r')) k = nw_signals (cl_net s) k
         \<and> nw_actions (cx_world (ru_ctx r')) k = nw_actions (cl_net s) k)"
proof -
  obtain r0 where r0: "cl_nodes s0 i = Some r0" "phase_ok s0 s i r0 r (ph i)"
    using closing_node [OF cl node] .
  let ?r = "load_runner (set_net w s) r"
  have live: "ru_life ?r = Started" "\<not> ru_init ?r" using life r0(2) by (simp_all add: phase_ok_def)
  note tame = at_rest_tame [OF rest, of i]
  have w: "nw_open w = nw_open (cl_net s)"
    "cl_nodes s0 k = None \<Longrightarrow> nw_signals w k = nw_signals (cl_net s) k \<and> nw_actions w k = nw_actions (cl_net s) k" for k
    using take r0(1) by (cases rule: take_item_cases; auto)+
  from take show ?thesis
  proof (cases rule: take_item_cases)
    case (mail m ms)
    from step_mail [OF tame live, of channel_net m] step mail(1) obtain a' where "r' = ?r\<lparr>ru_actor := a'\<rparr>" by auto
    then show ?thesis using w by simp
  next
    case (signal sg sgs)
    have "i = 0 \<or> i \<in> dom (cl_nodes s0)" "sg \<in> set (nw_signals (cl_net s) i)" using r0(1) signal(2) by auto
    from closing_parts(8) [OF cl this] obtain k rk where sg: "cl_nodes s0 k = Some rk" "sg = SStopped (path_of rk)" by blast
    have "ru_ctx r' = ctx_remove_child (path_key (path_of rk)) (ru_ctx ?r)"
      using step_child_stopped [OF live, of "H i" channel_net "path_of rk"] step
      by (auto simp: signal(1) sg(2) Let_def split: if_splits)
    then show ?thesis using w by (simp add: ctx_remove_child_def sup_remove_child_def)
  next
    case (action act acts)
    then have ask: "ph i = Asked" and act: "act = CStop"
      using r0(2) life by (cases "ph i"; auto simp: phase_ok_def)+
    have path: "path_of r = path_of r0" using r0(2) by (simp add: phase_ok_def)
    let ?u = "cx_sup (ru_ctx ?r)"
    from asked_stop_children [OF rest cl node r0(1) ask refl w(1)] obtain c u' where u':
      "sup_stop_children send_action (path_of r0) ?u = (Inr c, u')"
      "\<forall>p. map_of (su_registry u') p = (if path_parent p = path_of r0 then None else map_of (cl_registry s) p)"
      "su_world u' = w\<lparr>nw_actions := (\<lambda>k. nw_actions w k
        @ (if \<exists>rk. cl_nodes s0 k = Some rk \<and> parent_of rk = Some i then [CStop] else []))\<rparr>" by blast
    from step_stop [OF tame live, of channel_net c u'] u'(1) step have "cx_sup (ru_ctx r') = u'"
      by (auto simp: action(1) act path)
    then show ?thesis
      using u'(2,3) stop_children_signal [OF u'(1)] w by (auto simp: hm_contains_map_of split: if_splits)
  qed
qed

lemma hm_remove_gone: "P p \<Longrightarrow> hm_remove p (filter (\<lambda>x. \<not> P (fst x)) m) = filter (\<lambda>x. \<not> P (fst x)) m"
  by (induction m) (auto simp: hm_remove_def)

lemma tidy_step:
  assumes rest: "at_rest H s0" and cl: "closing T False s0 ph s" and ty: "tidy T s0 s" and step: "cl_step H s t"
  shows "tidy T s0 t"
  using step
proof (cases rule: cl_step.cases)
  case (round i r r' evs)
  obtain r0 j where r': "cl_nodes s0 i = Some r0" "ru_life r' = Terminated" "cx_sup (ru_ctx r') = (cx_sup (ru_ctx (load_runner s r)))\<lparr>su_world :=
      snd (send_signal j (SStopped (path_of r0)) (cl_net s))\<rparr>"
    by (rule round_effect [OF rest cl round(2-4)]) (rule that)
  then show ?thesis using ty round(2) at_rest_no_zero [OF rest r'(1)] by (auto simp: tidy_def round(1) send_signal_def)
next
  case (receive i r ev w b r' evs)
  have "i \<noteq> 0" using closing_node [OF cl receive(2)] at_rest_no_zero [OF rest] by metis
  with receive_frame [OF rest cl receive(2-5)] show ?thesis
    unfolding receive(1) by (intro tidy_runner [OF ty receive(2)]) auto
next
  case cancelled
  then show ?thesis using closing_parts(2) [OF cl] by simp
next
  case (signalled sg sgs s1)
  obtain k rk where k: "k \<in> T" "cl_nodes s0 k = Some rk" "sg = SStopped (path_of rk)"
    using closing_parts(8) [OF cl, of 0 sg] signalled(3) by auto
  have gone: "concerned T s0 (path_of rk)" using k by (auto simp: concerned_def)
  have "\<not> cl_shutdown s" using closing_parts(1) [OF cl] by simp
  then have "t = s1\<lparr>cl_system := system_remove_child (path_of rk) (cl_system s1), cl_up := True, cl_shutdown := False\<rparr>"
    by (simp add: signalled(1,4) save_system_def k(3) Let_def)
  with gone ty show ?thesis
    by (simp add: tidy_def signalled(4) system_remove_child_def sup_remove_child_def hm_remove_gone)
qed

lemma closing_tidy_steps:
  assumes "at_rest H s0" and "closing T False s0 ph s1" and "tidy T s0 s1" and "(cl_step H)\<^sup>*\<^sup>* s1 s"
  obtains ph' where "closing T False s0 ph' s" "tidy T s0 s"
  using assms(4)
proof (induction arbitrary: thesis)
  case base
  then show ?case using assms(2,3) by blast
next
  case (step t u)
  obtain ph' where ph': "closing T False s0 ph' t" "tidy T s0 t" using step.IH by blast
  from closing_step [OF assms(1) ph'(1) step.hyps(2)] tidy_step [OF assms(1) ph' step.hyps(2)] step.prems show ?case by blast
qed

text \<open>The request itself.\<close>

lemma at_rest_senders_top:
  assumes "at_rest H s" and "map_of (su_senders (cl_sup s)) p = Some i"
  obtains r where "cl_nodes s i = Some r" "path_of r = p" "parent_of r = Some 0"
  using assms unfolding at_rest_def by blast

lemma stop_actor_accepted:
  assumes rest: "at_rest H s" and stop: "cl_stop_actor name s = (Inr (), t)"
  shows "hm_contains (path_div (sm_root_path (cl_system s)) name) (cl_registry s)"
proof -
  let ?p = "path_div (sm_root_path (cl_system s)) name"
  obtain i where "map_of (su_senders (cl_sup s)) ?p = Some i"
    using stop by (auto simp: cl_stop_actor_def system_stop_actor_def sup_stop_child_def Let_def split: option.splits prod.splits)
  with rest obtain r where "cl_nodes s i = Some r" "path_of r = ?p" unfolding at_rest_def by blast
  from at_rest_registered [OF rest this(1)] this(2) show ?thesis by simp
qed

lemma stop_actor_started:
  assumes rest: "at_rest H s" and can: "\<not> cl_cancelled s" and name: "wf_segment name"
    and stop: "cl_stop_actor name s = (Inr (), t)"
  defines "T \<equiv> subtree (path_div (sm_root_path (cl_system s)) name) s"
  shows "closing T False s (first_phase T s) t" and "tidy T s t"
proof -
  note reg = stop_actor_accepted [OF rest stop]
  show "closing T False s (first_phase T s) t"
    using closing_stop_actor [OF rest can name reg] stop by (auto simp: T_def)
  obtain i r where r: "cl_nodes s i = Some r" "path_of r = path_div (sm_root_path (cl_system s)) name"
    "parent_of r = Some 0" "map_of (su_senders (cl_sup s)) (path_of r) = Some i" "nw_open (cl_net s) i"
    using top_actor [OF rest name reg] .
  have T: "T = subtree (path_of r) s" by (simp add: T_def r(2))
  have "concerned T s p \<longleftrightarrow> p = path_of r" if p: "p \<in> set (map fst (su_senders (cl_sup s)))" for p
  proof -
    obtain k where "map_of (su_senders (cl_sup s)) p = Some k" 
      using p by (metis hm_contains_def hm_contains_map_of)
    then obtain q where q: "cl_nodes s k = Some q" "path_of q = p" "parent_of q = Some 0" using at_rest_senders_top [OF rest] by metis
    have "concerned T s p \<longleftrightarrow> k \<in> T"
      using at_rest_inj [OF rest _ q(1)] q(1,2) unfolding concerned_def by metis
    also have "\<dots> \<longleftrightarrow> k = i" unfolding T by (rule subtree_top [OF rest r(1,3) q(1,3)])
    also have "\<dots> \<longleftrightarrow> p = path_of r" using at_rest_inj [OF rest r(1) q(1)] q(1,2) r(1) by auto
    finally show ?thesis .
  qed
  then have "hm_remove (path_of r) (su_senders (cl_sup s)) = filter (\<lambda>x. \<not> concerned T s (fst x)) (su_senders (cl_sup s))"
    by (auto simp: hm_remove_def intro!: filter_cong)
  moreover from stop_actor_sends [OF r(4,5,2)] stop have "t = s\<lparr>cl_system := (cl_system s)\<lparr>sm_sup := (unregister (path_of r) (cl_sup s))\<lparr>su_world
      := (cl_net s)\<lparr>nw_actions := (nw_actions (cl_net s))(i := nw_actions (cl_net s) i @ [CStop])\<rparr>\<rparr>\<rparr>\<rparr>" by simp
  ultimately show "tidy T s t"
    using rest at_rest_actor [OF rest] by (auto simp: tidy_def at_rest_def actor_at_rest_def)
qed

section \<open>The tree after a stop\<close>

text \<open>A task that has ended leaves the system; its reference answers nothing any more.\<close>

definition reap :: "('a, 'h, 'm) cluster \<Rightarrow> ('a, 'h, 'm) cluster" where
  "reap s = s\<lparr>cl_nodes := (\<lambda>i. case cl_nodes s i of None \<Rightarrow> None
      | Some r \<Rightarrow> if ru_life r = Terminated then None else Some r)\<rparr>"

lemma reap_sel [simp]:
  "cl_system (reap s) = cl_system s" "cl_up (reap s) = cl_up s" "cl_shutdown (reap s) = cl_shutdown s"
  "cl_cancelled (reap s) = cl_cancelled s"
  "cl_nodes (reap s) i = Some r \<longleftrightarrow> cl_nodes s i = Some r \<and> ru_life r \<noteq> Terminated"
  by (auto simp: reap_def split: option.splits)

text \<open>A part of the tree has ended when its actors have, and when the system has handled
  the report of the one at its top.\<close>

definition ended :: "nat set \<Rightarrow> ('a, 'h, 'm) cluster \<Rightarrow> bool" where
  "ended T s \<longleftrightarrow> nw_signals (cl_net s) 0 = [] \<and> (\<forall>i \<in> T. \<forall>r. cl_nodes s i = Some r \<longrightarrow> ru_life r = Terminated)"

lemma ended_survivors:
  assumes rest: "at_rest H s0" and cl: "closing T False s0 ph s" and ty: "tidy T s0 s" and en: "ended T s"
  shows "cl_nodes (reap s) i = Some r \<Longrightarrow> \<exists>r0. i \<notin> T \<and> cl_nodes s0 i = Some r0 \<and> standing r = standing r0"
    and "i \<notin> T \<Longrightarrow> cl_nodes s0 i = Some r0 \<Longrightarrow> \<exists>r. cl_nodes (reap s) i = Some r \<and> standing r = standing r0"
proof -
  have keep: "standing r = standing r0 \<and> ru_life r \<noteq> Terminated"
    if "i \<notin> T" "cl_nodes s0 i = Some r0" "cl_nodes s i = Some r" "phase_ok s0 s i r0 r (ph i)" for i r r0
    using that closing_gone(1) [OF cl that(2,1)] at_rest_actor [OF rest that(2)] ty
    by (auto simp: phase_ok_def standing_def actor_at_rest_def tidy_def)
  show "\<exists>r0. i \<notin> T \<and> cl_nodes s0 i = Some r0 \<and> standing r = standing r0" if r: "cl_nodes (reap s) i = Some r"
  proof -
    from r have n: "cl_nodes s i = Some r" "i \<notin> T" using en by (auto simp: ended_def)
    from closing_node [OF cl n(1)] keep [OF n(2) _ n(1)] n(2) show ?thesis by metis
  qed
  show "\<exists>r. cl_nodes (reap s) i = Some r \<and> standing r = standing r0" if i: "i \<notin> T" "cl_nodes s0 i = Some r0"
    using closing_dom [OF cl i(2)] keep [OF i] by auto
qed

lemma actor_at_rest_reap:
  assumes rest: "at_rest H s0" and cl: "closing T False s0 ph s" and ty: "tidy T s0 s" and en: "ended T s"
    and k: "cl_nodes (reap s) k = Some q"
  shows "actor_at_rest (reap s) k q"
proof -
  note old = ended_survivors(1) [OF rest cl ty en] and new = ended_survivors(2) [OF rest cl ty en]
  obtain q0 where q0: "k \<notin> T" "cl_nodes s0 k = Some q0" "standing q = standing q0" using old [OF k] by blast
  note a0 = at_rest_actor [OF rest q0(2)]
  have eq: "path_of q = path_of q0" "parent_of q = parent_of q0" "senders_of q = senders_of q0" "ru_life q = Started"
      "\<not> ru_init q" "su_signal (cx_sup (ru_ctx q)) = k"
    using q0(3) a0 by (simp_all add: standing_def actor_at_rest_def)
  have ok: "phase_ok s0 s k q0 q Untouched"
    using closing_dom [OF cl q0(2)] closing_gone(1) [OF cl q0(2,1)] k by auto
  have "set (sup_get_childs (path_of q0) (cx_sup (ru_ctx (load_runner (reap s) q))))
      = set (sup_get_childs (path_of q0) (cx_sup (ru_ctx (load_runner s0 q0))))"
    using ok by (auto simp: set_get_childs hm_contains_map_of phase_ok_def)
  then have books: "sup_books (path_of q) (cx_sup (ru_ctx (load_runner (reap s) q)))"
    using a0 closing_parts(4) [OF cl] by (simp add: actor_at_rest_def sup_books_def eq)
  have "\<exists>rk. cl_nodes (reap s) m = Some rk \<and> path_of rk = p \<and> parent_of rk = Some k"
    if m: "map_of (senders_of q) p = Some m" for p m
  proof -
    obtain r where r: "cl_nodes s0 m = Some r" "path_of r = p" "parent_of r = Some k"
      using at_rest_senders [OF rest q0(2) m [unfolded eq(3)]] .
    have "m \<notin> T" using closing_region(1) [OF cl r(1,3) at_rest_no_zero [OF rest q0(2)]] q0(1) by simp
    from new [OF this r(1)] r(2,3) show ?thesis by (auto simp: standing_def)
  qed
  moreover have "parent_of q = Some 0 \<and> map_of (su_senders (cl_sup (reap s))) (path_of q) = Some k
      \<or> (\<exists>j rj. j \<noteq> 0 \<and> cl_nodes (reap s) j = Some rj \<and> parent_of q = Some j \<and> map_of (senders_of rj) (path_of q) = Some k)"
  proof (cases "parent_of q0 = Some 0")
    case True
    then have "map_of (su_senders (cl_sup s0)) (path_of q0) = Some k"
      using a0 at_rest_no_zero [OF rest] by (auto simp: actor_at_rest_def)
    moreover have "\<not> concerned T s0 (path_of q0)" using at_rest_inj [OF rest _ q0(2)] q0(1) by (auto simp: concerned_def)
    ultimately show ?thesis
      using True by (simp add: tidy_senders [OF ty] eq)
  next
    case False
    then obtain j rj where j: "j \<noteq> 0" "cl_nodes s0 j = Some rj" "parent_of q0 = Some j" "map_of (senders_of rj) (path_of q0) = Some k"
      using a0 by (auto simp: actor_at_rest_def)
    have "j \<notin> T" using closing_region(1) [OF cl q0(2) j(3,1)] q0(1) by simp
    from new [OF this j(2)] j show ?thesis by (auto simp: standing_def eq)
  qed
  ultimately show ?thesis
    using a0 ok eq books by (simp add: actor_at_rest_def phase_ok_def)
qed

lemma at_rest_reap:
  assumes rest: "at_rest H s0" and cl: "closing T False s0 ph s" and ty: "tidy T s0 s" and en: "ended T s"
  shows "at_rest H (reap s)"
proof -
  note old = ended_survivors(1) [OF rest cl ty en] and new = ended_survivors(2) [OF rest cl ty en]
  let ?root = "sm_root_path (cl_system s0)"
  have root: "sm_root_path (cl_system s) = ?root" using closing_parts(3) [OF cl] .
  have b0: "sup_books ?root (cl_sup s0)" using rest by (simp add: at_rest_def)
  have gone: "ph k = Gone" if "cl_nodes s0 k = Some q" "k \<in> T" for k q
    using closing_dom [OF cl that(1)] closing_gone(2) [OF cl that(1)] en that(2) by (auto simp: ended_def)
  have known: "\<exists>i r. cl_nodes (reap s) i = Some r \<and> path_of r = p" if p: "hm_contains p (cl_registry s)" for p
  proof -
    obtain i r0 where i: "cl_nodes s0 i = Some r0" "path_of r0 = p"
      using ty p rest unfolding tidy_def at_rest_def by metis
    have "i \<notin> T" using gone_region [OF rest cl _ i(1)] gone i(2) p by blast
    from new [OF this i(1)] i(2) show ?thesis by (auto simp: standing_def)
  qed
  note senders = tidy_senders [OF ty]
  have "sup_books ?root (cl_sup s)"
  proof -
    have "p \<in> set (hm_keys (su_senders (cl_sup s))) \<longleftrightarrow> p \<in> set (sup_get_childs ?root (cl_sup s))" for p
      using b0 sup_books_sender [OF b0, of p] closing_parts(5) [OF cl, of p] senders [of p]
      by (cases "path_parent p = ?root")
        (auto simp: hm_contains_keys [symmetric] set_get_childs hm_contains_map_of top_left_def concerned_def sup_books_def
          split: if_splits)
    then show ?thesis using closing_parts(4) [OF cl] by (auto simp: sup_books_def)
  qed
  moreover have "\<exists>r. cl_nodes (reap s) i = Some r \<and> path_of r = p \<and> parent_of r = Some 0"
    if p: "map_of (su_senders (cl_sup s)) p = Some i" for p i
  proof -
    have p0: "map_of (su_senders (cl_sup s0)) p = Some i" "\<not> concerned T s0 p" using p senders by (auto split: if_splits)
    obtain r where r: "cl_nodes s0 i = Some r" "path_of r = p" "parent_of r = Some 0"
      using at_rest_senders_top [OF rest p0(1)] .
    have "i \<notin> T" using p0(2) r by (auto simp: concerned_def)
    from new [OF this r(1)] r show ?thesis by (auto simp: standing_def)
  qed
  moreover have "finite (dom (cl_nodes (reap s)))"
  proof (rule finite_subset)
    show "dom (cl_nodes (reap s)) \<subseteq> dom (cl_nodes s0)" using old by fastforce
  qed (rule at_rest_finite [OF rest])
  moreover have "i = j" if "cl_nodes (reap s) i = Some r" "cl_nodes (reap s) j = Some q" "path_of r = path_of q" for i j r q
    using old [OF that(1)] old [OF that(2)] that(3) at_rest_inj [OF rest] by (auto simp: standing_def)
  then have "\<forall>i j r q. cl_nodes (reap s) i = Some r \<longrightarrow> cl_nodes (reap s) j = Some q \<longrightarrow> path_of r = path_of q \<longrightarrow> i = j"
    by blast
  moreover have "cl_nodes (reap s) 0 = None"
    using old [of 0] at_rest_no_zero [OF rest, of 0] by (cases "cl_nodes (reap s) 0") auto
  moreover have "cl_up s" "\<not> cl_shutdown s" using closing_parts(1) [OF cl] closing_region(2) [OF cl] by auto
  ultimately show ?thesis
    using rest root ty en known actor_at_rest_reap [OF rest cl ty en]
    unfolding at_rest_def by (simp add: tidy_def ended_def)
qed

end
