(* ===== verification/Histories.thy ===== *)
theory Histories
  imports Stops
begin

text \<open>
  The histories of a system that is not shut down: actors created and stopped, messages
  sent and handled (\<open>cl_built\<close>), and the tree that such a history leaves.
\<close>

section \<open>Histories\<close>

text \<open>Creations, messages sent and handled, in any order; and stops of top-level actors,
  which are refused where there is none of that name. Otherwise, from the request on all tasks run as they do, until the actors
  concerned have ended and the system has handled the report of the one stopped. Its
  name, and the numbers of the actors, are then free again.\<close>

inductive cl_built :: "('a, 'h, 'm) actor_hooks \<Rightarrow> config \<Rightarrow> ('a, 'h, 'm) cluster \<Rightarrow> bool"
  for H conf where
  new: "cl_built H conf (cl_new conf)"
| create_root: "\<lbrakk>cl_built H conf s; i \<noteq> 0; cl_nodes s i = None; wf_segment name;
      cl_create_root H i actor name s = (x, t)\<rbrakk> \<Longrightarrow> cl_built H conf t"
| create_child: "\<lbrakk>cl_built H conf s; cl_nodes s j = Some q; i \<noteq> 0; cl_nodes s i = None; wf_segment name;
      cl_create_child H j q i actor name s = (x, t)\<rbrakk> \<Longrightarrow> cl_built H conf t"
| tell: "cl_built H conf s \<Longrightarrow> cl_built H conf (cl_tell i m s)"
| handle: "\<lbrakk>cl_built H conf s; cl_nodes s i = Some r; nw_mail (cl_net s) i = m # ms;
      w = (cl_net s)\<lparr>nw_mail := (nw_mail (cl_net s))(i := ms)\<rparr>;
      runner_step (H i) channel_net (load_runner (set_net w s) r) [RMsg m] = (b, r', evs)\<rbrakk>
    \<Longrightarrow> cl_built H conf (save_runner i r' (set_net w s))"
| refused: "\<lbrakk>cl_built H conf s; wf_segment name; cl_stop_actor name s = (Inl e, t)\<rbrakk> \<Longrightarrow> cl_built H conf t"
| stopped: "\<lbrakk>cl_built H conf s; wf_segment name; cl_stop_actor name s = (Inr (), s1); (cl_step H)\<^sup>*\<^sup>* s1 t;
      ended (subtree (path_div (sm_root_path (cl_system s)) name) s) t\<rbrakk>
    \<Longrightarrow> cl_built H conf (reap t)"

text \<open>The root of every system is \<open>/user\<close>, and building does not cancel.\<close>

lemma step_fixed:
  assumes "cl_step H s t"
  shows "sm_root_path (cl_system t) = sm_root_path (cl_system s) \<and> cl_cancelled t = cl_cancelled s"
  using assms
proof cases
  case cancelled
  then show ?thesis
    by (auto simp: save_system_def Let_def system_stop_children_def split: prod.splits sum.splits)
next
  case (signalled sg sgs s1)
  then show ?thesis
    by (cases sg) (auto simp: save_system_def Let_def system_on_child_error_def system_on_child_fault_def
        system_remove_child_def split: prod.splits sum.splits)
qed simp_all

lemma steps_fixed:
  assumes "(cl_step H)\<^sup>*\<^sup>* s t"
  shows "sm_root_path (cl_system t) = sm_root_path (cl_system s) \<and> cl_cancelled t = cl_cancelled s"
  using assms by induction (auto dest: step_fixed)

lemma stop_actor_fixed:
  assumes "cl_stop_actor name s = (x, t)"
  shows "sm_root_path (cl_system t) = sm_root_path (cl_system s) \<and> cl_cancelled t = cl_cancelled s"
  using assms by (auto simp: cl_stop_actor_def system_stop_actor_def split: prod.splits)

lemma built_fixed:
  fixes s :: "('a, 'h, 'm) cluster"
  assumes "cl_built H conf s"
  shows "sm_root_path (cl_system s) = ActorPath [''user''] \<and> \<not> cl_cancelled s"
  using assms
proof induction
  case new
  have "sm_root_path (cl_system (cl_new conf :: ('a, 'h, 'm) cluster)) = ActorPath [''user'']"
    unfolding cl_new_def system_new_def cluster.simps system.simps by code_simp
  then show ?case by (simp add: cl_new_def)
next
  case (create_root s i name actor a t)
  then show ?case
    by (auto simp: cl_create_root_def Let_def system_create_actor_def adopt_runner_def split: prod.splits if_splits)
next
  case (create_child s j q i name actor a t)
  then show ?case
    by (auto simp: cl_create_child_def Let_def adopt_runner_def split: prod.splits if_splits)
next
  case (refused s name e t)
  then show ?case using stop_actor_fixed [OF refused(3)] by simp
next
  case (stopped s name s1 t)
  then show ?case using stop_actor_fixed [OF stopped(3)] steps_fixed [OF stopped(4)] by simp
qed (simp_all add: cl_tell_def)

lemma built_pair:
  "\<exists>(s :: (nat, 'h, nat) cluster) r q. cl_built (\<lambda>_. plain_hooks SStop) conf s \<and> cl_nodes s 2 = Some r
    \<and> path_of r = ActorPath [''user'', ''a'', ''b''] \<and> cl_nodes s 3 = Some q \<and> path_of q = ActorPath [''user'', ''c'']
    \<and> cl_nodes s 4 = None"
proof -
  let ?H = "(\<lambda>_. plain_hooks SStop) :: (nat, 'h, nat) actor_hooks" and ?s0 = "cl_new conf :: (nat, 'h, nat) cluster"
  have u: "sm_root_path (cl_system ?s0) = ActorPath [''user'']"
    using built_fixed [OF cl_built.new] by blast
  have ab: "path_div (ActorPath [''user'']) ''a'' = ActorPath [''user'', ''a'']"
    "path_div (ActorPath [''user'']) ''c'' = ActorPath [''user'', ''c'']"
    "path_div (ActorPath [''user'', ''a'']) ''b'' = ActorPath [''user'', ''a'', ''b'']" by code_simp+
  have n: "wf_segment ''a''" "wf_segment ''b''" "wf_segment ''c''"
    by (simp_all add: wf_segment_def is_blank_def ws1_def ws2_def ws3_def)
  have reg: "cl_registry ?s0 = []" and no: "cl_nodes ?s0 = Map.empty"
    by (simp_all add: cl_new_def system_new_def sup_new_def)
  obtain t1 r1 where t1: "cl_create_root ?H 1 0 ''a'' ?s0 = (Inr 1, t1)" "cl_nodes t1 = [1 \<mapsto> r1]"
      "path_of r1 = ActorPath [''user'', ''a'']" "cl_registry t1 = [(ActorPath [''user'', ''a''], 1)]"
    using create_root_ok [of ?H 1 ?s0 "''a''" 0, OF plain_tame(2)] by (auto simp: u ab reg no hm_contains_def hm_insert_def hm_remove_def)
  have built1: "cl_built ?H conf t1"
    by (rule cl_built.create_root [OF cl_built.new _ _ n(1) t1(1)]) (simp_all add: no)
  have u1: "sm_root_path (cl_system t1) = ActorPath [''user'']"
    using built_fixed [OF built1] by blast
  obtain t q where t: "cl_create_root ?H 3 0 ''c'' t1 = (Inr 3, t)" "cl_nodes t = [1 \<mapsto> r1, 3 \<mapsto> q]"
      "path_of q = ActorPath [''user'', ''c'']"
      "cl_registry t = [(ActorPath [''user'', ''c''], 3), (ActorPath [''user'', ''a''], 1)]"
    using create_root_ok [of ?H 3 t1 "''c''" 0, OF plain_tame(2)] by (auto simp: u1 ab t1 hm_contains_def hm_insert_def hm_remove_def)
  have built: "cl_built ?H conf t"
    by (rule cl_built.create_root [OF built1 _ _ n(3) t(1)]) (simp_all add: t1)
  have "\<exists>t' r'. cl_create_child ?H 1 r1 2 0 ''b'' t = (Inr 2, t') \<and> cl_nodes t' 2 = Some r'
    \<and> path_of r' = path_div (path_of r1) ''b'' \<and> (\<forall>k. k \<noteq> 2 \<longrightarrow> k \<noteq> 1 \<longrightarrow> cl_nodes t' k = cl_nodes t k)"
    by (rule create_child_ok) (simp_all add: plain_tame t t1 ab path_level_def MAX_ACTOR_DEPTH_def hm_contains_def)
  then obtain t' r' where t': "cl_create_child ?H 1 r1 2 0 ''b'' t = (Inr 2, t')" "cl_nodes t' 2 = Some r'"
      "path_of r' = ActorPath [''user'', ''a'', ''b'']" "cl_nodes t' 3 = Some q" "cl_nodes t' 4 = None"
    by (auto simp: t t1 ab)
  have "cl_built ?H conf t'"
    by (rule cl_built.create_child [OF built _ _ _ n(2) t'(1)]) (simp_all add: t)
  with t' t(3) show ?thesis by blast
qed

section \<open>Every history leaves a consistent tree\<close>

lemma hm_remove_absent: "\<not> hm_contains k m \<Longrightarrow> hm_remove k m = m"
  by (induction m) (auto simp: hm_remove_def hm_contains_def)

text \<open>Where a creation or a stop is refused nothing changes.\<close>

lemma create_root_refused:
  assumes "tame_start (H i)" and "cl_create_root H i actor name s = (Inl e, t)"
  shows "t = s"
proof (cases "hm_contains (path_div (sm_root_path (cl_system s)) name) (cl_registry s)")
  case True
  then show ?thesis using assms(2) by (simp add: cl_create_root_def Let_def split: prod.splits)
next
  case False
  from create_root_ok [where H = H and i = i, OF assms(1) this, of actor] assms(2) show ?thesis by (metis Inl_Inr_False prod.inject)
qed

lemma create_child_refused:
  assumes "tame_start (H i)" and "cl_create_child H j q i actor name s = (Inl e, t)"
  shows "t = s"
proof (cases "path_level (path_of q) < MAX_ACTOR_DEPTH \<and> \<not> hm_contains (path_div (path_of q) name) (cl_registry s)")
  case True
  then have "\<exists>t. cl_create_child H j q i actor name s = (Inr i, t)"
    using create_child_ok [where H = H and i = i, OF assms(1), of q name s j actor] by blast
  with assms(2) show ?thesis by simp
next
  case False
  then show ?thesis using assms(2) by (auto simp: cl_create_child_def Let_def split: prod.splits if_splits)
qed

lemma stop_actor_refused:
  assumes rest: "at_rest H s" and name: "wf_segment name" and stop: "cl_stop_actor name s = (Inl e, t)"
  shows "at_rest H t"
proof -
  let ?p = "path_div (sm_root_path (cl_system s)) name"
  have "\<not> hm_contains ?p (cl_registry s)"
  proof
    assume reg: "hm_contains ?p (cl_registry s)"
    obtain i r where r: "path_of r = ?p" "cl_nodes s i = Some r" "map_of (su_senders (cl_sup s)) (path_of r) = Some i" "nw_open (cl_net s) i"
      using top_actor [OF rest name reg] by blast
    from stop_actor_sends [OF r(3,4,1)] stop show False by simp
  qed
  moreover have "sup_books (sm_root_path (cl_system s)) (cl_sup s)" using rest by (simp add: at_rest_def)
  from sup_books_sender [OF this path_parent_div [OF name]] calculation
  have "\<not> hm_contains ?p (su_senders (cl_sup s))" by simp
  ultimately have "map_of (su_senders (cl_sup s)) ?p = None" "hm_remove ?p (su_senders (cl_sup s)) = su_senders (cl_sup s)"
    "hm_remove ?p (cl_registry s) = cl_registry s"
    by (simp_all add: map_of_eq_None_hm hm_remove_absent)
  then have "cl_system t = (cl_system s)\<lparr>sm_sup := unregister ?p (cl_sup s)\<rparr>" "cl_nodes t = cl_nodes s"
      "cl_up t = cl_up s" "cl_shutdown t = cl_shutdown s"
      "su_senders (unregister ?p (cl_sup s)) = su_senders (cl_sup s)" "su_registry (unregister ?p (cl_sup s)) = cl_registry s"
    using stop by (auto simp: cl_stop_actor_def system_stop_actor_def sup_stop_child_def)
  then show ?thesis by (intro at_rest_same [OF rest]) simp_all
qed

lemma built_at_rest:
  assumes "cl_built H conf s" and "\<forall>i. tame_hooks (H i)" and "\<forall>i. tame_start (H i)"
  shows "at_rest H s"
  using assms(1)
proof induction
  case new
  then show ?case by (rule at_rest_new [OF assms(2)])
next
  case (create_root s i name actor x t)
  from assms(3) have h: "tame_start (H i)" by blast
  show ?case
  proof (cases x)
    case (Inl e)
    from create_root_refused [of H i actor name s e t] h create_root Inl show ?thesis by blast
  next
    case (Inr a)
    with h create_root show ?thesis by (intro at_rest_create_root [of H s i name actor a t]) simp_all
  qed
next
  case (create_child s j q i name actor x t)
  from assms(3) have h: "tame_start (H i)" by blast
  show ?case
  proof (cases x)
    case (Inl e)
    from create_child_refused [of H i j q actor name s e t] h create_child Inl show ?thesis by blast
  next
    case (Inr a)
    with h create_child show ?thesis by (intro at_rest_create_child [of H s i name j q actor a t]) simp_all
  qed
next
  case (tell s i m)
  show ?case
    by (rule at_rest_same [OF tell.IH]) (simp_all add: cl_tell_def)
next
  case (handle s i r m ms w b r' evs)
  then show ?case by (intro at_rest_handle [of H s i r w _ m b r' evs])
next
  case (refused s name e t)
  then show ?case by (intro stop_actor_refused [of H s name e t])
next
  case (stopped s name s1 t)
  have can: "\<not> cl_cancelled s" using built_fixed [OF stopped.hyps(1)] by blast
  note start = stop_actor_started [OF stopped.IH can stopped.hyps(2,3)]
  from closing_tidy_steps [OF stopped.IH start stopped.hyps(4)] stopped.hyps(5) show ?case
    using at_rest_reap [OF stopped.IH] by metis
qed

text \<open>A name that was stopped can be used again: the stop ends, whatever the schedule, and
  then an actor can be created under the name.\<close>

lemma stuck_ended:
  assumes rest: "at_rest H s0" and cl: "closing T False s0 ph s" and stuck: "\<nexists>t. cl_step H s t"
  shows "ended T s"
proof -
  have "cl_up s" using closing_region(2) [OF cl] by simp
  then have "nw_signals (cl_net s) 0 = []"
    using stuck cl_step.signalled [of s _ _ _ H] by (cases "nw_signals (cl_net s) 0") blast+
  moreover have "ru_life r = Terminated" if "i \<in> T" "cl_nodes s i = Some r" for i r
    using closing_node [OF cl that(2)] stuck_all_gone [OF rest cl stuck] closing_gone(2) [OF cl _ that(2)] that(1)
    by (metis domI)
  ultimately show ?thesis by (simp add: ended_def)
qed

lemma built_again:
  fixes s :: "('a, 'h, 'm) cluster" and actor :: 'a
  assumes built: "cl_built H conf s" and tame: "\<forall>i. tame_hooks (H i)" "\<forall>i. tame_start (H i)"
    and name: "wf_segment name" and reg: "hm_contains (path_div (sm_root_path (cl_system s)) name) (cl_registry s)"
    and i: "i \<noteq> 0" "cl_nodes s i = None"
  shows "\<exists>t r. cl_built H conf t \<and> cl_nodes t i = Some r \<and> path_of r = path_div (sm_root_path (cl_system s)) name
    \<and> (\<forall>k. k \<noteq> i \<longrightarrow> map_option path_of (cl_nodes t k) = (if k \<in> subtree (path_div (sm_root_path (cl_system s)) name) s
         then None else map_option path_of (cl_nodes s k)))"
proof -
  let ?p = "path_div (sm_root_path (cl_system s)) name" and ?T = "subtree (path_div (sm_root_path (cl_system s)) name) s"
  note rest = built_at_rest [OF built tame]
  have can: "\<not> cl_cancelled s" using built_fixed [OF built] by blast
  obtain s1 where s1: "cl_stop_actor name s = (Inr (), s1)" "closing ?T False s (first_phase ?T s) s1"
    using closing_stop_actor [OF rest can name reg] .
  note start = stop_actor_started [OF rest can name s1(1)]
  obtain N where "\<And>n t. (cl_step H ^^ n) s1 t \<Longrightarrow> n \<le> N"
    using closing_outcome [OF rest s1(2)] by blast
  then obtain n u where u: "(cl_step H ^^ n) s1 u" "\<nexists>t'. cl_step H u t'"
    using bounded_run [of "cl_step H" s1 N] by blast
  then have steps: "(cl_step H)\<^sup>*\<^sup>* s1 u" by (metis relpowp_imp_rtranclp)
  obtain ph where ph: "closing ?T False s ph u" "tidy ?T s u" using closing_tidy_steps [OF rest start steps] .
  note en = stuck_ended [OF rest ph(1) u(2)]
  have b: "cl_built H conf (reap u)" by (rule cl_built.stopped [OF built name s1(1) steps en])
  note surv = ended_survivors [OF rest ph en]
  have nodes: "map_option path_of (cl_nodes (reap u) k) = (if k \<in> ?T then None else map_option path_of (cl_nodes s k))" for k
  proof (cases "cl_nodes (reap u) k")
    case None
    then show ?thesis using surv(2) [of k] by (cases "cl_nodes s k") auto
  next
    case (Some r)
    then show ?thesis using surv(1) [OF Some] by (auto simp: standing_def)
  qed
  have root: "sm_root_path (cl_system u) = sm_root_path (cl_system s)" by (rule closing_parts(3) [OF ph(1)])
  have free: "\<not> hm_contains (path_div (sm_root_path (cl_system (reap u))) name) (cl_registry (reap u))"
  proof
    assume "hm_contains (path_div (sm_root_path (cl_system (reap u))) name) (cl_registry (reap u))"
    then obtain k r where k: "cl_nodes (reap u) k = Some r" "path_of r = ?p"
      using built_at_rest [OF b tame] unfolding at_rest_def root reap_sel by metis
    from surv(1) [OF k(1)] k(2) obtain r0 where "k \<notin> ?T" "cl_nodes s k = Some r0" "path_of r0 = ?p"
      by (auto simp: standing_def)
    then show False by (auto simp: subtree_def)
  qed
  have h: "tame_start (H i)" using tame(2) by blast
  obtain t r where t: "cl_create_root H i actor name (reap u) = (Inr i, t)" "cl_nodes t = (cl_nodes (reap u))(i \<mapsto> r)"
      "path_of r = ?p"
    using create_root_ok [where H = H and i = i, OF h free, of actor] by (auto simp: root)
  have "cl_nodes (reap u) i = None" using nodes [of i] i(2) by (cases "i \<in> ?T") auto
  then have "cl_built H conf t" by (rule cl_built.create_root [OF b i(1) _ name t(1)])
  then show ?thesis using t(2,3) nodes by (intro exI [of _ t] exI [of _ r]) simp
qed

text \<open>A top-level actor with nobody below it.\<close>

lemma built_lone:
  "\<exists>s :: (nat, 'h, nat) cluster. cl_built (\<lambda>_. plain_hooks SStop) conf s \<and> cl_nodes s 4 = None
    \<and> hm_contains (ActorPath [''user'', ''c'']) (cl_registry s) \<and> subtree (ActorPath [''user'', ''c'']) s = {3}"
proof -
  let ?H = "(\<lambda>_. plain_hooks SStop) :: (nat, 'h, nat) actor_hooks" and ?s0 = "cl_new conf :: (nat, 'h, nat) cluster"
  have u: "sm_root_path (cl_system ?s0) = ActorPath [''user'']"
    using built_fixed [OF cl_built.new] by blast
  have c: "path_div (ActorPath [''user'']) ''c'' = ActorPath [''user'', ''c'']" by code_simp
  have n: "wf_segment ''c''" by (simp add: wf_segment_def is_blank_def ws1_def ws2_def ws3_def)
  have reg: "cl_registry ?s0 = []" and no: "cl_nodes ?s0 = Map.empty"
    by (simp_all add: cl_new_def system_new_def sup_new_def)
  obtain t r where t: "cl_create_root ?H 3 0 ''c'' ?s0 = (Inr 3, t)" "cl_nodes t = [3 \<mapsto> r]"
      "path_of r = ActorPath [''user'', ''c'']" "cl_registry t = [(ActorPath [''user'', ''c''], 3)]"
    using create_root_ok [of ?H 3 ?s0 "''c''" 0, OF plain_tame(2)] by (auto simp: u c reg no hm_contains_def hm_insert_def hm_remove_def)
  have "cl_built ?H conf t"
    by (rule cl_built.create_root [OF cl_built.new _ _ n t(1)]) (simp_all add: no)
  moreover have "subtree (ActorPath [''user'', ''c'']) t = {3}" using t by (auto simp: subtree_def split: if_splits)
  ultimately show ?thesis using t by (intro exI [of _ t]) (simp add: hm_contains_def)
qed

section \<open>Properties\<close>

text \<open>C4: the tree of a system is well formed between its operations. Take any history of
  creations under proper names, stops of top-level actors and messages, names and numbers
  used again included, in which every stop is over - the actors concerned have terminated
  and the system has handled their report - before the next operation
  (\<open>reused_name_lost\<close> is what happens otherwise), and actors whose methods are tame:
  \<open>pre_start\<close> and \<open>pre_stop\<close> succeed, and no method creates, stops or signals (so no
  \<open>PersistentActor\<close>, whose \<open>pre_start\<close> creates children). Then the
  registered paths are those of the live actors, one actor each; an actor runs, has an
  open mailbox and a path of proper names, at most \<open>MAX_ACTOR_DEPTH\<close> long; and its
  creator is the system or the live actor whose path its own extends by one name, which
  holds its stop channel and to which it reports its end.\<close>

theorem built_tree:
  assumes "cl_built H conf s" and "\<forall>i. tame_hooks (H i)" and "\<forall>i. tame_start (H i)"
  shows "(\<forall>p. hm_contains p (cl_registry s) \<longleftrightarrow> (\<exists>i r. cl_nodes s i = Some r \<and> path_of r = p))
    \<and> (\<forall>i j r q. cl_nodes s i = Some r \<and> cl_nodes s j = Some q \<and> path_of r = path_of q \<longrightarrow> i = j)
    \<and> (\<forall>i r. cl_nodes s i = Some r \<longrightarrow> ru_life r = Started \<and> nw_open (cl_net s) i
        \<and> wf_path (path_of r) \<and> path_level (path_of r) \<le> MAX_ACTOR_DEPTH
        \<and> (parent_of r = Some 0 \<and> path_parent (path_of r) = sm_root_path (cl_system s)
             \<and> map_of (su_senders (cl_sup s)) (path_of r) = Some i
           \<or> (\<exists>j q. j \<noteq> 0 \<and> cl_nodes s j = Some q \<and> parent_of r = Some j \<and> path_parent (path_of r) = path_of q
             \<and> map_of (senders_of q) (path_of r) = Some i)))"
proof -
  note rest = built_at_rest [OF assms]
  have "\<exists>i r. cl_nodes s i = Some r \<and> path_of r = p" if "hm_contains p (cl_registry s)" for p
    using rest that unfolding at_rest_def by blast
  moreover have "parent_of r = Some 0 \<and> path_parent (path_of r) = sm_root_path (cl_system s)
        \<and> map_of (su_senders (cl_sup s)) (path_of r) = Some i
      \<or> (\<exists>j q. j \<noteq> 0 \<and> cl_nodes s j = Some q \<and> parent_of r = Some j \<and> path_parent (path_of r) = path_of q
        \<and> map_of (senders_of q) (path_of r) = Some i)" if i: "cl_nodes s i = Some r" for i r
  proof (cases rule: at_rest_parent [OF rest i])
    case 1
    then show ?thesis using at_rest_actor [OF rest i] at_rest_no_zero [OF rest] by (auto simp: actor_at_rest_def)
  next
    case (2 j q)
    then show ?thesis by blast
  qed
  ultimately show ?thesis
    using at_rest_registered [OF rest] at_rest_inj [OF rest] at_rest_actor [OF rest] by (auto simp: actor_at_rest_def)
qed

theorem built_tree_witness:
  "\<exists>(s :: (nat, nat, nat) cluster) r q. cl_built (\<lambda>_. plain_hooks SStop) config_default s
    \<and> cl_nodes s 2 = Some r \<and> path_of r = ActorPath [''user'', ''a'', ''b''] \<and> cl_nodes s 3 = None
    \<and> cl_nodes s 4 = Some q \<and> path_of q = ActorPath [''user'', ''c''] \<and> nw_open (cl_net s) 4
    \<and> hm_contains (ActorPath [''user'', ''c'']) (cl_registry s)"
proof -
  let ?H = "(\<lambda>_. plain_hooks SStop) :: (nat, nat, nat) actor_hooks"
  have tame: "\<forall>i. tame_hooks (?H i)" "\<forall>i. tame_start (?H i)" by (simp_all add: plain_tame)
  obtain s :: "(nat, nat, nat) cluster" and r q where s: "cl_built ?H config_default s" "cl_nodes s 4 = None"
      "cl_nodes s 2 = Some r" "path_of r = ActorPath [''user'', ''a'', ''b'']"
      "cl_nodes s 3 = Some q" "path_of q = ActorPath [''user'', ''c'']"
    using built_pair by blast
  note tree = built_tree [OF _ tame]
  have div: "path_div (ActorPath [''user'']) ''c'' = ActorPath [''user'', ''c'']" by code_simp
  have c: "path_div (sm_root_path (cl_system s)) ''c'' = ActorPath [''user'', ''c'']"
    using built_fixed [OF s(1)] div by simp
  have n: "wf_segment ''c''" by (simp add: wf_segment_def is_blank_def ws1_def ws2_def ws3_def)
  have "hm_contains (path_div (sm_root_path (cl_system s)) ''c'') (cl_registry s)"
    using tree [OF s(1)] s(5,6) c by metis
  from built_again [OF s(1) tame n this _ s(2), unfolded c] obtain t q' where t: "cl_built ?H config_default t"
      "cl_nodes t 4 = Some q'" "path_of q' = ActorPath [''user'', ''c'']"
      "\<forall>k. k \<noteq> 4 \<longrightarrow> map_option path_of (cl_nodes t k) = (if k \<in> subtree (ActorPath [''user'', ''c'']) s
         then None else map_option path_of (cl_nodes s k))" by auto
  have "map_option path_of (cl_nodes t 2) = Some (ActorPath [''user'', ''a'', ''b''])" "cl_nodes t 3 = None"
    using t(4) [rule_format, of 2] t(4) [rule_format, of 3] s(3-6) by (simp_all add: subtree_node)
  then obtain r' where r': "cl_nodes t 2 = Some r'" "path_of r' = ActorPath [''user'', ''a'', ''b'']" by auto
  have "nw_open (cl_net t) 4 \<and> hm_contains (path_of q') (cl_registry t)"
    using tree [OF t(1)] t(2) by blast
  with r' t(1-3) \<open>cl_nodes t 3 = None\<close> show ?thesis by auto
qed

end
