(* ===== verification/Serving.thy ===== *)
theory Serving
  imports Histories Handler
begin

text \<open>
  Messages in a running system: \<open>ActorMessage::handle\<close> (\<open>actor/src/handler.rs\<close>) as
  the message branch of every actor's run loop (\<open>actor/src/runner.rs\<close>), with all tasks
  interleaved. A run out of a tree at rest is a run of message steps only, each message
  is handled once and in its mailbox's order, and each question gets one answer.
\<close>

section \<open>Actors that answer\<close>

text \<open>An actor's state with the answers it has sent on oneshot channels, the oldest
  first: the channel belongs to the message, so an answer is nobody else's to send.\<close>

type_synonym ('a, 'r) answering = "'a \<times> (nat \<times> (actor_error + 'r)) list"

definition handle_answering ::
  "('a \<Rightarrow> actor_path \<Rightarrow> 'q \<Rightarrow> (actor_error + 'r) \<times> 'a) \<Rightarrow> 'q actor_message \<Rightarrow> ('a, 'r) answering \<Rightarrow> ('a, 'r) answering" where
  "handle_answering h =
     message_handle (\<lambda>s sender msg. case h (fst s) sender msg of (r, a) \<Rightarrow> (r, (a, snd s)))
       (\<lambda>k r s. (fst s, snd s @ [(k, r)]))"

text \<open>What a mailbox comes to: the state after its messages, and the answers.\<close>

fun mail_state :: "('a \<Rightarrow> actor_path \<Rightarrow> 'q \<Rightarrow> (actor_error + 'r) \<times> 'a) \<Rightarrow> 'a \<Rightarrow> 'q actor_message list \<Rightarrow> 'a" where
  "mail_state h a [] = a"
| "mail_state h a (m # ms) = mail_state h (snd (h a (am_sender m) (am_msg m))) ms"

fun mail_answers ::
  "('a \<Rightarrow> actor_path \<Rightarrow> 'q \<Rightarrow> (actor_error + 'r) \<times> 'a) \<Rightarrow> 'a \<Rightarrow> 'q actor_message list \<Rightarrow> (nat \<times> (actor_error + 'r)) list" where
  "mail_answers h a [] = []"
| "mail_answers h a (m # ms) =
     (case h a (am_sender m) (am_msg m) of (r, a') \<Rightarrow>
       (case am_resp m of None \<Rightarrow> [] | Some k \<Rightarrow> [(k, r)]) @ mail_answers h a' ms)"

lemma handle_answering_all:
  "foldl (\<lambda>s m. handle_answering h m s) (a, out) ms = (mail_state h a ms, out @ mail_answers h a ms)"
  by (induction ms arbitrary: a out)
    (auto simp: handle_answering_def message_handle_def split: prod.splits option.splits)

lemma mail_answers_names: "map fst (mail_answers h a ms) = List.map_filter am_resp ms"
  by (induction ms arbitrary: a) (auto simp: map_filter_simps split: prod.splits option.splits)

section \<open>Runs out of a tree at rest\<close>

text \<open>\<open>f i\<close> is what actor \<open>i\<close> does to its state with a message.\<close>

definition served ::
  "(nat \<Rightarrow> 'm \<Rightarrow> 'a \<Rightarrow> 'a) \<Rightarrow> ('a, 'h, 'm) cluster \<Rightarrow> ('a, 'h, 'm) cluster \<Rightarrow> bool" where
  "served f s t \<longleftrightarrow> cl_registry t = cl_registry s \<and> \<not> cl_cancelled t \<and> dom (cl_nodes t) = dom (cl_nodes s)
    \<and> (\<forall>i r0. cl_nodes s i = Some r0 \<longrightarrow> (\<exists>r ms. cl_nodes t i = Some r
        \<and> nw_mail (cl_net s) i = ms @ nw_mail (cl_net t) i
        \<and> ru_actor r = foldl (\<lambda>a m. f i m a) (ru_actor r0) ms \<and> ru_trace r = ru_trace r0))"

definition mail_left :: "('a, 'h, 'm) cluster \<Rightarrow> nat" where
  "mail_left s = (\<Sum>i \<in> dom (cl_nodes s). length (nw_mail (cl_net s) i))"

lemma served_step:
  assumes rest: "at_rest H s" and can: "\<not> cl_cancelled s" and f: "\<forall>i m a c. hk_message (H i) m a c = (f i m a, c)"
    and step: "cl_step H s t"
  obtains i r r' m ms where "cl_nodes s i = Some r" "nw_mail (cl_net s) i = m # ms"
    "cl_nodes t = (cl_nodes s)(i \<mapsto> r')" "ru_actor r' = f i m (ru_actor r)" "ru_trace r' = ru_trace r"
    "nw_mail (cl_net t) = (nw_mail (cl_net s))(i := ms)" "cl_registry t = cl_registry s" "\<not> cl_cancelled t" "at_rest H t"
  using step
proof cases
  case (round i r r' evs)
  then show ?thesis using at_rest_actor [OF rest round(2)] by (simp add: actor_at_rest_def)
next
  case (receive i r ev w b r' evs)
  note live = at_rest_actor [OF rest receive(2), unfolded actor_at_rest_def]
  from receive(4) show ?thesis
  proof (cases rule: take_item_cases)
    case (mail m ms)
    let ?r = "load_runner (set_net w s) r"
    have "r' = ?r\<lparr>ru_actor := f i m (ru_actor r)\<rparr>"
      using receive(5) live f by (simp add: mail(1) runner_step_def send_init_def)
    moreover from at_rest_handle [OF rest receive(2) mail(3) receive(5) [unfolded mail(1)]]
    have "at_rest H t" by (simp add: receive(1))
    ultimately show ?thesis
      using that [OF receive(2) mail(2), of r'] live can by (simp add: receive(1) mail(3))
  qed (use live in simp_all)
next
  case cancelled
  then show ?thesis using can by simp
next
  case (signalled sg sgs s1)
  then show ?thesis using rest by (simp add: at_rest_def)
qed

lemma served_steps:
  assumes rest: "at_rest H s" and can: "\<not> cl_cancelled s" and f: "\<forall>i m a c. hk_message (H i) m a c = (f i m a, c)"
    and run: "(cl_step H ^^ n) s t"
  shows "at_rest H t \<and> served f s t \<and> n + mail_left t = mail_left s"
  using run
proof (induction n arbitrary: t)
  case 0
  then show ?case using rest can by (auto simp: served_def)
next
  case (Suc n)
  then obtain u where u: "(cl_step H ^^ n) s u" "cl_step H u t" by auto
  from Suc.IH [OF u(1)] have ih: "at_rest H u" "served f s u" "n + mail_left u = mail_left s" by simp_all
  then have "\<not> cl_cancelled u" by (simp add: served_def)
  from served_step [OF ih(1) this f u(2)] obtain i r r' m ms where st:
    "cl_nodes u i = Some r" "nw_mail (cl_net u) i = m # ms"
    "cl_nodes t = (cl_nodes u)(i \<mapsto> r')" "ru_actor r' = f i m (ru_actor r)" "ru_trace r' = ru_trace r"
    "nw_mail (cl_net t) = (nw_mail (cl_net u))(i := ms)" "cl_registry t = cl_registry u" "\<not> cl_cancelled t" "at_rest H t"
    by metis
  have dom: "dom (cl_nodes t) = dom (cl_nodes u)" using st(1) by (auto simp: st(3))
  have "\<exists>r ms'. cl_nodes t k = Some r \<and> nw_mail (cl_net s) k = ms' @ nw_mail (cl_net t) k
      \<and> ru_actor r = foldl (\<lambda>a m. f k m a) (ru_actor r0) ms' \<and> ru_trace r = ru_trace r0"
    if k: "cl_nodes s k = Some r0" for k r0
  proof -
    obtain q ms' where q: "cl_nodes u k = Some q" "nw_mail (cl_net s) k = ms' @ nw_mail (cl_net u) k"
        "ru_actor q = foldl (\<lambda>a m. f k m a) (ru_actor r0) ms'" "ru_trace q = ru_trace r0"
      using ih(2) k unfolding served_def by blast
    show ?thesis
    proof (cases "k = i")
      case True
      with q st show ?thesis by (intro exI [of _ r'] exI [of _ "ms' @ [m]"]) simp
    next
      case False
      with q st show ?thesis by auto
    qed
  qed
  moreover have "Suc (mail_left t) = mail_left u"
  proof -
    have fin: "finite (dom (cl_nodes u))" and i: "i \<in> dom (cl_nodes u)" using at_rest_finite [OF ih(1)] st(1) by auto
    show ?thesis
      unfolding mail_left_def dom sum.remove [OF fin i] using st(2) by (simp add: st(6))
  qed
  ultimately show ?case
    using st(7-9) ih dom by (simp add: served_def)
qed

text \<open>Where such a run cannot go on, nothing is left in a mailbox.\<close>

lemma stuck_served:
  assumes rest: "at_rest H s" and stuck: "\<nexists>t. cl_step H s t" and i: "cl_nodes s i = Some r"
  shows "nw_mail (cl_net s) i = []"
proof (rule ccontr)
  assume "nw_mail (cl_net s) i \<noteq> []"
  then obtain m ms where "nw_mail (cl_net s) i = m # ms" by (cases "nw_mail (cl_net s) i") auto
  note take = take_item.mail [OF this]
  have live: "ru_life r = Started" using at_rest_actor [OF rest i] by (simp add: actor_at_rest_def)
  obtain b r' evs where "runner_step (H i) channel_net (load_runner (set_net ((cl_net s)\<lparr>nw_mail := (nw_mail (cl_net s))(i := ms)\<rparr>) s) r)
      [RMsg m] = (b, r', evs)" by (metis prod_cases3)
  from cl_step.receive [where H = H, OF i live take this] stuck show False by blast
qed

section \<open>Properties\<close>

text \<open>C6: in a running system every message is handled and every question answered. Take
  any system built by creations, completed stops and messages, whatever is in its
  mailboxes, and actors whose handlers compute an answer and a new state and do nothing
  else, whose \<open>pre_start\<close> and \<open>pre_stop\<close> succeed and no method of which creates, stops or
  signals. Every step handles one message, so every interleaving of the tasks
  ends; and where it ends the registry is what it was, every actor runs with an empty
  mailbox, its state is what its handler makes of its messages in the order of the
  mailbox, and it has sent one answer to each question, in that order, the one the
  handler gave on the state left by the messages before it.\<close>

theorem messages_answered:
  assumes "cl_built H conf s" and "\<forall>i. tame_hooks (H i)" and "\<forall>i. tame_start (H i)"
    and "\<forall>i m a c. hk_message (H i) m a c = (handle_answering (h i) m a, c)"
  shows "\<forall>n t. (cl_step H ^^ n) s t \<longrightarrow> n + mail_left t = mail_left s \<and>
    ((\<nexists>t'. cl_step H t t') \<longrightarrow> cl_registry t = cl_registry s \<and>
      (\<forall>i r0 a out. cl_nodes s i = Some r0 \<and> ru_actor r0 = (a, out) \<longrightarrow>
        (\<exists>r new. cl_nodes t i = Some r \<and> ru_life r = Started \<and> nw_mail (cl_net t) i = []
          \<and> ru_actor r = (mail_state (h i) a (nw_mail (cl_net s) i), out @ new)
          \<and> new = mail_answers (h i) a (nw_mail (cl_net s) i)
          \<and> map fst new = List.map_filter am_resp (nw_mail (cl_net s) i))))"
proof (intro allI impI conjI; (elim conjE)?)
  note rest = built_at_rest [OF assms(1-3)]
  fix n t assume "(cl_step H ^^ n) s t"
  note run = served_steps [OF rest _ assms(4) this] built_fixed [OF assms(1)]
  then show "n + mail_left t = mail_left s" by blast
  assume stuck: "\<nexists>t'. cl_step H t t'"
  show "cl_registry t = cl_registry s" using run by (simp add: served_def)
  fix i r0 a out assume i: "cl_nodes s i = Some r0" "ru_actor r0 = (a, out)"
  from run i(1) obtain r ms where r: "cl_nodes t i = Some r" "nw_mail (cl_net s) i = ms @ nw_mail (cl_net t) i"
    "ru_actor r = foldl (\<lambda>a m. handle_answering (h i) m a) (ru_actor r0) ms" unfolding served_def by blast
  have "at_rest H t" using run by blast
  from stuck_served [OF this stuck r(1)] at_rest_actor [OF this r(1)] r i(2)
  show "\<exists>r new. cl_nodes t i = Some r \<and> ru_life r = Started \<and> nw_mail (cl_net t) i = []
      \<and> ru_actor r = (mail_state (h i) a (nw_mail (cl_net s) i), out @ new)
      \<and> new = mail_answers (h i) a (nw_mail (cl_net s) i)
      \<and> map fst new = List.map_filter am_resp (nw_mail (cl_net s) i)"
    by (simp add: handle_answering_all mail_answers_names actor_at_rest_def)
qed

text \<open>The counter of the tests (\<open>CounterActor\<close> of \<open>actor/src/system.rs\<close>).\<close>

definition counter_handle :: "nat \<Rightarrow> actor_path \<Rightarrow> string \<Rightarrow> (actor_error + nat) \<times> nat" where
  "counter_handle count sender msg = (let count = count + 1 in (Inr count, count))"

definition answering_hooks ::
  "('a \<Rightarrow> actor_path \<Rightarrow> 'q \<Rightarrow> (actor_error + 'r) \<times> 'a) \<Rightarrow> (('a, 'r) answering, 'q actor_message, 'c) hooks" where
  "answering_hooks h = \<lparr>hk_strategy = SStop, hk_pre_start = default_pre_start,
     hk_pre_restart = default_pre_restart default_pre_start, hk_pre_stop = default_pre_stop,
     hk_post_stop = default_post_stop, hk_message = (\<lambda>m a c. (handle_answering h m a, c)),
     hk_child_error = (\<lambda>p e a c. (a, c)), hk_child_fault = (\<lambda>p e a c. (a, c))\<rparr>"

lemma answering_tame: "tame_hooks (answering_hooks h)" "tame_start (answering_hooks h)"
  by (simp_all add: tame_hooks_def tame_start_def answering_hooks_def default_pre_start_def default_pre_stop_def
      default_post_stop_def)

lemma answering_start: "hk_pre_start (answering_hooks h) = default_pre_start"
  by (simp add: answering_hooks_def)

lemma spawned_default:
  assumes "hk_pre_start h = default_pre_start"
  shows "ru_actor (spawned h N actor child_signal [] sig conf path u) = actor"
  by (subst spawned_from) (simp_all add: assms default_pre_start_def)

lemma create_root_started:
  assumes "\<not> hm_contains (path_div (sm_root_path (cl_system s)) name) (cl_registry s)"
  shows "\<exists>t r. cl_create_root (\<lambda>_. answering_hooks h) i actor name s = (Inr i, t) \<and> cl_nodes t = (cl_nodes s)(i \<mapsto> r)
    \<and> ru_actor r = actor \<and> nw_mail (cl_net t) i = []"
  using assms
  by (auto intro!: exI [of _ "spawned _ _ _ _ _ _ _ _ _"] simp: spawned_default [OF answering_start] spawned_sel [OF answering_tame(2)] cl_create_root_def Let_def system_create_actor_def adopt_runner_def
      create_actor_started [OF answering_tame(2), where N = channel_net])

theorem messages_answered_witness:
  "\<exists>(s :: ((nat, nat) answering, nat, string actor_message) cluster) n t r.
    cl_built (\<lambda>_. answering_hooks counter_handle) config_default s
    \<and> (cl_step (\<lambda>_. answering_hooks counter_handle) ^^ n) s t \<and> (\<nexists>t'. cl_step (\<lambda>_. answering_hooks counter_handle) t t')
    \<and> cl_nodes t 1 = Some r \<and> ru_actor r = (2, [(7, Inr 2)])"
proof -
  let ?H = "(\<lambda>_. answering_hooks counter_handle) :: ((nat, nat) answering, nat, string actor_message) actor_hooks"
  let ?m = "\<lparr>am_sender = ActorPath [''user''], am_msg = ''increment'', am_resp = None\<rparr>"
  have tame: "\<forall>i. tame_hooks (?H i)" "\<forall>i. tame_start (?H i)" by (simp_all add: answering_tame)
  have n: "wf_segment ''a''" by (simp add: wf_segment_def is_blank_def ws1_def ws2_def ws3_def)
  let ?s0 = "cl_new config_default :: ((nat, nat) answering, nat, string actor_message) cluster"
  have no: "cl_registry ?s0 = []" "cl_nodes ?s0 = Map.empty" by (simp_all add: cl_new_def system_new_def sup_new_def)
  obtain t0 r0 where t0: "cl_create_root ?H 1 (0, []) ''a'' ?s0 = (Inr 1, t0)" "cl_nodes t0 = [1 \<mapsto> r0]"
      "ru_actor r0 = (0, [])" "nw_mail (cl_net t0) 1 = []"
    using create_root_started [of ?s0 "''a''" counter_handle 1 "(0, [])"] by (auto simp: no hm_contains_def)
  have built: "cl_built ?H config_default t0"
    by (rule cl_built.create_root [OF cl_built.new _ _ n t0(1)]) (simp_all add: no)
  let ?s = "cl_tell 1 (?m\<lparr>am_resp := Some 7\<rparr>) (cl_tell 1 ?m t0)"
  have b: "cl_built ?H config_default ?s" by (intro cl_built.tell built)
  have s: "cl_nodes ?s 1 = Some r0" "nw_mail (cl_net ?s) 1 = [?m, ?m\<lparr>am_resp := Some 7\<rparr>]"
    using t0 by (simp_all add: cl_tell_def)
  have H: "\<forall>i m a c. hk_message (?H i) m a c = (handle_answering counter_handle m a, c)" by (simp add: answering_hooks_def)
  note served = messages_answered [OF b tame H]
  obtain n t where n: "(cl_step ?H ^^ n) ?s t" "\<nexists>t'. cl_step ?H t t'"
    using bounded_run [of "cl_step ?H" ?s "mail_left ?s"] served by (metis le_add1)
  obtain r where "cl_nodes t 1 = Some r" "ru_actor r = (2, [(7, Inr 2)])"
    using served n s t0(3) by (fastforce simp: counter_handle_def)
  with b n show ?thesis by blast
qed

end
