(* ===== verification/ActorTests.thy ===== *)
theory ActorTests
  imports StorageTests Events Serving
begin

text \<open>
  The tests of the actor crate (\<open>handler.rs\<close>, \<open>actor.rs\<close>, \<open>runner.rs\<close>, \<open>system.rs\<close>),
  run on the model. A test that spawns a loop around \<open>ActorMessage::handle\<close> has the actor
  in a mailbox cell; one that builds an \<open>ActorRunner\<close> gives \<open>runner_init\<close> the schedule it
  produces; one that builds a \<open>System\<close> creates its actors through
  \<open>system_create_actor\<close> over real runners. What a test asserts about log lines is left
  out. An actor whose methods assert something keeps in its state whether all of it
  held, and the test looks at it.
\<close>

section \<open>The tests of \<open>handler.rs\<close>\<close>

definition echo_handle :: "unit \<Rightarrow> actor_path \<Rightarrow> string \<Rightarrow> (actor_error + string) \<times> unit" where
  "echo_handle s sender msg = (Inr (''Received: '' @ msg), ())"

definition test_tell_and_ask :: bool where
  "test_tell_and_ask \<longleftrightarrow>
     (let handler = handler_new (cell_channels echo_handle)
      in told (handler_tell handler (path_from ''sender_actor'') ''Hello'' (open_cell ())) (\<lambda>c.
         asked (handler_ask handler (path_from ''sender_actor'') ''World'' c) (\<lambda>response c.
           response = ''Received: World'')))"

definition test_handler_clone :: bool where
  "test_handler_clone \<longleftrightarrow>
     (let handler = handler_new (cell_channels echo_handle); cloned = handler_clone handler
      in told (handler_tell handler (path_from ''sender'') ''Test1'' (open_cell ())) (\<lambda>c.
         told (handler_tell cloned (path_from ''sender'') ''Test2'' c) (\<lambda>c. True)))"

definition test_handler_errors :: bool where
  "test_handler_errors \<longleftrightarrow>
     (let handler = handler_new (cell_channels echo_handle); gone = (open_cell ())\<lparr>ce_open := False\<rparr>;
          (result, c) = handler_tell handler (path_from ''sender'') ''Test'' gone
      in isl result \<and> isl (fst (handler_ask handler (path_from ''sender'') ''Test'' c)))"

definition text_contains :: "string \<Rightarrow> string \<Rightarrow> bool" where
  "text_contains text part \<longleftrightarrow> sublist part text"

definition test_actor_message_debug :: bool where
  "test_actor_message_debug \<longleftrightarrow>
     (let debug_str = actor_message_debug (actor_message_new (path_from ''sender'') ''Test message'' None)
      in list_all (text_contains debug_str) [''ActorMessage'', ''sender'', ''<message>'', ''None''])"

text \<open>Asking from several tasks: \<open>handler_ask\<close> in two rounds, up to the wait for the
  answer and from there on. A schedule names the task that makes the next round.\<close>

record ('r, 'w) askers =
  as_pending :: "nat \<Rightarrow> nat option"
  as_results :: "nat \<Rightarrow> (actor_error + 'r) option"
  as_world :: 'w

definition ask_round ::
  "('m, 'r, 'w) channel_ops \<Rightarrow> actor_path \<Rightarrow> (nat \<Rightarrow> 'm) \<Rightarrow> nat \<Rightarrow> ('r, 'w) askers \<Rightarrow> ('r, 'w) askers" where
  "ask_round C sender message i x =
     (if as_results x i \<noteq> None then x
      else case as_pending x i of
        None \<Rightarrow>
          (case ch_oneshot C (as_world x) of (response, w) \<Rightarrow>
            (case ch_send C (actor_message_new sender (message i) (Some response)) w of
              (Inl e, w) \<Rightarrow> x\<lparr>as_results := (as_results x)(i \<mapsto> actor_message (\<lambda>e. e) ''Failed to ask message'' (Inl e)), as_world := w\<rparr>
            | (Inr _, w) \<Rightarrow> x\<lparr>as_pending := (as_pending x)(i \<mapsto> response), as_world := w\<rparr>))
      | Some response \<Rightarrow>
          (case ch_await C response (as_world x) of (r, w) \<Rightarrow>
            x\<lparr>as_results := (as_results x)(i \<mapsto>
                (case actor_message (\<lambda>e. e) ''Response channel closed'' r of Inl e \<Rightarrow> Inl e | Inr result \<Rightarrow> result)),
              as_world := w\<rparr>))"

definition concurrent_asks ::
  "('m, 'r, 'w) channel_ops \<Rightarrow> actor_path \<Rightarrow> (nat \<Rightarrow> 'm) \<Rightarrow> nat list \<Rightarrow> 'w \<Rightarrow> nat \<Rightarrow> (actor_error + 'r) option" where
  "concurrent_asks C sender message schedule w =
     as_results (foldl (\<lambda>x i. ask_round C sender message i x)
       \<lparr>as_pending = Map.empty, as_results = Map.empty, as_world = w\<rparr> schedule)"

definition test_concurrent_messages :: "nat list \<Rightarrow> bool" where
  "test_concurrent_messages schedule \<longleftrightarrow>
     (let results = concurrent_asks (handler_clone (handler_new (cell_channels echo_handle))) (path_from ''sender'')
            (\<lambda>i. ''Message '' @ dec_digits i) schedule (open_cell ())
      in \<forall>i < 20. results i = Some (Inr (''Received: Message '' @ dec_digits i)))"

lemmas cell_defs = handler_new_def handler_clone_def handler_tell_def handler_ask_def cell_channels_def open_cell_def
  told_def asked_def cell_drain_def cell_handle_def message_handle_def actor_message_new_def

lemma handler_tests_pass:
  "test_tell_and_ask" "test_handler_clone" "test_handler_errors" "test_actor_message_debug"
proof -
  show test_tell_and_ask by (simp add: test_tell_and_ask_def cell_defs echo_handle_def Let_def)
  show test_handler_clone by (simp add: test_handler_clone_def cell_defs Let_def)
  show test_handler_errors by (simp add: test_handler_errors_def cell_defs Let_def with_context_def)
  show test_actor_message_debug by code_simp
qed

text \<open>Whatever the interleaving, a task that had both its rounds has the handler's answer to
  its own message.\<close>

lemma replies_drained:
  assumes "\<And>s m. fst (h s p m) = g m" and "\<forall>m \<in> set ms. am_sender m = p"
  shows "(\<exists>m \<in> set ms. am_resp m = Some k \<and> ce_replies (foldl (\<lambda>c m. cell_handle h m c) c ms) k = Some (g (am_msg m)))
    \<or> (\<forall>m \<in> set ms. am_resp m \<noteq> Some k) \<and> ce_replies (foldl (\<lambda>c m. cell_handle h m c) c ms) k = ce_replies c k"
  using assms(2)
proof (induction ms arbitrary: c)
  case (Cons m ms)
  have "ce_replies (cell_handle h m c) k = (if am_resp m = Some k then Some (g (am_msg m)) else ce_replies c k)"
    using assms(1) Cons.prems by (auto simp: cell_handle_def message_handle_def split_beta split: option.split)
  with Cons.IH [of "cell_handle h m c"] Cons.prems show ?case by auto
qed simp

lemma cell_next_drain: "ce_next (cell_drain h c) = ce_next c"
proof -
  have "ce_next (foldl (\<lambda>c m. cell_handle h m c) c ms) = ce_next c" for c ms by (induction ms arbitrary: c) simp_all
  then show ?thesis by (simp add: cell_drain_def)
qed

definition asks_ok ::
  "actor_path \<Rightarrow> (nat \<Rightarrow> 'm) \<Rightarrow> ('m \<Rightarrow> actor_error + 'r) \<Rightarrow> ('r, ('s, 'm, 'r) cell) askers \<Rightarrow> bool" where
  "asks_ok p message g x \<longleftrightarrow> ce_open (as_world x)
    \<and> (\<forall>m \<in> set (ce_queue (as_world x)). am_sender m = p \<and> (\<exists>i k. am_resp m = Some k \<and> as_pending x i = Some k \<and> am_msg m = message i))
    \<and> (\<forall>i k. as_pending x i = Some k \<longrightarrow> k < ce_next (as_world x)
        \<and> ((\<exists>m \<in> set (ce_queue (as_world x)). am_resp m = Some k) \<or> ce_replies (as_world x) k = Some (g (message i))))
    \<and> (\<forall>i j k. as_pending x i = Some k \<longrightarrow> as_pending x j = Some k \<longrightarrow> i = j)
    \<and> (\<forall>i r. as_results x i = Some r \<longrightarrow> r = g (message i))"

definition ask_stage :: "('r, 'w) askers \<Rightarrow> nat \<Rightarrow> nat" where
  "ask_stage x i = (if as_results x i \<noteq> None then 2 else if as_pending x i \<noteq> None then 1 else 0)"

text \<open>A first round sends the message, a second one has the mailbox answered.\<close>

lemma ask_sent_ok:
  assumes ok: "asks_ok p message g x" and None: "as_pending x i = None"
    and y: "y = x\<lparr>as_pending := (as_pending x)(i \<mapsto> ce_next (as_world x)), as_world := (as_world x)\<lparr>ce_next := Suc (ce_next (as_world x)),
        ce_queue := ce_queue (as_world x) @ [actor_message_new p (message i) (Some (ce_next (as_world x)))]\<rparr>\<rparr>"
  shows "asks_ok p message g y"
proof -
  let ?w = "as_world x"
  note ok' = ok [unfolded asks_ok_def]
  have grows: "as_pending x j = Some k \<Longrightarrow> as_pending y j = Some k" for j k using None by (auto simp: y)
  have "\<forall>m \<in> set (ce_queue ?w). am_sender m = p \<and> (\<exists>i k. am_resp m = Some k \<and> as_pending y i = Some k \<and> am_msg m = message i)"
    using ok' grows by meson
  then have queue: "\<forall>m \<in> set (ce_queue (as_world y)). am_sender m = p \<and> (\<exists>i k. am_resp m = Some k \<and> as_pending y i = Some k \<and> am_msg m = message i)"
    by (auto simp: y actor_message_new_def)
  have upd: "as_pending y j = Some k \<Longrightarrow> (if j = i then k = ce_next ?w else as_pending x j = Some k)" for j k
    by (simp add: y split: if_splits)
  have pending: "k < ce_next (as_world y)
      \<and> ((\<exists>m \<in> set (ce_queue (as_world y)). am_resp m = Some k) \<or> ce_replies (as_world y) k = Some (g (message j)))"
    if j: "as_pending y j = Some k" for j k
  proof (cases "j = i")
    case True
    with upd [OF j] show ?thesis by (simp add: y actor_message_new_def)
  next
    case False
    with upd [OF j] have "as_pending x j = Some k" by simp
    with ok' have "k < ce_next ?w" "(\<exists>m \<in> set (ce_queue ?w). am_resp m = Some k) \<or> ce_replies ?w k = Some (g (message j))" by blast+
    then show ?thesis by (auto simp: y)
  qed
  have "j = l" if "as_pending y j = Some k" "as_pending y l = Some k" for j l k
  proof -
    have old: "as_pending x j' = Some k' \<Longrightarrow> k' < ce_next ?w" for j' k' using ok' by blast
    have "as_pending x j = Some k \<Longrightarrow> as_pending x l = Some k \<Longrightarrow> j = l" using ok' by blast
    then show ?thesis using upd [OF that(1)] upd [OF that(2)] old [of j k] old [of l k] by (auto split: if_splits)
  qed
  then have inj: "\<forall>j l k. as_pending y j = Some k \<longrightarrow> as_pending y l = Some k \<longrightarrow> j = l" by blast
  have opened: "ce_open (as_world y)" and res: "\<forall>j r. as_results y j = Some r \<longrightarrow> r = g (message j)"
    using ok' by (simp_all add: y)
  show ?thesis
    unfolding asks_ok_def by (intro conjI opened queue inj res) (use pending in blast)
qed

lemma drained_answer:
  assumes h: "\<And>s m. fst (h s p m) = g m" and ok: "asks_ok p message g x" and l: "as_pending x l = Some j"
  shows "ce_replies (cell_drain h (as_world x)) j = Some (g (message l))"
proof -
  let ?w = "as_world x" and ?d = "cell_drain h (as_world x)"
  note ok' = ok [unfolded asks_ok_def]
  have sender: "\<forall>m \<in> set (ce_queue ?w). am_sender m = p" using ok' by blast
  have d: "?d = foldl (\<lambda>c m. cell_handle h m c) (?w\<lparr>ce_queue := []\<rparr>) (ce_queue ?w)" by (simp add: cell_drain_def)
  from replies_drained [of h p g, OF h sender, of j "?w\<lparr>ce_queue := []\<rparr>"] show ?thesis
    unfolding d [symmetric]
  proof (elim disjE bexE conjE)
    fix m assume m: "m \<in> set (ce_queue ?w)" "am_resp m = Some j" "ce_replies ?d j = Some (g (am_msg m))"
    with ok' obtain l' where "as_pending x l' = Some j" "am_msg m = message l'" by (metis option.inject)
    moreover from this ok' l have "l' = l" by blast
    ultimately show ?thesis using m(3) by simp
  next
    assume "\<forall>m \<in> set (ce_queue ?w). am_resp m \<noteq> Some j" "ce_replies ?d j = ce_replies (?w\<lparr>ce_queue := []\<rparr>) j"
    moreover have "(\<exists>m \<in> set (ce_queue ?w). am_resp m = Some j) \<or> ce_replies ?w j = Some (g (message l))"
      using ok' l by blast
    ultimately show ?thesis by auto
  qed
qed

lemma ask_answered_ok:
  assumes h: "\<And>s m. fst (h s p m) = g m" and ok: "asks_ok p message g x"
    and y: "y = x\<lparr>as_results := (as_results x)(i \<mapsto> g (message i)), as_world := cell_drain h (as_world x)\<rparr>"
  shows "asks_ok p message g y"
  unfolding asks_ok_def
proof (intro conjI)
  let ?d = "cell_drain h (as_world x)"
  have d: "ce_open ?d" "ce_queue ?d = []" "ce_next ?d = ce_next (as_world x)"
    using ok by (simp_all add: asks_ok_def cell_next_drain)
  then show "ce_open (as_world y)" by (simp add: y)
  show "\<forall>m \<in> set (ce_queue (as_world y)). am_sender m = p
      \<and> (\<exists>i k. am_resp m = Some k \<and> as_pending y i = Some k \<and> am_msg m = message i)"
    by (simp add: y d)
  show "\<forall>j k. as_pending y j = Some k \<longrightarrow> k < ce_next (as_world y)
      \<and> ((\<exists>m \<in> set (ce_queue (as_world y)). am_resp m = Some k) \<or> ce_replies (as_world y) k = Some (g (message j)))"
    using ok drained_answer [of h p g, OF h ok] by (simp add: asks_ok_def y d)
  show "\<forall>j l k. as_pending y j = Some k \<longrightarrow> as_pending y l = Some k \<longrightarrow> j = l"
    using ok unfolding asks_ok_def y by simp
  show "\<forall>j r. as_results y j = Some r \<longrightarrow> r = g (message j)"
    using ok by (simp add: asks_ok_def y)
qed

lemma ask_round_ok:
  assumes h: "\<And>s m. fst (h s p m) = g m" and ok: "asks_ok p message g x"
    and y_def: "y = ask_round (cell_channels h) p message i x"
  shows "asks_ok p message g y \<and> ask_stage y i = min 2 (Suc (ask_stage x i)) \<and> (\<forall>j. j \<noteq> i \<longrightarrow> ask_stage y j = ask_stage x j)"
proof (cases "as_results x i")
  case (Some r)
  then show ?thesis using ok by (simp add: y_def ask_round_def ask_stage_def)
next
  case none: None
  show ?thesis
  proof (cases "as_pending x i")
    case None
    have "y = x\<lparr>as_pending := (as_pending x)(i \<mapsto> ce_next (as_world x)), as_world := (as_world x)\<lparr>ce_next := Suc (ce_next (as_world x)),
        ce_queue := ce_queue (as_world x) @ [actor_message_new p (message i) (Some (ce_next (as_world x)))]\<rparr>\<rparr>"
      using ok none None by (simp add: y_def ask_round_def cell_channels_def asks_ok_def)
    from ask_sent_ok [OF ok None this] this show ?thesis using none None by (simp add: ask_stage_def)
  next
    case (Some k)
    have "y = x\<lparr>as_results := (as_results x)(i \<mapsto> g (message i)), as_world := cell_drain h (as_world x)\<rparr>"
      using none Some drained_answer [of h p g, OF h ok Some] by (simp add: y_def ask_round_def cell_channels_def Let_def)
    from ask_answered_ok [of h p g, OF h ok this] this show ?thesis using none Some by (simp add: ask_stage_def)
  qed
qed

lemma concurrent_answered:
  assumes "\<And>s m. fst (h s p m) = g m" and "2 \<le> count_list schedule i"
  shows "concurrent_asks (cell_channels h) p message schedule (open_cell s) i = Some (g (message i))"
proof -
  let ?x0 = "\<lparr>as_pending = Map.empty, as_results = Map.empty, as_world = open_cell s\<rparr>"
  have "asks_ok p message g (foldl (\<lambda>x i. ask_round (cell_channels h) p message i x) x schedule)
      \<and> ask_stage (foldl (\<lambda>x i. ask_round (cell_channels h) p message i x) x schedule) i = min 2 (ask_stage x i + count_list schedule i)"
    if "asks_ok p message g x" for x
    using that
  proof (induction schedule arbitrary: x)
    case (Cons j js)
    note r = ask_round_ok [of h p g message x "ask_round (cell_channels h) p message j x" j, OF assms(1) Cons.prems refl]
    with Cons.IH [of "ask_round (cell_channels h) p message j x"] show ?case by (cases "j = i") auto
  qed (simp add: ask_stage_def)
  from this [of ?x0] assms(2) show ?thesis
    by (auto simp: concurrent_asks_def asks_ok_def ask_stage_def open_cell_def split: if_splits)
qed

lemma concurrent_messages_pass:
  "(\<And>i. i < 20 \<Longrightarrow> 2 \<le> count_list schedule i) \<Longrightarrow> test_concurrent_messages schedule"
  using concurrent_answered [of echo_handle "path_from ''sender''" "\<lambda>m. Inr (''Received: '' @ m)" schedule]
  by (simp add: test_concurrent_messages_def handler_new_def handler_clone_def echo_handle_def)

section \<open>The tests of \<open>actor.rs\<close>\<close>

datatype ping_message = Ping
datatype ping_response = Pong
datatype lifecycle_event = EvStarted | EvStopped

definition ping_handle :: "unit \<Rightarrow> actor_path \<Rightarrow> ping_message \<Rightarrow> (actor_error + ping_response) \<times> unit" where
  "ping_handle s sender msg = (case msg of Ping \<Rightarrow> (Inr Pong, s))"

text \<open>References to an actor in a cell, with the receiver that the test gives them.\<close>

definition test_actor_ref_tell_ask :: bool where
  "test_actor_ref_tell_ask \<longleftrightarrow>
     (let actor_ref = actor_ref_new (path_from ''test_actor'') (handler_new (cell_channels ping_handle)) (0 :: nat)
      in told (ref_tell (actor_ref.truncate actor_ref) Ping (open_cell ())) (\<lambda>c.
         asked (ref_ask (actor_ref.truncate actor_ref) Ping c) (\<lambda>response c. response = Pong)))"

definition test_actor_ref_clone :: "(lifecycle_event, 'rx, 'w) broadcast_ops \<Rightarrow> 'rx \<Rightarrow> 'w \<Rightarrow> bool" where
  "test_actor_ref_clone B event_receiver w \<longleftrightarrow>
     (let actor_ref = actor_ref_new (path_from ''test_actor'') (handler_new (cell_channels ping_handle)) event_receiver;
          (cloned_ref, w) = ref_clone B actor_ref w
      in ref_path actor_ref = ref_path cloned_ref)"

definition test_actor_context_path :: bool where
  "test_actor_context_path \<longleftrightarrow>
     path_to_string (cx_path (ctx_new (path_from ''/parent/child'') (sup_default () () :: (unit, unit, unit, unit, unit) sup) None config_default)) = ''/parent/child''"

fun is_supervision_error :: "actor_error + 'x \<Rightarrow> bool" where
  "is_supervision_error (Inl (Supervision _)) = True"
| "is_supervision_error _ = False"

type_synonym ('snd, 'sig, 'w) test_sup = "(unit, unit, 'snd, 'sig, 'w) sup"

definition test_child_signal_emission :: "('ev, 'snd, 'sig, 'w) net_ops \<Rightarrow> 'sig \<Rightarrow> 'w \<Rightarrow> bool" where
  "test_child_signal_emission N unread w \<longleftrightarrow>
     (let context = ctx_new (path_from ''/parent/child'') (sup_default unread w :: ('snd, 'sig, 'w) test_sup) None config_default;
          error = Supervision ''signal failed'';
          (error_result, context) = emit_error N error context;
          (fault_result, context) = emit_fault N error context;
          (stopped_result, context) = emit_stopped N context
      in is_supervision_error error_result \<and> is_supervision_error fault_result \<and> is_supervision_error stopped_result)"

definition stateful_handle :: "nat \<Rightarrow> actor_path \<Rightarrow> ping_message \<Rightarrow> (actor_error + nat) \<times> nat" where
  "stateful_handle counter sender msg = (let counter = counter + 1 in (Inr counter, counter))"

text \<open>The loop of the test, and then the counter once all messages are handled.\<close>

fun tells :: "nat \<Rightarrow> ('m, 'r, 'c) actor_ref \<Rightarrow> 'm \<Rightarrow> 'c \<Rightarrow> ('c \<Rightarrow> bool) \<Rightarrow> bool" where
  "tells 0 a msg c f = f c"
| "tells (Suc n) a msg c f = told (ref_tell a msg c) (\<lambda>c. tells n a msg c f)"

definition test_actor_state_preservation :: bool where
  "test_actor_state_preservation \<longleftrightarrow>
     tells 5 (cell_ref (path_from ''stateful_actor'') stateful_handle) Ping (open_cell 0)
       (\<lambda>c. ce_state (cell_drain stateful_handle c) = 5)"

text \<open>The receiver from \<open>subscribe\<close> after the actor has emitted one event, over any broadcast
  channel: it reads an event, or there is none (nothing to read, or closed).\<close>

definition test_actor_event_subscription ::
  "(lifecycle_event, 'rx, 'w) broadcast_ops \<Rightarrow> ('ev, 'snd, 'sig, 'w) net_ops \<Rightarrow> 'rx \<Rightarrow> 'sig \<Rightarrow> 'w \<Rightarrow> bool" where
  "test_actor_event_subscription B N rx unread w \<longleftrightarrow>
     (let actor_ref = actor_ref_new (path_from ''event_actor'') (handler_new (cell_channels ping_handle)) rx;
          (event_receiver, w) = ref_subscribe B actor_ref w;
          ctx = ctx_new (path_from ''event_actor'') (sup_default unread w :: ('snd, 'sig, 'w) test_sup) None config_default;
          (_, ctx) = emit_event (event_sender B N) EvStarted ctx
      in (case fst (bc_recv B event_receiver (cx_world ctx)) of
           Some (Event_Ok event) \<Rightarrow> True
         | Some (Event_Lagged n) \<Rightarrow> False
         | Some Event_Closed \<Rightarrow> True
         | None \<Rightarrow> True))"

text \<open>\<open>retry_ask\<close>; the state of the first actor is its \<open>fail_count\<close>, of the second its
  attempts. The timer only delays.\<close>

definition retry_handle :: "nat \<Rightarrow> nat \<Rightarrow> actor_path \<Rightarrow> ping_message \<Rightarrow> (actor_error + ping_response) \<times> nat" where
  "retry_handle fail_threshold fail_count sender msg =
     (if fail_count < fail_threshold then (Inl (Message ''Simulated failure''), fail_count + 1) else (Inr Pong, fail_count))"

definition always_fail_handle :: "nat \<Rightarrow> actor_path \<Rightarrow> ping_message \<Rightarrow> (actor_error + ping_response) \<times> nat" where
  "always_fail_handle attempt_counter sender msg = (Inl (Message ''Always fail''), attempt_counter + 1)"

definition test_ask_retry :: "duration \<Rightarrow> bool" where
  "test_ask_retry millis100 \<longleftrightarrow>
     (let retry_strategy = FixedInterval (fixed_interval_new 3 millis100);
          actor_ref = cell_ref (path_from ''retry_actor'') (retry_handle 2)
      in \<not> isl (fst (retry_ask actor_ref (\<lambda>d c. c) Ping retry_strategy (open_cell 0))))"

definition usize_max :: nat where
  "usize_max = 2 ^ 64 - 1"

definition test_retry_ask_exhausts :: bool where
  "test_retry_ask_exhausts \<longleftrightarrow>
     (let retry_strategy = NoInterval (no_interval_new 2);
          actor_ref = cell_ref (path_from ''retry_limit_actor'') (retry_handle usize_max)
      in fst (retry_ask actor_ref (\<lambda>d c. c) Ping retry_strategy (open_cell 0)) = Inl RetryLimitExceeded)"

definition test_retry_ask_attempts :: bool where
  "test_retry_ask_attempts \<longleftrightarrow>
     (let retry_strategy = NoInterval (no_interval_new 2);
          actor_ref = cell_ref (path_from ''retry_exact_attempts_actor'') always_fail_handle;
          (result, retry_strategy, c) = retry_ask actor_ref (\<lambda>d c. c) Ping retry_strategy (open_cell 0)
      in result = Inl RetryLimitExceeded \<and> ce_state c = 2)"

definition test_retry_ask_zero :: bool where
  "test_retry_ask_zero \<longleftrightarrow>
     (let retry_strategy = NoInterval (no_interval_new 0);
          actor_ref = cell_ref (path_from ''retry_zero_actor'') always_fail_handle;
          (result, retry_strategy, c) = retry_ask actor_ref (\<lambda>d c. c) Ping retry_strategy (open_cell 0)
      in result = Inl RetryLimitExceeded \<and> ce_state c = 0)"

lemma reference_tests_pass:
  "test_actor_ref_tell_ask" "test_actor_ref_clone B rx b" "test_actor_context_path" "test_child_signal_emission N unread w"
  "test_actor_state_preservation"
proof -
  show test_actor_ref_tell_ask
    by (simp add: test_actor_ref_tell_ask_def actor_ref_new_def actor_ref.truncate_def ref_tell_def ref_ask_def cell_defs
        ping_handle_def Let_def)
  show "test_actor_ref_clone B rx b"
    by (simp add: test_actor_ref_clone_def ref_clone_def ref_path_def actor_ref_new_def Let_def split_beta)
  show test_actor_context_path by code_simp
  show "test_child_signal_emission N unread w"
    by (simp add: test_child_signal_emission_def emit_error_def emit_fault_def emit_stopped_def ctx_new_def Let_def)
  show test_actor_state_preservation
    by (simp add: test_actor_state_preservation_def numeral_eq_Suc cell_ref_def ref_tell_def cell_defs stateful_handle_def Let_def)
qed

lemma subscription_test_passes:
  fixes N :: "('ev, 'snd, 'sig, 'w) net_ops"
  assumes bus: "event_bus B sound alive view room" and "sound w"
  shows "test_actor_event_subscription B N rx unread w"
proof -
  obtain j w' where sub: "bc_resubscribe B rx w = (j, w')" "sound w'" "view j w' = Some (0, [])"
    using event_bus.resubscribe [OF bus \<open>sound w\<close>, of rx] by force
  let ?ctx = "ctx_new (path_from ''event_actor'') (sup_default unread w' :: ('snd, 'sig, 'w) test_sup) None config_default"
  obtain c' where emit: "emit_event (event_sender B N) EvStarted ?ctx = (Inr (), c')" "sound (cx_world c')"
      "view j (cx_world c') = Some (push_event room EvStarted (0, []))"
    using event_bus.emit_pushes [OF bus, of ?ctx j "(0, [])" N EvStarted] sub
    by (auto simp: ctx_new_def sup_default_def sup_new_def)
  have "push_event room EvStarted (0, []) = (0, [EvStarted])"
    using event_bus.room [OF bus] by (simp add: push_event_def)
  then have "fst (bc_recv B j (cx_world c')) = Some (Event_Ok EvStarted)"
    using event_bus.recv [OF bus emit(2,3)] by auto
  then show ?thesis
    using sub(1) emit(1)
    by (simp add: test_actor_event_subscription_def ref_subscribe_def actor_ref_new_def)
qed

lemmas retry_defs = retry_ask_def Let_def ref_ask_def cell_ref_def cell_defs no_interval_new_def fixed_interval_new_def
  no_interval_backoff_def fixed_interval_backoff_def upt_rec

lemma retry_tests_pass:
  "test_ask_retry d" "test_retry_ask_exhausts" "test_retry_ask_attempts" "test_retry_ask_zero"
proof -
  show "test_ask_retry d" by (simp add: test_ask_retry_def retry_defs retry_handle_def)
  have "0 < usize_max" "1 < usize_max" by (simp_all add: usize_max_def)
  then show test_retry_ask_exhausts by (simp add: test_retry_ask_exhausts_def retry_defs retry_handle_def)
  show test_retry_ask_attempts by (simp add: test_retry_ask_attempts_def retry_defs always_fail_handle_def)
  show test_retry_ask_zero by (simp add: test_retry_ask_zero_def retry_defs)
qed

section \<open>The tests of \<open>runner.rs\<close>\<close>

text \<open>The actor's state is whether each message was the one its handler asserts.\<close>

definition hello_handle :: "bool \<Rightarrow> actor_path \<Rightarrow> string \<Rightarrow> (actor_error + string) \<times> bool" where
  "hello_handle asserted sender msg = (Inr ''ok'', asserted \<and> msg = ''Hello, Actor!'')"

type_synonym ('snd, 'sig, 'w) test_ctx = "(unit, unit, 'snd, 'sig, 'w) ctx"

text \<open>A runner under a path of its own, without a parent, and where its schedule takes it.\<close>

definition run_alone ::
  "('a, 'm, ('snd, 'sig, 'w) test_ctx) hooks \<Rightarrow> ('ev, 'snd, 'sig, 'w) net_ops \<Rightarrow> 'sig \<Rightarrow> 'w \<Rightarrow> 'a \<Rightarrow> string
    \<Rightarrow> ('m, ('snd, 'sig, 'w) test_ctx) runner_event list \<Rightarrow> ('a, ('snd, 'sig, 'w) test_ctx) runner" where
  "run_alone H N child_signal w actor path schedule =
     fst (runner_init H N (runner_new actor (path_from path) None [] [] child_signal w config_default) schedule)"

definition test_actor_runner_lifecycle :: "('ev, 'snd, 'sig, 'w) net_ops \<Rightarrow> 'sig \<Rightarrow> 'w \<Rightarrow> bool" where
  "test_actor_runner_lifecycle N sig w \<longleftrightarrow>
     (let r = run_alone (answering_hooks hello_handle) N sig w (True, []) ''test_actor''
            [RMsg (actor_message_new (path_from ''test_actor'') ''Hello, Actor!'' None)]
      in init_answer (ru_trace r) = Some (Inr ()) \<and> fst (ru_actor r))"

definition test_actor_retry_strategy :: "duration \<Rightarrow> bool" where
  "test_actor_retry_strategy millis10 \<longleftrightarrow>
     (let strategy = SRetry (FixedInterval (fixed_interval_new 3 millis10))
      in (case strategy of
           SRetry s \<Rightarrow> max_retries s = 3 \<and> fst (next_backoff s) = Some millis10
         | _ \<Rightarrow> False))"

definition test_actor_message_handling :: "('ev, 'snd, 'sig, 'w) net_ops \<Rightarrow> 'sig \<Rightarrow> 'w \<Rightarrow> bool" where
  "test_actor_message_handling N sig w \<longleftrightarrow>
     (let r = run_alone (answering_hooks hello_handle) N sig w (True, []) ''msg_handler''
            [RMsg (actor_message_new (path_from ''msg_handler'') ''Hello, Actor!'' (Some 0))]
      in init_answer (ru_trace r) = Some (Inr ()) \<and> ru_actor r = (True, [(0, Inr ''ok'')]))"

definition test_actor_stop_action :: "('ev, 'snd, 'sig, 'w) net_ops \<Rightarrow> 'sig \<Rightarrow> 'w \<Rightarrow> bool" where
  "test_actor_stop_action N sig w \<longleftrightarrow>
     (let r = run_alone (answering_hooks hello_handle) N sig w (True, []) ''stop_actor'' [RAction CStop]
      in init_answer (ru_trace r) = Some (Inr ()) \<and> ru_life r = Terminated)"

text \<open>\<open>TestRestartActor\<close>: \<open>failed\<close> and \<open>counter\<close>.\<close>

definition restart_pre_start :: "bool \<times> nat \<Rightarrow> 'c \<Rightarrow> (actor_error + unit) \<times> (bool \<times> nat) \<times> 'c" where
  "restart_pre_start a c =
     (case a of (failed, counter) \<Rightarrow>
       if \<not> failed \<and> counter = 2 then (Inr (), (failed, counter), c)
       else (Inl (CreateActor ''Restart actor.''), (failed, counter + 1), c))"

definition restart_hooks :: "duration \<Rightarrow> (bool \<times> nat, string, 'c) hooks" where
  "restart_hooks millis100 = \<lparr>hk_strategy = SRetry (FixedInterval (fixed_interval_new 3 millis100)),
     hk_pre_start = restart_pre_start, hk_pre_restart = default_pre_restart restart_pre_start,
     hk_pre_stop = default_pre_stop, hk_post_stop = default_post_stop, hk_message = (\<lambda>m a c. (a, c)),
     hk_child_error = (\<lambda>p e a c. (a, c)), hk_child_fault = (\<lambda>p e a c. (a, c))\<rparr>"

definition test_actor_restart_action :: "duration \<Rightarrow> ('ev, 'snd, 'sig, 'w) net_ops \<Rightarrow> 'sig \<Rightarrow> 'w \<Rightarrow> bool" where
  "test_actor_restart_action millis100 N sig w \<longleftrightarrow>
     (let r = run_alone (restart_hooks millis100) N sig w (True, 0) ''restart_actor'' []
      in (case init_answer (ru_trace r) of Some init_result \<Rightarrow> isl init_result | None \<Rightarrow> False))
   \<and> (let r = run_alone (restart_hooks millis100) N sig w (False, 0) ''restart_actor'' []
      in (case init_answer (ru_trace r) of Some init_result \<Rightarrow> \<not> isl init_result | None \<Rightarrow> False))"

text \<open>Running the main loop to its end, round by round.\<close>

lemma runner_rounds:
  "runner_step H N r evs = x \<Longrightarrow>
    runner_init H N r evs = (if fst x then runner_init H N (fst (snd x)) (snd (snd x)) else snd x)"
  by (cases x) (auto simp: runner_init_step runner_init_end)

lemmas runs = runner_rounds runner_step_def runner_new_def observe_def send_init_def default_pre_start_def
  default_pre_restart_def default_pre_stop_def default_post_stop_def Let_def

lemma runner_tests_pass:
  "test_actor_runner_lifecycle N sig w" "test_actor_retry_strategy d" "test_actor_message_handling N sig w"
  "test_actor_stop_action N sig w"
proof -
  note answering = answering_hooks_def handle_answering_def message_handle_def actor_message_new_def hello_handle_def
  show "test_actor_runner_lifecycle N sig w"
    by (simp add: test_actor_runner_lifecycle_def run_alone_def runs answering)
  show "test_actor_retry_strategy d"
    by (simp add: test_actor_retry_strategy_def fixed_interval_new_def fixed_interval_backoff_def)
  show "test_actor_message_handling N sig w"
    by (simp add: test_actor_message_handling_def run_alone_def runs answering)
  show "test_actor_stop_action N sig w"
    by (simp add: test_actor_stop_action_def run_alone_def runs answering on_stop_def ctx_new_def sup_new_def
        ctx_stop_children_def sup_stop_children_def sup_get_childs_def hm_keys_def emit_stopped_def)
qed

lemma restart_actor_pass:
  fixes N :: "('ev, 'snd, 'sig, 'w) net_ops"
  shows "test_actor_restart_action d N sig w"
proof -
  let ?H = "restart_hooks d"
  let ?fresh = "\<lambda>f. runner_new (f, 0) (path_from ''restart_actor'') None [] [] sig w config_default
    :: (bool \<times> nat, ('snd, 'sig, 'w) test_ctx) runner"
  let ?at = "\<lambda>f (a :: nat) l n t. (?fresh f)\<lparr>ru_actor := (f, a), ru_life := l, ru_retries := n, ru_trace := t\<rparr>"
  let ?waits = "[TSleep d, TRestart]"
  have 1: "runner_step ?H N (?fresh f) [] = (True, ?at f 1 Restarted 0 [TPreStart], [])" for f
    by (simp add: runner_step_def runner_new_def restart_hooks_def restart_pre_start_def observe_def)
  have again: "runner_step ?H N (?at f a Restarted n t) [] = (True, ?at f (a + 1) Restarted (n + 1) (t @ ?waits), [])"
    if "f \<or> a \<noteq> 2" "n < 3" for f a n t
    using that by (auto simp: runner_step_def runner_new_def restart_hooks_def restart_pre_start_def default_pre_restart_def
        apply_supervision_strategy_def fixed_interval_new_def fixed_interval_backoff_def observe_def Let_def)
  have up: "runner_step ?H N (?at False 2 Restarted 1 t) [] = (True, ?at False 2 Started 0 (t @ ?waits), [])" for t
    by (simp add: runner_step_def runner_new_def restart_hooks_def restart_pre_start_def default_pre_restart_def
        apply_supervision_strategy_def fixed_interval_new_def fixed_interval_backoff_def observe_def Let_def)
  have serve: "runner_step ?H N (?at False 2 Started 0 t) []
      = (False, send_init (Inr ()) (?at False 2 Started 0 t), [])" for t
    by (simp add: runner_step_def runner_new_def)
  have give_up: "\<exists>e. runner_step ?H N (?at True 4 Restarted 3 t) [] = (True, send_init (Inl e) (?at True 4 Failed 3 t), [])" for t
    by (rule exI [of _ "start_failure (?at True 4 Failed 3 t)"])
      (simp add: runner_step_def runner_new_def restart_hooks_def apply_supervision_strategy_def fixed_interval_new_def Let_def)
  have step: "runner_init ?H N (?at f a Restarted n t) [] = runner_init ?H N (?at f (a + 1) Restarted (n + 1) (t @ ?waits)) []"
    if "f \<or> a \<noteq> 2" "n < 3" for f a n t
    by (rule runner_init_step [OF again [OF that]])
  have "runner_init ?H N (?fresh False) [] = runner_init ?H N (?at False 1 Restarted 0 [TPreStart]) []"
    by (rule runner_init_step [OF 1])
  also have "\<dots> = runner_init ?H N (?at False (1 + 1) Restarted (0 + 1) ([TPreStart] @ ?waits)) []"
    by (rule step) simp_all
  also have "\<dots> = runner_init ?H N (?at False 2 Started 0 (([TPreStart] @ ?waits) @ ?waits)) []"
    using runner_init_step [OF up [of "[TPreStart] @ ?waits"]] by (simp add: numeral_2_eq_2)
  also have "\<dots> = (send_init (Inr ()) (?at False 2 Started 0 (([TPreStart] @ ?waits) @ ?waits)), [])"
    by (rule runner_init_end [OF serve])
  finally have ok: "init_answer (ru_trace (run_alone ?H N sig w (False, 0) ''restart_actor'' [])) = Some (Inr ())"
    by (simp add: run_alone_def runner_new_def)
  let ?t = "(([TPreStart] @ ?waits) @ ?waits) @ ?waits"
  obtain e where e: "runner_step ?H N (?at True 4 Restarted 3 ?t) [] = (True, send_init (Inl e) (?at True 4 Failed 3 ?t), [])"
    using give_up by blast
  have "runner_init ?H N (?fresh True) [] = runner_init ?H N (?at True 1 Restarted 0 [TPreStart]) []"
    by (rule runner_init_step [OF 1])
  also have "\<dots> = runner_init ?H N (?at True (1 + 1) Restarted (0 + 1) ([TPreStart] @ ?waits)) []"
    by (rule step) simp_all
  also have "\<dots> = runner_init ?H N (?at True (1 + 1 + 1) Restarted (0 + 1 + 1) (([TPreStart] @ ?waits) @ ?waits)) []"
    by (rule step) simp_all
  also have "\<dots> = runner_init ?H N (?at True (1 + 1 + 1 + 1) Restarted (0 + 1 + 1 + 1) ?t) []"
    by (rule step) simp_all
  also have "\<dots> = runner_init ?H N (send_init (Inl e) (?at True 4 Failed 3 ?t)) []"
    using runner_init_step [OF e] by (simp add: numeral_eq_Suc)
  finally have "init_answer (ru_trace (run_alone ?H N sig w (True, 0) ''restart_actor'' [])) = Some (Inl e)"
    using runner_init_fails [of "send_init (Inl e) (?at True 4 Failed 3 ?t)" ?H N "[]"]
    by (auto simp: run_alone_def runner_new_def)
  with ok show ?thesis by (simp add: test_actor_restart_action_def)
qed

section \<open>The tests of \<open>system.rs\<close>: its actors\<close>

text \<open>A reference is known by the path of its actor, a channel by a number. What goes over
  the channels of signals and actions is kept as a list; all receivers are there.\<close>

datatype wire = WSignal nat actor_signal | WAction nat child_action

definition wires :: "(string, nat, nat, wire list) net_ops" where
  "wires = \<lparr>nt_action = (\<lambda>k act w. (Inr (), w @ [WAction k act])), nt_signal = (\<lambda>k sg w. (Inr (), w @ [WSignal k sg])),
     nt_event = (\<lambda>e w. (Inr (), w))\<rparr>"

type_synonym 'w system_ctx = "(actor_path, unit, nat, nat, 'w) ctx"
type_synonym 'w test_system = "(actor_path, unit, nat, nat, 'w) system"

text \<open>Starting an actor with channels number \<open>k\<close>.\<close>

definition starting ::
  "('a, 'm, 'w system_ctx) hooks \<Rightarrow> ('ev, nat, nat, 'w) net_ops \<Rightarrow> 'a \<Rightarrow> nat \<Rightarrow> (actor_path, unit, nat, nat, 'w) starter" where
  "starting H N actor k sig conf path s = spawn H N actor path k k [] sig conf path s"

text \<open>A handler that sees its context, behind \<open>ActorMessage::handle\<close>.\<close>

definition handle_message ::
  "('a \<Rightarrow> 'c \<Rightarrow> actor_path \<Rightarrow> 'q \<Rightarrow> (actor_error + 'r) \<times> 'a \<times> 'c) \<Rightarrow> 'q actor_message
    \<Rightarrow> ('a, 'r) answering \<Rightarrow> 'c \<Rightarrow> ('a, 'r) answering \<times> 'c" where
  "handle_message h m s c =
     message_handle (\<lambda>((a, out), c) sender msg. case h a c sender msg of (r, a, c) \<Rightarrow> (r, ((a, out), c)))
       (\<lambda>k r ((a, out), c). ((a, out @ [(k, r)]), c)) m (s, c)"

text \<open>\<open>TestChild\<close>, and \<open>TestActor\<close> with its child on channels \<open>Suc k\<close>. The actor's own
  state is whether what \<open>pre_start\<close> asserts held; its \<open>on_event\<close> is the default, which does
  nothing.\<close>

definition child_handle ::
  "('ev, nat, nat, 'w) net_ops \<Rightarrow> bool \<Rightarrow> 'w system_ctx \<Rightarrow> actor_path \<Rightarrow> string \<Rightarrow> (actor_error + string) \<times> bool \<times> 'w system_ctx" where
  "child_handle N a c sender msg =
     (let c = (if msg = ''fail'' then snd (emit_fault N (Supervision ''Test fault'') c)
               else if msg = ''error'' then snd (emit_error N (Supervision ''Test error'') c) else c)
      in (Inr (''Child received: '' @ msg), a, c))"

definition default_hooks ::
  "('ev, 'snd, 'sig, 'w) net_ops \<Rightarrow> ('m \<Rightarrow> 'a \<Rightarrow> ('ref, 'h, 'snd, 'sig, 'w) ctx \<Rightarrow> 'a \<times> ('ref, 'h, 'snd, 'sig, 'w) ctx)
    \<Rightarrow> ('a, 'm, ('ref, 'h, 'snd, 'sig, 'w) ctx) hooks" where
  "default_hooks N message = \<lparr>hk_strategy = SStop, hk_pre_start = default_pre_start,
     hk_pre_restart = default_pre_restart default_pre_start, hk_pre_stop = default_pre_stop,
     hk_post_stop = default_post_stop, hk_message = message,
     hk_child_error = default_on_child_error N, hk_child_fault = default_on_child_fault N\<rparr>"

definition child_hooks ::
  "('ev, nat, nat, 'w) net_ops \<Rightarrow> ((bool, string) answering, string actor_message, 'w system_ctx) hooks" where
  "child_hooks N = default_hooks N (handle_message (child_handle N))"

definition actor_handle ::
  "(string, nat, nat, 'w) net_ops \<Rightarrow> bool \<Rightarrow> 'w system_ctx \<Rightarrow> actor_path \<Rightarrow> string \<Rightarrow> (actor_error + string) \<times> bool \<times> 'w system_ctx" where
  "actor_handle N a c sender msg = (Inr (''Received: '' @ msg), a, snd (emit_event N msg c))"

definition actor_pre_start ::
  "('ev, nat, nat, 'w) net_ops \<Rightarrow> nat \<Rightarrow> (bool, string) answering \<Rightarrow> 'w system_ctx
    \<Rightarrow> (actor_error + unit) \<times> (bool, string) answering \<times> 'w system_ctx" where
  "actor_pre_start N k s c =
     (case ctx_create_child (starting (child_hooks N) N (True, []) (Suc k)) ''child'' c of
       (result, c) \<Rightarrow> (Inr (), (fst s \<and> \<not> isl result, snd s), c))"

definition actor_hooks ::
  "(string, nat, nat, 'w) net_ops \<Rightarrow> nat \<Rightarrow> ((bool, string) answering, string actor_message, 'w system_ctx) hooks" where
  "actor_hooks N k = (default_hooks N (handle_message (actor_handle N)))\<lparr>hk_pre_start := actor_pre_start N k,
     hk_pre_restart := default_pre_restart (actor_pre_start N k)\<rparr>"

text \<open>\<open>TestErrorActor\<close>, and \<open>TestPanicActor\<close>, whose runner is dropped unanswered.\<close>

definition error_pre_start :: "'a \<Rightarrow> 'c \<Rightarrow> (actor_error + unit) \<times> 'a \<times> 'c" where
  "error_pre_start a c = (Inl (Supervision ''Pre-start error''), a, c)"

definition error_hooks ::
  "('ev, nat, nat, 'w) net_ops \<Rightarrow> ((unit, string) answering, string actor_message, 'w system_ctx) hooks" where
  "error_hooks N = (default_hooks N (handle_message (\<lambda>a c sender msg. (Inl (Supervision ''Test error''), a, c))))
     \<lparr>hk_pre_start := error_pre_start, hk_pre_restart := default_pre_restart error_pre_start\<rparr>"

definition panicking :: "nat \<Rightarrow> (actor_path, unit, nat, nat, 'w) starter" where
  "panicking k sig conf path s = (\<lparr>st_init = None, st_ref = path, st_sender = k\<rparr>, s)"

section \<open>The tests of \<open>system.rs\<close>: creating, finding and stopping\<close>

definition new_system :: "'w \<Rightarrow> 'w test_system" where
  "new_system w = system_new config_default 0 w"

definition found :: "string \<Rightarrow> 'w test_system \<Rightarrow> string \<Rightarrow> bool" where
  "found name sm path \<longleftrightarrow>
     (case system_get_actor Some name sm of Inr (Some a) \<Rightarrow> path_to_string a = path | _ \<Rightarrow> False)"

text \<open>Creating an actor that has to succeed, with what follows.\<close>

definition created ::
  "(actor_path, unit, nat, nat, 'w) starter \<Rightarrow> string \<Rightarrow> 'w test_system \<Rightarrow> (actor_path \<Rightarrow> 'w test_system \<Rightarrow> bool) \<Rightarrow> bool" where
  "created start name sm f = (case system_create_actor start name sm of (Inl _, _) \<Rightarrow> False | (Inr a, sm) \<Rightarrow> f a sm)"

text \<open>\<open>token.cancel()\<close>, and then the system's runner until nothing is registered under it.\<close>

definition shuts_down :: "wire list test_system \<Rightarrow> bool" where
  "shuts_down sm \<longleftrightarrow> (case system_run wires [SysCancelled] False sm of (stop, sm, evs) \<Rightarrow> \<not> system_has_childs sm)"

abbreviation test_actor_start :: "nat \<Rightarrow> (actor_path, unit, nat, nat, wire list) starter" where
  "test_actor_start k \<equiv> starting (actor_hooks wires k) wires (True, []) k"

definition test_system :: bool where
  "test_system \<longleftrightarrow>
     created (test_actor_start 1) ''test_actor'' (new_system []) (\<lambda>actor_ref system.
       path_to_string actor_ref = ''/user/test_actor''
       \<and> system_actor_exists ''test_actor'' system = Inr True
       \<and> isl (fst (system_create_actor (test_actor_start 3) ''test_actor'' system))
       \<and> found ''test_actor'' system ''/user/test_actor''
       \<and> shuts_down system)"

definition test_system_multiple_actors :: bool where
  "test_system_multiple_actors \<longleftrightarrow>
     created (test_actor_start 1) ''actor1'' (new_system []) (\<lambda>actor1 system.
     created (test_actor_start 3) ''actor2'' system (\<lambda>actor2 system.
     created (test_actor_start 5) ''actor3'' system (\<lambda>actor3 system.
       path_to_string actor1 = ''/user/actor1''
       \<and> path_to_string actor2 = ''/user/actor2''
       \<and> path_to_string actor3 = ''/user/actor3''
       \<and> found ''actor1'' system ''/user/actor1'' \<and> found ''actor2'' system ''/user/actor2''
       \<and> found ''actor3'' system ''/user/actor3'' \<and> shuts_down system)))"

definition test_error_actor_fails_to_start :: bool where
  "test_error_actor_fails_to_start \<longleftrightarrow>
     (case system_create_actor (starting (error_hooks wires) wires ((), []) 1) ''error_actor'' (new_system []) of (result, system) \<Rightarrow>
       isl result \<and> isl (system_get_actor Some ''error_actor'' system)
       \<and> su_registry (sm_sup system) = [] \<and> shuts_down system)"

definition test_registers_only_after_startup :: bool where
  "test_registers_only_after_startup \<longleftrightarrow>
     created (test_actor_start 1) ''registered_actor'' (new_system []) (\<lambda>actor_ref system.
       system_actor_exists ''registered_actor'' system = Inr True
       \<and> hm_contains (path_from ''/user/registered_actor'') (su_registry (sm_sup system))
       \<and> shuts_down system)"

definition test_startup_channel_closed :: bool where
  "test_startup_channel_closed \<longleftrightarrow>
     (case system_create_actor (panicking 1) ''panic_actor'' (new_system []) of (result, system) \<Rightarrow>
       (case result of Inl (StartActor _) \<Rightarrow> True | _ \<Rightarrow> False)
       \<and> system_actor_exists ''panic_actor'' system = Inr False
       \<and> su_registry (sm_sup system) = [] \<and> shuts_down system)"

definition test_stop_child_cleans_state :: bool where
  "test_stop_child_cleans_state \<longleftrightarrow>
     (let path = path_from ''/user/failing_child'';
          supervisor = (sup_default () () :: (unit, unit, unit, unit, unit) sup)
            \<lparr>su_registry := [(path, ())], su_senders := [(path, ())]\<rparr>;
          (result, supervisor) = sup_stop_child (\<lambda>action_sender act w. (Inl ''channel closed'', w)) path supervisor
      in isl result \<and> \<not> hm_contains path (su_registry supervisor) \<and> \<not> hm_contains path (su_senders supervisor))"

definition test_shutdown_cleans_all_children :: bool where
  "test_shutdown_cleans_all_children \<longleftrightarrow>
     created (test_actor_start 1) ''shutdown_1'' (new_system []) (\<lambda>_ system.
     created (test_actor_start 3) ''shutdown_2'' system (\<lambda>_ system.
     created (test_actor_start 5) ''shutdown_3'' system (\<lambda>_ system.
       system_has_childs system \<and> shuts_down system)))"

text \<open>What the creations leave behind.\<close>

lemma starting_ok:
  assumes "hk_pre_start H actor (ctx_new path (sup_new (su_registry s) (su_helpers s) k (su_world s)) (Some (su_signal s)) conf)
      = (Inr (), a, c)" and "\<not> hm_contains path (su_registry s)"
  shows "sup_create_actor (starting H N actor k) conf path s
    = (Inr path, s\<lparr>su_registry := hm_insert path path (su_registry (cx_sup c)), su_helpers := su_helpers (cx_sup c),
        su_world := cx_world c, su_senders := hm_insert path k (su_senders s)\<rparr>)"
  using assms(2)
  by (simp add: sup_create_actor_def starting_def spawn_def spawned_from [OF assms(1)] Let_def)

lemma starting_child:
  assumes "\<not> hm_contains path (su_registry s)"
  shows "sup_create_actor (starting (child_hooks N) N (True, []) k) conf path s
    = (Inr path, s\<lparr>su_registry := hm_insert path path (su_registry s), su_senders := hm_insert path k (su_senders s)\<rparr>)"
proof -
  have "hk_pre_start (child_hooks N) a c = (Inr (), a, c)" for a c
    by (simp add: child_hooks_def default_hooks_def default_pre_start_def)
  from starting_ok [OF this assms, of N] show ?thesis by (cases s) (simp add: ctx_new_def sup_new_def)
qed

lemma starting_actor:
  assumes "\<not> hm_contains path (su_registry s)" and "\<not> hm_contains (path_div path ''child'') (su_registry s)"
    and "path_level path < MAX_ACTOR_DEPTH"
  shows "sup_create_actor (starting (actor_hooks N k) N (True, []) k) conf path s
    = (Inr path, s\<lparr>su_registry := hm_insert path path
          (hm_insert (path_div path ''child'') (path_div path ''child'') (su_registry s)),
        su_senders := hm_insert path k (su_senders s)\<rparr>)"
proof -
  let ?c = "ctx_new path (sup_new (su_registry s) (su_helpers s) k (su_world s)) (Some (su_signal s)) conf"
  let ?p = "path_div path ''child''"
  have "hk_pre_start (actor_hooks N k) (True, []) ?c = (Inr (), (True, []), ?c\<lparr>cx_sup := (cx_sup ?c)\<lparr>
      su_registry := hm_insert ?p ?p (su_registry s), su_senders := hm_insert ?p (Suc k) []\<rparr>\<rparr>)"
    using assms(2,3)
    by (simp add: actor_hooks_def default_hooks_def actor_pre_start_def ctx_create_child_def ctx_new_def sup_new_def
        starting_child Let_def)
  from starting_ok [OF this assms(1), of N] show ?thesis by (cases s) (simp add: ctx_new_def sup_new_def)
qed

lemma created_actor:
  assumes "wf_segment name" and "sm_root_path sm = ActorPath [''user'']"
    and "\<not> hm_contains (ActorPath [''user'', name]) (su_registry (sm_sup sm))"
    and "\<not> hm_contains (ActorPath [''user'', name, ''child'']) (su_registry (sm_sup sm))"
  shows "created (test_actor_start k) name sm f \<longleftrightarrow> f (ActorPath [''user'', name])
    (sm\<lparr>sm_sup := (sm_sup sm)\<lparr>
        su_registry := hm_insert (ActorPath [''user'', name]) (ActorPath [''user'', name])
          (hm_insert (ActorPath [''user'', name, ''child'']) (ActorPath [''user'', name, ''child'']) (su_registry (sm_sup sm))),
        su_senders := hm_insert (ActorPath [''user'', name]) k (su_senders (sm_sup sm))\<rparr>\<rparr>)"
proof -
  have c: "wf_segment ''child''" by (simp add: wf_segment_def is_blank_def ws1_def ws2_def ws3_def)
  have "path_div (ActorPath [''user'']) name = ActorPath [''user'', name]"
    "path_div (ActorPath [''user'', name]) ''child'' = ActorPath [''user'', name, ''child'']"
    using assms(1) c by (simp_all add: path_div_segments path_tokens_segment segments_inject [symmetric])
  with assms(2-4) show ?thesis
    by (simp add: created_def system_create_actor_def Let_def starting_actor path_level_def MAX_ACTOR_DEPTH_def)
qed

lemma new_system_sel [simp]:
  "sm_root_path (new_system w) = ActorPath [''user'']" "su_registry (sm_sup (new_system w)) = []"
  "su_senders (sm_sup (new_system w)) = []" "su_world (sm_sup (new_system w)) = w"
  "sm_config (new_system w) = config_default"
proof -
  have "path_from ''/user'' = ActorPath [''user'']" by code_simp
  then show "sm_root_path (new_system w) = ActorPath [''user'']" by (simp add: new_system_def system_new_def)
qed (simp_all add: new_system_def system_new_def sup_new_def)

lemma user_div: "wf_segment name \<Longrightarrow> path_div (ActorPath [''user'']) name = ActorPath [''user'', name]"
  by (simp add: path_div_segments path_tokens_segment segments_inject [symmetric])

lemma test_names:
  "wf_segment ''test_actor''" "wf_segment ''actor1''" "wf_segment ''actor2''" "wf_segment ''actor3''"
  "wf_segment ''registered_actor''" "wf_segment ''shutdown_1''" "wf_segment ''shutdown_2''" "wf_segment ''shutdown_3''"
  "wf_segment ''error_actor''" "wf_segment ''panic_actor''" "wf_segment ''parent''" "wf_segment ''child''"
  by (simp_all add: wf_segment_def is_blank_def ws1_def ws2_def ws3_def)

lemmas maps = hm_insert_def hm_remove_def hm_contains_def hm_keys_def

text \<open>Cancelling asks every child; all of them can be reached.\<close>

lemma cancelled_clears:
  assumes "sup_books (sm_root_path sm) (sm_sup sm)"
  shows "shuts_down sm"
proof -
  have "fst (nt_action wires a CStop w) = Inr ()" for a w by (simp add: wires_def)
  from stop_children_all [OF assms, of "nt_action wires", OF this]
  show ?thesis
    by (auto simp: shuts_down_def system_stop_children_def system_has_childs_def split: prod.splits sum.splits)
qed

lemma two_segments: "path_to_string (ActorPath [a, b]) = ''/'' @ a @ ''/'' @ b"
  by (simp add: path_to_string_join)

lemmas created_sel = created_actor maps test_names
lemmas lookups = found_def system_get_actor_def sup_get_actor_def system_actor_exists_def sup_child_exists_def user_div
  two_segments maps test_names

lemma creation_tests_pass:
  "test_system" "test_system_multiple_actors" "test_registers_only_after_startup" "test_shutdown_cleans_all_children"
proof -
  note books = cancelled_clears sup_books_def sup_get_childs_def path_parent_def
  show test_system
    by (simp add: test_system_def created_sel lookups books system_create_actor_def sup_create_actor_def Let_def)
  show test_system_multiple_actors
    by (simp add: test_system_multiple_actors_def created_sel lookups books)
  show test_registers_only_after_startup
  proof -
    have "path_from ''/user/registered_actor'' = ActorPath [''user'', ''registered_actor'']" by code_simp
    then show ?thesis by (simp add: test_registers_only_after_startup_def created_sel lookups books)
  qed
  show test_shutdown_cleans_all_children
    by (simp add: test_shutdown_cleans_all_children_def created_sel lookups books system_has_childs_def sup_has_childs_def)
qed

lemma failing_start:
  fixes s :: "(actor_path, unit, nat, nat, wire list) sup"
  assumes "su_registry s = []" and "su_senders s = []"
  shows "\<exists>t s'. sup_create_actor (starting (error_hooks wires) wires ((), []) k) conf path s = (Inl (CreateActor t), s')
    \<and> su_registry s' = [] \<and> su_senders s' = []"
proof -
  have "hk_strategy (error_hooks wires) = SStop" "hk_pre_start (error_hooks wires) a c = (Inl (Supervision ''Pre-start error''), a, c)"
    "hk_post_stop (error_hooks wires) a c = (Inr (), a, c)" for a c
    by (simp_all add: error_hooks_def error_pre_start_def default_hooks_def default_post_stop_def)
  from spawned_failing [OF this, where N = wires and actor = "((), [])" and child_signal = k and evs = "[]"
      and sig = "su_signal s" and conf = conf and path = path and s = s, OF surjective_pairing]
  show ?thesis
    using assms by (auto simp: sup_create_actor_def starting_def spawn_def unregister_def maps Let_def)
qed

lemma startup_tests_pass:
  "test_error_actor_fails_to_start" "test_startup_channel_closed" "test_stop_child_cleans_state"
proof -
  show test_error_actor_fails_to_start
  proof -
    obtain t s' where s': "sup_create_actor (starting (error_hooks wires) wires ((), []) 1) config_default
          (ActorPath [''user'', ''error_actor'']) (sm_sup (new_system [])) = (Inl (CreateActor t), s')"
        "su_registry s' = []" "su_senders s' = []"
      using failing_start [of "sm_sup (new_system [])"] by fastforce
    have "system_create_actor (starting (error_hooks wires) wires ((), []) 1) ''error_actor'' (new_system [])
        = (Inl (CreateActor t), (new_system [])\<lparr>sm_sup := s'\<rparr>)"
      by (simp only: system_create_actor_def Let_def new_system_sel user_div test_names s'(1) prod.case)
    then show ?thesis
      by (simp add: test_error_actor_fails_to_start_def lookups s'(2,3) cancelled_clears sup_books_def sup_get_childs_def)
  qed
  show test_startup_channel_closed
    by (simp add: test_startup_channel_closed_def panicking_def system_create_actor_def sup_create_actor_def lookups
        unregister_def cancelled_clears sup_books_def sup_get_childs_def Let_def)
  show test_stop_child_cleans_state
    by (simp add: test_stop_child_cleans_state_def sup_default_def sup_new_def sup_stop_child_def maps Let_def)
qed

section \<open>Properties\<close>

text \<open>C40: the model passes the tests of the actor crate that assert what the operations
  return and leave: those of \<open>handler.rs\<close> but \<open>test_actor_message_sender_error\<close>, whose only
  assertion is a log line, those of \<open>actor.rs\<close> and \<open>runner.rs\<close>, and the tests of \<open>system.rs\<close> in
  which a system creates, finds and shuts down actors (\<open>test_system\<close>,
  \<open>test_system_multiple_actors\<close>, \<open>test_error_actor_fails_to_start\<close>,
  \<open>test_actor_registers_only_after_successful_startup\<close>,
  \<open>test_startup_channel_closed_is_reported_as_start_actor_error\<close>,
  \<open>test_stop_child_cleans_state_on_send_failure\<close>,
  \<open>test_shutdown_cleans_all_children_after_cancellation\<close>), without the log lines that
  \<open>test_system\<close> and \<open>test_actor_restart_action\<close> also look for. The other eight tests of
  \<open>system.rs\<close> are not among them. Where tasks ask at the same time every interleaving is
  allowed in which each of them gets to send its question and to take its answer; the
  broadcast channel of the event test is any that keeps the laws of \<open>event_bus\<close>.\<close>

theorem model_passes_actor_tests:
  assumes "\<forall>i < 20. 2 \<le> count_list messages i" and "event_bus B sound alive view room" and "sound b"
  shows "(test_tell_and_ask \<and> test_concurrent_messages messages \<and> test_handler_clone \<and> test_handler_errors
      \<and> test_actor_message_debug)
    \<and> (test_actor_ref_tell_ask \<and> test_actor_ref_clone B rx b \<and> test_actor_context_path \<and> test_child_signal_emission N unread w
      \<and> test_actor_state_preservation \<and> test_actor_event_subscription B M rx unread b)
    \<and> (test_ask_retry d \<and> test_retry_ask_exhausts \<and> test_retry_ask_attempts \<and> test_retry_ask_zero)
    \<and> (test_actor_runner_lifecycle N sig w \<and> test_actor_retry_strategy d \<and> test_actor_message_handling N sig w
      \<and> test_actor_stop_action N sig w \<and> test_actor_restart_action d N sig w)
    \<and> (test_system \<and> test_system_multiple_actors \<and> test_error_actor_fails_to_start \<and> test_registers_only_after_startup
      \<and> test_startup_channel_closed \<and> test_stop_child_cleans_state \<and> test_shutdown_cleans_all_children)"
  using assms(1) concurrent_messages_pass subscription_test_passes [OF assms(2,3)]
  by (simp add: handler_tests_pass reference_tests_pass retry_tests_pass runner_tests_pass restart_actor_pass
      creation_tests_pass startup_tests_pass)

definition silent_net :: "(unit, nat, nat, lifecycle_event bus) net_ops" where
  "silent_net = \<lparr>nt_action = (\<lambda>k act w. (Inr (), w)), nt_signal = (\<lambda>k sg w. (Inr (), w)), nt_event = (\<lambda>e w. (Inr (), w))\<rparr>"

theorem model_passes_actor_tests_witness:
  "test_concurrent_messages ([0..<20] @ rev [0..<20]) \<and> test_system
   \<and> test_actor_event_subscription bus_ops silent_net 0 0 (bus_new 10)"
proof -
  have once: "i < n \<Longrightarrow> 1 \<le> count_list xs i" if "set xs = {..<n}" for xs :: "nat list" and i n
    using that count_list_0_iff [of xs i] by (cases "count_list xs i") auto
  have counts: "\<forall>i < 20. 2 \<le> count_list ([0..<20] @ rev [0..<20]) i"
    using once [of "[0..<20]" 20] once [of "rev [0..<20]" 20] by (fastforce simp: lessThan_atLeast0)+
  have bus: "event_bus bus_ops (bus_ok (Suc 9)) bs_open bus_view (Suc 9)" by (rule bus.event_bus_axioms)
  have fresh: "bus_ok (Suc 9) (bus_new 10)" by (simp add: bus_ok_def bus_new_def)
  note passed = model_passes_actor_tests [OF counts bus fresh, where rx = 0 and M = silent_net and N = silent_net and unread = 0
      and w = "bus_new 10" and sig = 0 and d = 100]
  then show ?thesis by (intro conjI) (simp_all only: passed)
qed

end
