(* ===== verification/Shutdown.thy ===== *)
theory Shutdown
  imports Histories
begin

text \<open>
  The end of a whole system and the end of one of its trees: once the system is
  cancelled, or a top-level actor is stopped, every interleaving of the tasks is finite
  and ends with exactly the actors concerned terminated, each after \<open>pre_stop\<close>,
  \<open>emit_stopped\<close> and \<open>post_stop\<close>, once.
\<close>

section \<open>Properties\<close>

text \<open>C1: cancelling a system brings down its whole tree, if no stop is under way. Take any
  system built by creations under proper names, stops of top-level actors and messages,
  in which every stop was over - the actors concerned had terminated and the system had
  handled their report - before the next operation (a creation meanwhile can leave an actor
  that never terminates: \<open>reused_name_lost\<close>). The actors' own methods are tame: \<open>pre_start\<close>
  and \<open>pre_stop\<close> succeed, and no method creates, stops or signals (which leaves out the
  \<open>PersistentActor\<close>s, whose \<open>pre_start\<close> creates children). Once the system's runner has handled the cancellation, every interleaving of the tasks is of bounded
  length, and where it cannot go on the system's runner has ended and every actor has
  terminated, after \<open>pre_stop\<close>, its report to the parent and \<open>post_stop\<close>, each once
  and in this order, and is no longer registered. This holds although parents may end
  before their children and the system before its actors.\<close>

theorem shutdown_completes:
  assumes "cl_built H conf s" and "\<forall>i. tame_hooks (H i)" and "\<forall>i. tame_start (H i)"
    and "s0 = s\<lparr>cl_cancelled := True\<rparr>"
    and "s1 = save_system (system_round channel_net SysCancelled (cl_shutdown s0) (cl_system s0)) s0"
  shows "\<exists>N. \<forall>n t. (cl_step H ^^ n) s1 t \<longrightarrow> n \<le> N \<and>
    ((\<nexists>t'. cl_step H t t') \<longrightarrow> \<not> cl_up t \<and>
      (\<forall>i r0. cl_nodes s i = Some r0 \<longrightarrow> (\<exists>r. cl_nodes t i = Some r \<and> ru_life r = Terminated
        \<and> ru_trace r = ru_trace r0 @ [TPreStop, TEmitStopped, TPostStop]
        \<and> \<not> hm_contains (path_of r0) (cl_registry t))))"
proof -
  have rest: "at_rest H s0" using at_rest_cancelled [OF built_at_rest [OF assms(1-3)]] assms(4) by simp
  have "closing (dom (cl_nodes s0)) True s0 (first_phase (dom (cl_nodes s0)) s0) s1"
    by (rule closing_start [OF rest]) (simp_all add: assms(4,5))
  from closing_outcome [OF rest this] assms(4) show ?thesis
    by (simp add: stopped_since_def domIff conj_assoc cong: imp_cong conj_cong)
qed

theorem shutdown_completes_witness:
  "\<exists>(s :: (nat, nat, nat) cluster) n t r. cl_built (\<lambda>_. plain_hooks SStop) config_default s
    \<and> hm_contains (ActorPath [''user'', ''a'', ''b'']) (cl_registry s)
    \<and> (cl_step (\<lambda>_. plain_hooks SStop) ^^ n)
        (save_system (system_round channel_net SysCancelled (cl_shutdown s) (cl_system s)) (s\<lparr>cl_cancelled := True\<rparr>)) t
    \<and> (\<nexists>t'. cl_step (\<lambda>_. plain_hooks SStop) t t') \<and> \<not> cl_up t
    \<and> cl_nodes t 2 = Some r \<and> ru_life r = Terminated
    \<and> \<not> hm_contains (ActorPath [''user'', ''a'', ''b'']) (cl_registry t)"
proof -
  let ?H = "(\<lambda>_. plain_hooks SStop) :: (nat, nat, nat) actor_hooks"
  obtain s :: "(nat, nat, nat) cluster" and r0 where s: "cl_built ?H config_default s"
      "cl_nodes s 2 = Some r0" "path_of r0 = ActorPath [''user'', ''a'', ''b'']"
    using built_pair by blast
  let ?s0 = "s\<lparr>cl_cancelled := True\<rparr>"
  let ?s1 = "save_system (system_round channel_net SysCancelled (cl_shutdown ?s0) (cl_system ?s0)) ?s0"
  have tame: "\<forall>i. tame_hooks (?H i)" "\<forall>i. tame_start (?H i)" by (simp_all add: plain_tame)
  obtain N where N: "\<And>n t. (cl_step ?H ^^ n) ?s1 t \<Longrightarrow> n \<le> N \<and>
    ((\<nexists>t'. cl_step ?H t t') \<longrightarrow> \<not> cl_up t \<and>
      (\<forall>i r0. cl_nodes s i = Some r0 \<longrightarrow> (\<exists>r. cl_nodes t i = Some r \<and> ru_life r = Terminated
        \<and> ru_trace r = ru_trace r0 @ [TPreStop, TEmitStopped, TPostStop]
        \<and> \<not> hm_contains (path_of r0) (cl_registry t))))"
    using shutdown_completes [OF s(1) tame refl refl] by blast
  obtain n t where n: "(cl_step ?H ^^ n) ?s1 t" "\<nexists>t'. cl_step ?H t t'"
    using bounded_run [of "cl_step ?H" ?s1 N] N by blast
  with N [OF n(1)] s(2,3) obtain r where "\<not> cl_up t" "cl_nodes t 2 = Some r" "ru_life r = Terminated"
      "\<not> hm_contains (ActorPath [''user'', ''a'', ''b'']) (cl_registry t)"
    by fastforce
  moreover have "hm_contains (ActorPath [''user'', ''a'', ''b'']) (cl_registry s)"
    using at_rest_registered [OF built_at_rest [OF s(1) tame] s(2)] s(3) by simp
  moreover have "?s1 = save_system (system_round channel_net SysCancelled (cl_shutdown s) (cl_system s)) ?s0" by simp
  ultimately show ?thesis using s(1) n by metis
qed

text \<open>C5: stopping a top-level actor (\<open>System::stop_actor\<close>) stops its tree and nothing
  else. Take any system built by creations under proper names, stops of top-level actors and
  messages, in which every earlier stop was over before the next operation (as for
  \<open>shutdown_completes\<close>), and whose actors' methods are tame: \<open>pre_start\<close> and \<open>pre_stop\<close>
  succeed, and no method creates, stops or signals (a \<open>pre_stop\<close> that fails sends a fault,
  and the system stops every actor). If the name is registered the request is accepted; every
  interleaving of the tasks after it is of bounded length; and where it cannot go on the
  system's runner is still in its loop, every actor at or below the path has terminated
  after \<open>pre_stop\<close>, its report and \<open>post_stop\<close>, once each and in this order, and is no
  longer registered, while every other actor is running, registered and has seen none
  of its lifecycle methods called.\<close>

theorem stop_actor_subtree:
  assumes "cl_built H conf s" and "\<forall>i. tame_hooks (H i)" and "\<forall>i. tame_start (H i)"
    and "wf_segment name" and "p = path_div (sm_root_path (cl_system s)) name" and "hm_contains p (cl_registry s)"
  shows "\<exists>s1 N. cl_stop_actor name s = (Inr (), s1) \<and> (\<forall>n t. (cl_step H ^^ n) s1 t \<longrightarrow> n \<le> N \<and>
    ((\<nexists>t'. cl_step H t t') \<longrightarrow> cl_up t \<and>
      (\<forall>i r0. cl_nodes s i = Some r0 \<longrightarrow> (\<exists>r. cl_nodes t i = Some r \<and>
        (if prefix (segments p) (segments (path_of r0))
         then ru_life r = Terminated \<and> ru_trace r = ru_trace r0 @ [TPreStop, TEmitStopped, TPostStop]
           \<and> \<not> hm_contains (path_of r0) (cl_registry t)
         else ru_life r = Started \<and> ru_trace r = ru_trace r0 \<and> hm_contains (path_of r0) (cl_registry t))))))"
proof -
  have rest: "at_rest H s" by (rule built_at_rest [OF assms(1-3)])
  have can: "\<not> cl_cancelled s" using built_fixed [OF assms(1)] by blast
  obtain s1 where s1: "cl_stop_actor name s = (Inr (), s1)"
      "closing (subtree p s) False s (first_phase (subtree p s) s) s1"
    using closing_stop_actor [OF rest can assms(4), folded assms(5), OF assms(6)] by blast
  obtain N where N: "\<And>n t. (cl_step H ^^ n) s1 t \<Longrightarrow> n \<le> N \<and> ((\<nexists>t'. cl_step H t t') \<longrightarrow> (cl_up t \<longleftrightarrow> \<not> False) \<and>
      (\<forall>i r0. cl_nodes s i = Some r0 \<longrightarrow> (\<exists>r. cl_nodes t i = Some r
        \<and> (if i \<in> subtree p s then stopped_since r0 r else ru_life r = Started \<and> ru_trace r = ru_trace r0)
        \<and> hm_contains (path_of r0) (cl_registry t) = (i \<notin> subtree p s))))"
    using closing_outcome [OF rest s1(2)] by blast
  show ?thesis
  proof (intro exI [of _ s1] exI [of _ N] conjI s1(1) allI impI)
    fix n t assume run: "(cl_step H ^^ n) s1 t"
    show "n \<le> N" using N [OF run] by blast
    assume stuck: "\<nexists>t'. cl_step H t t'"
    show "cl_up t" using N [OF run] stuck by blast
    fix i r0 assume i: "cl_nodes s i = Some r0"
    obtain r where "cl_nodes t i = Some r"
      "if i \<in> subtree p s then stopped_since r0 r else ru_life r = Started \<and> ru_trace r = ru_trace r0"
      "hm_contains (path_of r0) (cl_registry t) = (i \<notin> subtree p s)"
      using N [OF run] stuck i by blast
    then show "\<exists>r. cl_nodes t i = Some r \<and>
        (if prefix (segments p) (segments (path_of r0))
         then ru_life r = Terminated \<and> ru_trace r = ru_trace r0 @ [TPreStop, TEmitStopped, TPostStop]
           \<and> \<not> hm_contains (path_of r0) (cl_registry t)
         else ru_life r = Started \<and> ru_trace r = ru_trace r0 \<and> hm_contains (path_of r0) (cl_registry t))"
      by (auto simp: subtree_node [OF i] stopped_since_def split: if_splits)
  qed
qed

theorem stop_actor_subtree_witness:
  "\<exists>(s :: (nat, nat, nat) cluster) s1 n t r q. cl_built (\<lambda>_. plain_hooks SStop) config_default s
    \<and> cl_stop_actor ''a'' s = (Inr (), s1) \<and> (cl_step (\<lambda>_. plain_hooks SStop) ^^ n) s1 t
    \<and> (\<nexists>t'. cl_step (\<lambda>_. plain_hooks SStop) t t') \<and> cl_up t
    \<and> cl_nodes t 2 = Some r \<and> ru_life r = Terminated
    \<and> \<not> hm_contains (ActorPath [''user'', ''a'', ''b'']) (cl_registry t)
    \<and> cl_nodes t 3 = Some q \<and> ru_life q = Started \<and> hm_contains (ActorPath [''user'', ''c'']) (cl_registry t)"
proof -
  let ?H = "(\<lambda>_. plain_hooks SStop) :: (nat, nat, nat) actor_hooks"
  obtain s :: "(nat, nat, nat) cluster" and r0 q0 where s: "cl_built ?H config_default s"
      "cl_nodes s 2 = Some r0" "path_of r0 = ActorPath [''user'', ''a'', ''b'']"
      "cl_nodes s 3 = Some q0" "path_of q0 = ActorPath [''user'', ''c'']"
    using built_pair by blast
  have tame: "\<forall>i. tame_hooks (?H i)" "\<forall>i. tame_start (?H i)" by (simp_all add: plain_tame)
  have rest: "at_rest ?H s" by (rule built_at_rest [OF s(1) tame])
  have root: "sm_root_path (cl_system s) = ActorPath [''user'']" using built_fixed [OF s(1)] by blast
  have div: "path_div (ActorPath [''user'']) ''a'' = ActorPath [''user'', ''a'']" by code_simp
  have up: "path_parent (ActorPath [''user'', ''a'', ''b'']) = ActorPath [''user'', ''a'']"
    by (simp add: path_parent_def)
  have "hm_contains (ActorPath [''user'', ''a'']) (cl_registry s)"
  proof (cases rule: at_rest_parent [OF rest s(2)])
    case 1
    then show ?thesis by (simp add: s(3) up root)
  next
    case (2 j q)
    then show ?thesis using at_rest_registered [OF rest 2(2)] by (simp add: s(3) up)
  qed
  moreover have "wf_segment ''a''" by (simp add: wf_segment_def is_blank_def ws1_def ws2_def ws3_def)
  ultimately obtain s1 N where s1: "cl_stop_actor ''a'' s = (Inr (), s1)"
    and N: "\<And>n t. (cl_step ?H ^^ n) s1 t \<Longrightarrow> n \<le> N \<and>
    ((\<nexists>t'. cl_step ?H t t') \<longrightarrow> cl_up t \<and>
      (\<forall>i r0. cl_nodes s i = Some r0 \<longrightarrow> (\<exists>r. cl_nodes t i = Some r \<and>
        (if prefix (segments (ActorPath [''user'', ''a''])) (segments (path_of r0))
         then ru_life r = Terminated \<and> ru_trace r = ru_trace r0 @ [TPreStop, TEmitStopped, TPostStop]
           \<and> \<not> hm_contains (path_of r0) (cl_registry t)
         else ru_life r = Started \<and> ru_trace r = ru_trace r0 \<and> hm_contains (path_of r0) (cl_registry t)))))"
    using stop_actor_subtree [OF s(1) tame, of "''a''" "ActorPath [''user'', ''a'']"] by (simp only: root div) blast
  obtain n t where n: "(cl_step ?H ^^ n) s1 t" "\<nexists>t'. cl_step ?H t t'"
    using bounded_run [of "cl_step ?H" s1 N] N by blast
  have up: "cl_up t" using N [OF n(1)] n(2) by blast
  obtain r where r: "cl_nodes t 2 = Some r" "ru_life r = Terminated"
      "\<not> hm_contains (ActorPath [''user'', ''a'', ''b'']) (cl_registry t)"
    using N [OF n(1)] n(2) s(2,3) by fastforce
  obtain q where q: "cl_nodes t 3 = Some q" "ru_life q = Started" "hm_contains (ActorPath [''user'', ''c'']) (cl_registry t)"
    using N [OF n(1)] n(2) s(4,5) by fastforce
  show ?thesis using s(1) s1 n up r q by blast
qed

end
