(* ===== verification/Reuse.thy ===== *)
theory Reuse
  imports Shutdown
begin

text \<open>
  A name used again too early. \<open>System::stop_actor\<close> gives up the path of an actor at
  once (\<open>SupervicionHandler::stop_child\<close>, \<open>actor/src/system.rs\<close>), while the report of
  its end, on which the system's runner gives up the path once more, is still to come.
  An actor created under the name in between loses its registration to that report.
\<close>

section \<open>The end of an actor without children\<close>

lemma leaf_stops:
  fixes s :: "('a, 'h, 'm) cluster"
  assumes "tame_hooks (H k)" and "cl_nodes s k = Some r" and "ru_life r = Started" and "\<not> ru_init r"
    and "nw_actions (cl_net s) k = CStop # acts" and "\<And>p. hm_contains p (cl_registry s) \<Longrightarrow> path_parent p \<noteq> path_of r"
  obtains t r' where "cl_step H s t" "cl_nodes t = (cl_nodes s)(k \<mapsto> r')" "ru_life r' = Stopped"
    "path_of r' = path_of r" "parent_of r' = parent_of r" "cl_up t = cl_up s" "cl_shutdown t = cl_shutdown s"
    "cl_cancelled t = cl_cancelled s" "sm_root_path (cl_system t) = sm_root_path (cl_system s)" "cl_registry t = cl_registry s"
    "su_senders (cl_sup t) = su_senders (cl_sup s)" "su_signal (cl_sup t) = su_signal (cl_sup s)"
    "cl_net t = (cl_net s)\<lparr>nw_actions := (nw_actions (cl_net s))(k := acts)\<rparr>"
proof -
  let ?w = "(cl_net s)\<lparr>nw_actions := (nw_actions (cl_net s))(k := acts)\<rparr>"
  let ?r = "load_runner (set_net ?w s) r"
  define r' where "r' a' = ?r\<lparr>ru_actor := a', ru_ctx := (ru_ctx ?r)\<lparr>cx_sup := cx_sup (ru_ctx ?r)\<rparr>, ru_life := Stopped,
      ru_trace := ru_trace ?r @ [TPreStop]\<rparr>" for a'
  have "sup_get_childs (path_of r) (cx_sup (ru_ctx ?r)) = []"
    using assms(6) by (auto simp: sup_get_childs_def filter_empty_conv hm_contains_keys)
  then have "sup_stop_children (nt_action channel_net) (path_of ?r) (cx_sup (ru_ctx ?r)) = (Inr False, cx_sup (ru_ctx ?r))"
    by (simp add: sup_stop_children_def)
  from step_stop [OF assms(1) _ _ this] assms(3,4) obtain a' where
    step: "runner_step (H k) channel_net ?r [RAction CStop] = (True, r' a', [])"
    by (auto simp: r'_def)
  from cl_step.receive [where H = H, OF assms(2,3) take_item.action [OF assms(5)] step]
  show ?thesis by (rule that [where r' = "r' a'"]) (simp_all add: r'_def)
qed

lemma leaf_reports:
  fixes s :: "('a, 'h, 'm) cluster"
  assumes "tame_hooks (H k)" and "cl_nodes s k = Some r" and "ru_life r = Stopped" and "parent_of r = Some 0"
    and "nw_open (cl_net s) 0"
  obtains t r' where "cl_step H s t" "cl_nodes t = (cl_nodes s)(k \<mapsto> r')" "ru_life r' = Terminated"
    "cl_up t = cl_up s" "cl_shutdown t = cl_shutdown s" "cl_cancelled t = cl_cancelled s"
    "sm_root_path (cl_system t) = sm_root_path (cl_system s)" "cl_registry t = cl_registry s"
    "su_senders (cl_sup t) = su_senders (cl_sup s)" "su_signal (cl_sup t) = su_signal (cl_sup s)"
    "cl_net t = close_channels k ((cl_net s)\<lparr>nw_signals := (nw_signals (cl_net s))(0 := nw_signals (cl_net s) 0 @ [SStopped (path_of r)])\<rparr>)"
proof -
  define r' where "r' a' = (load_runner s r)\<lparr>ru_actor := a',
      ru_ctx := cx_set_world (snd (send_signal 0 (SStopped (path_of r)) (cl_net s))) (ru_ctx (load_runner s r)),
      ru_life := Terminated, ru_trace := ru_trace r @ [TEmitStopped, TPostStop]\<rparr>" for a'
  from step_stopped [OF assms(1), of "load_runner s r" 0 channel_net "[]"] assms(3,4) obtain a' where
    step: "runner_step (H k) channel_net (load_runner s r) [] = (True, r' a', [])" by (auto simp: r'_def)
  have "ru_life r \<noteq> Started" using assms(3) by simp
  from cl_step.round [where H = H, OF assms(2) this step]
  show ?thesis by (rule that [where r' = "r' a'"]) (simp_all add: r'_def assms(5) send_signal_def cx_set_world_def)
qed

lemma report_handled:
  fixes s :: "('a, 'h, 'm) cluster"
  assumes "cl_up s" and "\<not> cl_shutdown s" and "nw_signals (cl_net s) 0 = SStopped p # sgs"
  obtains t where "cl_step H s t" "cl_nodes t = cl_nodes s" "cl_up t" "\<not> cl_shutdown t" "cl_cancelled t = cl_cancelled s"
    "sm_root_path (cl_system t) = sm_root_path (cl_system s)" "cl_registry t = hm_remove p (cl_registry s)"
    "su_senders (cl_sup t) = hm_remove p (su_senders (cl_sup s))" "su_signal (cl_sup t) = su_signal (cl_sup s)"
    "cl_net t = (cl_net s)\<lparr>nw_signals := (nw_signals (cl_net s))(0 := sgs)\<rparr>"
  using cl_step.signalled [OF assms(1,3) refl, of H]
  by (rule that) (use assms(2) in \<open>simp_all add: save_system_def system_remove_child_def sup_remove_child_def Let_def\<close>)

text \<open>The three steps together: the stop request, the report, and the report handled.\<close>

lemma leaf_gone:
  fixes s :: "('a, 'h, 'm) cluster"
  assumes tame: "tame_hooks (H k)" and r: "cl_nodes s k = Some r" "ru_life r = Started" "\<not> ru_init r" "parent_of r = Some 0"
    and net: "nw_actions (cl_net s) k = [CStop]" "nw_signals (cl_net s) 0 = []" "nw_open (cl_net s) 0" "k \<noteq> 0"
    and kids: "\<And>p. hm_contains p (cl_registry s) \<Longrightarrow> path_parent p \<noteq> path_of r"
    and up: "cl_up s" "\<not> cl_shutdown s"
  obtains t r' where "(cl_step H ^^ 3) s t" "cl_nodes t = (cl_nodes s)(k \<mapsto> r')" "ru_life r' = Terminated"
    "cl_up t" "\<not> cl_shutdown t" "cl_cancelled t = cl_cancelled s"
    "sm_root_path (cl_system t) = sm_root_path (cl_system s)" "cl_registry t = hm_remove (path_of r) (cl_registry s)"
    "su_senders (cl_sup t) = hm_remove (path_of r) (su_senders (cl_sup s))" "su_signal (cl_sup t) = su_signal (cl_sup s)"
    "nw_signals (cl_net t) = nw_signals (cl_net s)" "nw_actions (cl_net t) = (nw_actions (cl_net s))(k := [])"
    "nw_open (cl_net t) = (nw_open (cl_net s))(k := False)"
proof -
  obtain a ra where a: "cl_step H s a" "cl_nodes a = (cl_nodes s)(k \<mapsto> ra)" "ru_life ra = Stopped"
    "path_of ra = path_of r" "parent_of ra = parent_of r" "cl_up a = cl_up s" "cl_shutdown a = cl_shutdown s"
    "cl_cancelled a = cl_cancelled s" "sm_root_path (cl_system a) = sm_root_path (cl_system s)" "cl_registry a = cl_registry s"
    "su_senders (cl_sup a) = su_senders (cl_sup s)" "su_signal (cl_sup a) = su_signal (cl_sup s)"
    "cl_net a = (cl_net s)\<lparr>nw_actions := (nw_actions (cl_net s))(k := [])\<rparr>"
    using leaf_stops [where H = H, OF tame r(1-3) net(1) kids] by blast
  have "cl_nodes a k = Some ra" "parent_of ra = Some 0" "nw_open (cl_net a) 0" using a r(4) net(3) by simp_all
  then obtain b rb where b: "cl_step H a b" "cl_nodes b = (cl_nodes a)(k \<mapsto> rb)" "ru_life rb = Terminated"
    "cl_up b = cl_up a" "cl_shutdown b = cl_shutdown a" "cl_cancelled b = cl_cancelled a"
    "sm_root_path (cl_system b) = sm_root_path (cl_system a)" "cl_registry b = cl_registry a"
    "su_senders (cl_sup b) = su_senders (cl_sup a)" "su_signal (cl_sup b) = su_signal (cl_sup a)"
    "cl_net b = close_channels k ((cl_net a)\<lparr>nw_signals := (nw_signals (cl_net a))(0 := nw_signals (cl_net a) 0 @ [SStopped (path_of ra)])\<rparr>)"
    using leaf_reports [where H = H, OF tame _ a(3), of a] by blast
  have "cl_up b" "\<not> cl_shutdown b" "nw_signals (cl_net b) 0 = SStopped (path_of r) # []" using a b up net(2) by simp_all
  from report_handled [where H = H, OF this] obtain t where t: "cl_step H b t" "cl_nodes t = cl_nodes b" "cl_up t" "\<not> cl_shutdown t"
    "cl_cancelled t = cl_cancelled b"
    "sm_root_path (cl_system t) = sm_root_path (cl_system b)" "cl_registry t = hm_remove (path_of r) (cl_registry b)"
    "su_senders (cl_sup t) = hm_remove (path_of r) (su_senders (cl_sup b))" "su_signal (cl_sup t) = su_signal (cl_sup b)"
    "cl_net t = (cl_net b)\<lparr>nw_signals := (nw_signals (cl_net b))(0 := [])\<rparr>" by blast
  have "(cl_step H ^^ 3) s t"
    using a(1) b(1) t(1) by (auto simp: numeral_3_eq_3 relcompp.simps)
  then show ?thesis
    by (rule that [where r' = rb]) (use a b t net(2) in \<open>auto simp: fun_eq_iff\<close>)
qed

section \<open>An actor that nobody supervises\<close>

text \<open>The system as it would be without the actors \<open>A\<close>, and when all of these but one,
  which has the path \<open>p\<close>, have ended, and that one is out of reach.\<close>

definition without :: "nat set \<Rightarrow> ('a, 'h, 'm) cluster \<Rightarrow> ('a, 'h, 'm) cluster" where
  "without A s = s\<lparr>cl_nodes := (\<lambda>k. if k \<in> A then None else cl_nodes s k)\<rparr>"

definition astray :: "nat set \<Rightarrow> nat \<Rightarrow> actor_path \<Rightarrow> ('a, 'h, 'm) cluster \<Rightarrow> bool" where
  "astray A i p s \<longleftrightarrow> i \<in> A \<and> (\<forall>k r. k \<in> A \<longrightarrow> k \<noteq> i \<longrightarrow> cl_nodes s k = Some r \<longrightarrow> ru_life r = Terminated)
     \<and> nw_signals (cl_net s) i = [] \<and> nw_actions (cl_net s) i = [] \<and> nw_open (cl_net s) i
     \<and> (\<exists>r. cl_nodes s i = Some r \<and> ru_life r = Started \<and> \<not> ru_init r \<and> path_of r = p) \<and> \<not> hm_contains p (cl_registry s)"

lemma without_sel [simp]:
  "cl_system (without A s) = cl_system s" "cl_up (without A s) = cl_up s" "cl_shutdown (without A s) = cl_shutdown s"
  "cl_cancelled (without A s) = cl_cancelled s" "cl_nodes (without A s) = (\<lambda>k. if k \<in> A then None else cl_nodes s k)"
  by (simp_all add: without_def)

lemma without_cancelled: "without A (s\<lparr>cl_cancelled := b\<rparr>) = (without A s)\<lparr>cl_cancelled := b\<rparr>"
  by (simp add: without_def cong: if_cong)

lemma without_step:
  "k \<notin> A \<Longrightarrow> without A (save_runner k r s) = save_runner k r (without A s)"
  "without A (set_net w s) = set_net w (without A s)" "load_runner (without A s) r = load_runner s r"
  "without A (save_system x s) = save_system x (without A s)"
  by (simp_all add: without_def save_runner_def set_net_def load_runner_def save_system_def Let_def fun_eq_iff split: prod.splits)

text \<open>What the others do, they do as if the actor were not there, and they leave its
  channels alone; what it does itself concerns only its state.\<close>

lemma closing_same:
  assumes rest: "at_rest H s0" and cl: "closing T down s0 ph s"
    and "cl_nodes t = cl_nodes s" "cl_shutdown t = cl_shutdown s" "cl_cancelled t = cl_cancelled s" "cl_up t = cl_up s"
      "sm_root_path (cl_system t) = sm_root_path (cl_system s)" "cl_registry t = cl_registry s"
      "nw_signals (cl_net t) = nw_signals (cl_net s)" "nw_actions (cl_net t) = nw_actions (cl_net s)"
      "nw_open (cl_net t) = nw_open (cl_net s)"
  shows "closing T down s0 ph t"
proof (rule closing_keep [OF cl])
  show "cl_up t = cl_up s \<or> down" by (simp add: assms)
  fix m q0 assume m: "cl_nodes s0 m = Some q0"
  obtain q where q: "cl_nodes s m = Some q" "phase_ok s0 s m q0 q (ph m)"
    using closing_dom [OF cl m] by blast
  have "phase_ok s0 t m q0 q (ph m)"
    by (rule phase_ok_frame [OF q(2)]) (simp_all add: assms)
  then show "\<exists>q. cl_nodes t m = Some q \<and> phase_ok s0 t m q0 q (ph m)" using q(1) by (simp add: assms)
  show "ph m = Untouched \<longleftrightarrow> m \<notin> T \<or> (\<exists>j. j \<noteq> 0 \<and> parent_of q0 = Some j \<and> ph j \<in> {Untouched, Asked})"
    by (rule closing_parts(6) [OF cl m])
  show "ph m = Stopping \<Longrightarrow> nw_signals (cl_net t) m \<noteq> []
      \<or> (\<exists>k rk. cl_nodes s0 k = Some rk \<and> parent_of rk = Some m \<and> ph k \<noteq> Gone)"
    using closing_parts(7) [OF cl m] by (simp add: assms)
next
  fix m sg assume "m = 0 \<or> m \<in> dom (cl_nodes s0)" "sg \<in> set (nw_signals (cl_net t) m)"
  then show "\<exists>k rk. k \<in> T \<and> cl_nodes s0 k = Some rk \<and> parent_of rk = Some m \<and> sg = SStopped (path_of rk)"
    using closing_parts(8) [OF cl, of m sg] by (simp add: assms)
qed (use closing_parts(3-5) [OF cl] closing_absent [OF cl] in \<open>simp_all add: assms\<close>)

lemma astray_own:
  assumes rest: "at_rest H s0" and cl: "closing T down s0 ph (without A s)" and ast: "astray A i p s"
    and r: "cl_nodes s i = Some r" "ru_life r = Started" and take: "take_item i (cl_net s) ev w"
    and step: "runner_step (H i) channel_net (load_runner (set_net w s) r) [ev] = (b, r', evs)"
  shows "closing T down s0 ph (without A (save_runner i r' (set_net w s))) \<and> astray A i p (save_runner i r' (set_net w s))"
  using take
proof (cases rule: take_item_cases)
  case (mail m ms)
  have "\<not> ru_init r" using ast r by (simp add: astray_def)
  then obtain a' where "runner_step (H i) channel_net (load_runner (set_net w s) r) [RMsg m]
      = (False, (load_runner (set_net w s) r)\<lparr>ru_actor := a'\<rparr>, [])"
    using step_mail [OF at_rest_tame [OF rest], of "load_runner (set_net w s) r" i channel_net m] r(2) by auto
  then have r': "r' = (load_runner (set_net w s) r)\<lparr>ru_actor := a'\<rparr>" using step mail(1) by simp
  have "closing T down s0 ph (without A (save_runner i r' (set_net w s)))"
    by (rule closing_same [OF rest cl]) (use r(2) ast in \<open>auto simp: r' mail(3) astray_def fun_eq_iff\<close>)
  then show ?thesis using ast r by (simp add: astray_def r' mail(3))
qed (use ast in \<open>simp_all add: astray_def\<close>)

lemma step_terminated: "ru_life r = Terminated \<Longrightarrow> runner_step h N r evs = (True, r', evs') \<Longrightarrow> False"
  by (simp add: runner_step_def)

lemma astray_step:
  assumes rest: "at_rest H s0" and new: "\<And>k. k \<in> A \<Longrightarrow> cl_nodes s0 k = None" "i \<noteq> 0"
    and cl: "closing T down s0 ph (without A s)" and ast: "astray A i p s" and step: "cl_step H s t"
  shows "\<exists>ph'. closing T down s0 ph' (without A t) \<and> astray A i p t"
  using step
proof (cases rule: cl_step.cases)
  case (round k r r' evs)
  have ki: "k \<notin> A" using round(2,3) step_terminated [OF _ round(4)] ast by (auto simp: astray_def)
  then have k: "cl_nodes (without A s) k = Some r" using round(2) by simp
  note step' = round(4) [folded without_step(3) [of A s]]
  from cl_step.round [where H = H, OF k round(3) step'] have "cl_step H (without A s) (without A t)"
    by (simp add: round(1) without_step(1) [OF ki])
  moreover obtain r0 j where "ru_life r' = Terminated" "cl_nodes s0 k = Some r0" "j = 0 \<or> cl_nodes s0 j \<noteq> None \<and> ph j \<notin> {Untouched, Asked}"
    "cx_sup (ru_ctx r') = (cx_sup (ru_ctx (load_runner (without A s) r)))\<lparr>su_world :=
      snd (send_signal j (SStopped (path_of r0)) (cl_net (without A s)))\<rparr>"
    by (rule round_effect [OF rest cl k round(3) step']) (rule that)
  then have "astray A i p t" using ast ki new by (auto simp: astray_def round(1) send_signal_def)
  ultimately show ?thesis using closing_step [OF rest cl] by blast
next
  case (receive k r ev w b r' evs)
  show ?thesis
  proof (cases "k = i")
    case True
    then show ?thesis using astray_own [OF rest cl ast] receive by blast
  next
    case False
    then have ki: "k \<notin> A" using receive(2,3) ast by (auto simp: astray_def)
    then have k: "cl_nodes (without A s) k = Some r" using receive(2) by simp
    have take: "take_item k (cl_net (without A s)) ev w" using receive(4) by simp
    have step': "runner_step (H k) channel_net (load_runner (set_net w (without A s)) r) [ev] = (b, r', evs)"
      using receive(5) by (simp add: without_step(3) without_step(2) [symmetric])
    from cl_step.receive [where H = H, OF k receive(3) take step'] have "cl_step H (without A s) (without A t)"
      by (simp add: receive(1) without_step(1) [OF ki] without_step(2))
    moreover have "astray A i p t"
      using receive_frame [OF rest cl k receive(3) take step'] ast ki new by (auto simp: astray_def receive(1))
    ultimately show ?thesis using closing_step [OF rest cl] by blast
  qed
next
  case cancelled
  have "cl_up (without A s)" "cl_cancelled (without A s)" using cancelled by simp_all
  from cl_step.cancelled [of _ H, OF this] have "cl_step H (without A s) (without A t)"
    by (simp add: cancelled(1) without_step(4))
  moreover have "down" using closing_parts(2) [OF cl] cancelled(3) by simp
  then have "sup_get_childs (sm_root_path (cl_system s)) (cl_sup s) = []"
    using closing_no_top [OF rest, of T ph "without A s"] cl by simp
  then have "astray A i p t"
    using ast new by (simp add: astray_def cancelled(1) save_system_def Let_def system_stop_children_def sup_stop_children_def)
  ultimately show ?thesis using closing_step [OF rest cl] by blast
next
  case (signalled sg sgs s1)
  have "cl_up (without A s)" "nw_signals (cl_net (without A s)) 0 = sg # sgs" using signalled by simp_all
  from cl_step.signalled [of _ _ _ _ H, OF this refl] have "cl_step H (without A s) (without A t)"
    by (simp add: signalled(1,4) without_step(2,4) [symmetric])
  moreover obtain k rk where "cl_nodes s0 k = Some rk" "sg = SStopped (path_of rk)"
    using closing_parts(8) [OF cl, of 0 sg] signalled(3) by auto
  then have "astray A i p t"
    using ast new by (auto simp: astray_def signalled(1,4) save_system_def Let_def system_remove_child_def sup_remove_child_def)
  ultimately show ?thesis using closing_step [OF rest cl] by blast
qed

lemma astray_steps:
  assumes rest: "at_rest H s0" and new: "\<And>k. k \<in> A \<Longrightarrow> cl_nodes s0 k = None" "i \<noteq> 0"
    and cl: "closing T down s0 ph (without A s)" and ast: "astray A i p s" and run: "(cl_step H ^^ n) s t"
  shows "\<exists>ph'. closing T down s0 ph' (without A t) \<and> astray A i p t"
  using run
proof (induction n arbitrary: t)
  case 0
  then show ?case using cl ast by auto
next
  case (Suc n)
  then obtain u where u: "(cl_step H ^^ n) s u" "cl_step H u t" by auto
  from Suc.IH [OF u(1)] obtain ph' where "closing T down s0 ph' (without A u)" "astray A i p u" by blast
  from astray_step [OF rest new this u(2)] show ?case .
qed

section \<open>The new actor loses its registration\<close>

lemma created_root:
  fixes s :: "('a, 'h, 'm) cluster"
  assumes "tame_start (H i)" and "\<not> hm_contains p (cl_registry s)" and "p = path_div (sm_root_path (cl_system s)) name"
  obtains t r where "cl_create_root H i actor name s = (Inr i, t)" "cl_nodes t = (cl_nodes s)(i \<mapsto> r)"
    "ru_life r = Started" "\<not> ru_init r" "path_of r = p"
    "cl_up t = cl_up s" "cl_shutdown t = cl_shutdown s" "cl_cancelled t = cl_cancelled s"
    "sm_root_path (cl_system t) = sm_root_path (cl_system s)" "su_signal (cl_sup t) = su_signal (cl_sup s)"
    "cl_registry t = hm_insert p i (cl_registry s)" "su_senders (cl_sup t) = hm_insert p i (su_senders (cl_sup s))"
    "cl_net t = open_channels i (cl_net s)"
proof -
  define r where "r = spawned (H i) channel_net actor i [] (su_signal (cl_sup s)) (sm_config (cl_system s)) p
      (cl_sup (set_net (open_channels i (cl_net s)) s))"
  have "\<exists>t. cl_create_root H i actor name s = (Inr i, t) \<and> cl_nodes t = (cl_nodes s)(i \<mapsto> r)
    \<and> cl_up t = cl_up s \<and> cl_shutdown t = cl_shutdown s \<and> cl_cancelled t = cl_cancelled s
    \<and> sm_root_path (cl_system t) = sm_root_path (cl_system s) \<and> su_signal (cl_sup t) = su_signal (cl_sup s)
    \<and> cl_registry t = hm_insert p i (cl_registry s) \<and> su_senders (cl_sup t) = hm_insert p i (su_senders (cl_sup s))
    \<and> cl_net t = open_channels i (cl_net s)"
    using assms(2)
    by (simp add: spawned_sel [OF assms(1)] cl_create_root_def Let_def system_create_actor_def adopt_runner_def
        create_actor_started [OF assms(1), of _ _ channel_net] assms(3) [symmetric] r_def)
  then show ?thesis using that spawned_sel [OF assms(1)] by (metis r_def)
qed

text \<open>An actor with nobody below it, and the state its stop request leaves.\<close>

lemma leaf_stop_requested:
  fixes s :: "('a, 'h, 'm) cluster"
  assumes rest: "at_rest H s" and name: "wf_segment name" and p: "p = path_div (sm_root_path (cl_system s)) name"
    and reg: "hm_contains p (cl_registry s)" and leaf: "subtree p s = {k}"
  obtains r s1 where "cl_nodes s k = Some r" "path_of r = p" "parent_of r = Some 0" "ru_life r = Started" "\<not> ru_init r"
    "cl_stop_actor name s = (Inr (), s1)" "cl_nodes s1 = cl_nodes s"
    "cl_up s1" "\<not> cl_shutdown s1" "cl_cancelled s1 = cl_cancelled s"
    "sm_root_path (cl_system s1) = sm_root_path (cl_system s)" "su_signal (cl_sup s1) = su_signal (cl_sup s)"
    "cl_registry s1 = hm_remove p (cl_registry s)" "su_senders (cl_sup s1) = hm_remove p (su_senders (cl_sup s))"
    "cl_net s1 = (cl_net s)\<lparr>nw_actions := (nw_actions (cl_net s))(k := [CStop])\<rparr>"
    "\<And>q. hm_contains q (cl_registry s) \<Longrightarrow> path_parent q \<noteq> p"
proof -
  obtain j r where r: "cl_nodes s j = Some r" "path_of r = p" "parent_of r = Some 0"
    "map_of (su_senders (cl_sup s)) (path_of r) = Some j" "nw_open (cl_net s) j"
    using top_actor [OF rest name reg [unfolded p]] unfolding p .
  have "j \<in> subtree p s" using r(1,2) by (simp add: subtree_node)
  then have jk: "j = k" using leaf by simp
  note live = at_rest_actor [OF rest r(1), unfolded actor_at_rest_def]
  have kids: "path_parent q \<noteq> p" if "hm_contains q (cl_registry s)" for q
  proof
    assume up: "path_parent q = p"
    obtain m x where m: "cl_nodes s m = Some x" "path_of x = q" using rest \<open>hm_contains q _\<close> unfolding at_rest_def by blast
    have "prefix (segments p) (segments q)"
      using up path_parent_segments [of q] by (metis append_butlast_last_id butlast.simps(1) prefixI prefix_order.refl)
    then have "m = k" using m leaf subtree_node [OF m(1), of p] by auto
    then have "q = p" using m r(1,2) jk by simp
    moreover have "path_level p = Suc (path_level (path_parent p))"
      using path_level_parent [of p] at_rest_path [OF rest r(1)] r(2) by simp
    ultimately show False using up by simp
  qed
  note sent = stop_actor_sends [OF r(4,5), unfolded r(2), OF p]
  show ?thesis
    by (rule that [OF _ _ _ _ _ sent]) (use r jk live kids rest in \<open>auto simp: at_rest_def\<close>)
qed

lemma reuse_state:
  fixes s :: "('a, 'h, 'm) cluster"
  assumes built: "cl_built H conf s" and tame: "\<forall>i. tame_hooks (H i)" "\<forall>i. tame_start (H i)"
    and name: "wf_segment name" and p: "p = path_div (sm_root_path (cl_system s)) name"
    and reg: "hm_contains p (cl_registry s)" and leaf: "subtree p s = {k}" and i: "i \<noteq> 0" "cl_nodes s i = None"
  obtains s1 s2 t where "cl_stop_actor name s = (Inr (), s1)" "cl_create_root H i actor name s1 = (Inr i, s2)"
    "(cl_step H ^^ 3) s2 t" "astray {i, k} i p t" "at_rest H (without {i, k} t)"
    "map_of (su_senders (cl_sup t)) p = None" "sm_root_path (cl_system t) = sm_root_path (cl_system s)"
proof -
  note rest = built_at_rest [OF built tame]
  have h: "tame_hooks (H k)" "tame_start (H i)" using tame by blast+
  obtain r s1 where r: "cl_nodes s k = Some r" "path_of r = p" "parent_of r = Some 0" "ru_life r = Started" "\<not> ru_init r"
    and s1: "cl_stop_actor name s = (Inr (), s1)" "cl_nodes s1 = cl_nodes s"
    "cl_up s1" "\<not> cl_shutdown s1" "cl_cancelled s1 = cl_cancelled s"
    "sm_root_path (cl_system s1) = sm_root_path (cl_system s)" "su_signal (cl_sup s1) = su_signal (cl_sup s)"
    "cl_registry s1 = hm_remove p (cl_registry s)" "su_senders (cl_sup s1) = hm_remove p (su_senders (cl_sup s))"
    "cl_net s1 = (cl_net s)\<lparr>nw_actions := (nw_actions (cl_net s))(k := [CStop])\<rparr>"
    and kids: "\<And>q. hm_contains q (cl_registry s) \<Longrightarrow> path_parent q \<noteq> path_of r"
    using leaf_stop_requested [OF rest name p reg leaf] by metis
  have k: "k \<noteq> 0" "i \<noteq> k" using at_rest_no_zero [OF rest r(1)] r(1) i by auto
  have quiet: "nw_signals (cl_net s) 0 = []" "nw_open (cl_net s) 0" using rest by (simp_all add: at_rest_def)
  obtain c rc where c: "(cl_step H ^^ 3) s1 c" "cl_nodes c = (cl_nodes s1)(k \<mapsto> rc)" "ru_life rc = Terminated"
    "cl_up c" "\<not> cl_shutdown c"
    "sm_root_path (cl_system c) = sm_root_path (cl_system s1)" "cl_registry c = hm_remove p (cl_registry s1)"
    "su_senders (cl_sup c) = hm_remove p (su_senders (cl_sup s1))" "su_signal (cl_sup c) = su_signal (cl_sup s1)"
    "nw_signals (cl_net c) = nw_signals (cl_net s1)" "nw_actions (cl_net c) = (nw_actions (cl_net s1))(k := [])"
    "nw_open (cl_net c) = (nw_open (cl_net s1))(k := False)"
    by (rule leaf_gone [where H = H and k = k and r = r and s = s1]) (use h r s1 kids quiet k in auto)
  have "ended (subtree p s) c" using leaf c quiet s1 by (auto simp: ended_def)
  then have "cl_built H conf (reap c)"
    using cl_built.stopped [OF built name s1(1) relpowp_imp_rtranclp [OF c(1)]] p by simp
  note restc = built_at_rest [OF this tame]
  obtain s2 rn where s2: "cl_create_root H i actor name s1 = (Inr i, s2)" "cl_nodes s2 = (cl_nodes s1)(i \<mapsto> rn)"
    "ru_life rn = Started" "\<not> ru_init rn" "path_of rn = p"
    "cl_up s2 = cl_up s1" "cl_shutdown s2 = cl_shutdown s1" "cl_cancelled s2 = cl_cancelled s1"
    "sm_root_path (cl_system s2) = sm_root_path (cl_system s1)" "su_signal (cl_sup s2) = su_signal (cl_sup s1)"
    "cl_registry s2 = hm_insert p i (cl_registry s1)" "su_senders (cl_sup s2) = hm_insert p i (su_senders (cl_sup s1))"
    "cl_net s2 = open_channels i (cl_net s1)"
    by (rule created_root [where H = H and i = i and p = p and s = s1 and name = name and actor = actor])
      (use h(2) s1 p in auto)
  have up: "path_parent p \<noteq> p" using at_rest_path_neq_root [OF rest r(1)] path_parent_div [OF name] r(2) p by metis
  obtain t rt where t: "(cl_step H ^^ 3) s2 t" "cl_nodes t = (cl_nodes s2)(k \<mapsto> rt)" "ru_life rt = Terminated"
    "cl_up t" "\<not> cl_shutdown t"
    "sm_root_path (cl_system t) = sm_root_path (cl_system s2)" "cl_registry t = hm_remove p (cl_registry s2)"
    "su_senders (cl_sup t) = hm_remove p (su_senders (cl_sup s2))" "su_signal (cl_sup t) = su_signal (cl_sup s2)"
    "nw_signals (cl_net t) = nw_signals (cl_net s2)" "nw_actions (cl_net t) = (nw_actions (cl_net s2))(k := [])"
    "nw_open (cl_net t) = (nw_open (cl_net s2))(k := False)"
    by (rule leaf_gone [where H = H and k = k and r = r and s = s2]) (use h r s1 s2 kids quiet k i up in auto)
  have "at_rest H (without {i, k} t)"
  proof (rule at_rest_same [OF restc])
    have "ru_life q = Started" if "cl_nodes s m = Some q" for m q
      using at_rest_actor [OF rest that] by (simp add: actor_at_rest_def)
    then show "map_option standing (cl_nodes (without {i, k} t) m) = map_option standing (cl_nodes (reap c) m)" for m
      using k i by (auto simp: c t s1 s2 reap_def split: option.split)
  qed (use c t s1 s2 k i in \<open>auto simp: hm_insert_def hm_remove_def\<close>)
  moreover have "astray {i, k} i p t"
    using k s1 s2 t by (simp add: astray_def)
  ultimately show ?thesis
    using that [OF s1(1) s2(1) t(1)] t(6,8) s1(6) s2(9) by simp
qed

lemma astray_cancelled:
  fixes t :: "('a, 'h, 'm) cluster"
  assumes rest: "at_rest H (without A t)" and ast: "astray A i p t" and i: "i \<noteq> 0"
    and u: "u = save_system (system_round channel_net SysCancelled (cl_shutdown t) (cl_system t)) (t\<lparr>cl_cancelled := True\<rparr>)"
  defines "s0 \<equiv> (without A t)\<lparr>cl_cancelled := True\<rparr>"
  shows "at_rest H s0 \<and> closing (dom (cl_nodes s0)) True s0 (first_phase (dom (cl_nodes s0)) s0) (without A u) \<and> astray A i p u"
proof -
  have r0: "at_rest H s0" unfolding s0_def by (rule at_rest_cancelled [OF rest])
  have same: "cl_system s0 = cl_system t" "cl_shutdown s0 = cl_shutdown t" "cl_cancelled s0" and none: "cl_nodes s0 i = None"
    using ast by (simp_all add: s0_def astray_def)
  have "without A u = save_system (system_round channel_net SysCancelled (cl_shutdown s0) (cl_system s0)) s0"
    by (simp add: u without_step(4) same without_cancelled s0_def [symmetric] del: system_round.simps)
  from closing_start [OF r0 same(3) this]
  have "closing (dom (cl_nodes s0)) True s0 (first_phase (dom (cl_nodes s0)) s0) (without A u)" .
  moreover have "astray A i p u"
  proof -
    obtain u' where u': "system_round channel_net SysCancelled (cl_shutdown s0) (cl_system s0)
        = (\<not> sup_has_childs (sm_root_path (cl_system s0)) (cl_sup s0), True, (cl_system s0)\<lparr>sm_sup := u'\<rparr>)"
      "\<And>p. map_of (su_registry u') p = (if path_parent p = sm_root_path (cl_system s0) then None else map_of (cl_registry s0) p)"
      "su_world u' = (cl_net s0)\<lparr>nw_actions := (\<lambda>i. nw_actions (cl_net s0) i
          @ (if \<exists>r. cl_nodes s0 i = Some r \<and> parent_of r = Some 0 then [CStop] else []))\<rparr>"
      by (rule cancel_round [OF r0]) (rule that)
    have "\<not> hm_contains p (su_registry u')"
      using ast u'(2) [of p] by (auto simp: hm_contains_map_of same astray_def split: if_splits)
    then show ?thesis
      using ast i none by (simp add: u [unfolded u'(1) [unfolded same]] astray_def save_system_def Let_def u'(3) same)
  qed
  ultimately show ?thesis using r0 by blast
qed

section \<open>Properties\<close>

text \<open>C17: a name used again too early is lost. Take any system built by creations,
  completed stops and messages, whose actors' methods are tame (\<open>pre_start\<close> and \<open>pre_stop\<close>
  succeed, and no method creates, stops or signals), with a top-level actor that has no children. Once its stop has been
  requested the name is free: an actor can be created under it and gets its reference.
  But the first actor's report is still to come, and the system's runner takes the path
  off its books for it: in three steps the new actor is running and not registered, a
  request to stop it is refused, and a shutdown does not reach it. However the tasks
  interleave after a cancellation, the system's runner ends and the actor does not.\<close>

theorem reused_name_lost:
  assumes "cl_built H conf s" and "\<forall>i. tame_hooks (H i)" and "\<forall>i. tame_start (H i)"
    and "wf_segment name" and "p = path_div (sm_root_path (cl_system s)) name" and "hm_contains p (cl_registry s)"
    and "subtree p s = {k}" and "i \<noteq> 0" and "cl_nodes s i = None"
  shows "\<exists>s1 s2 t. cl_stop_actor name s = (Inr (), s1) \<and> cl_create_root H i actor name s1 = (Inr i, s2)
    \<and> (cl_step H ^^ 3) s2 t \<and> (\<exists>e t'. cl_stop_actor name t = (Inl e, t'))
    \<and> (\<forall>n u. (cl_step H ^^ n) (save_system (system_round channel_net SysCancelled (cl_shutdown t) (cl_system t))
          (t\<lparr>cl_cancelled := True\<rparr>)) u \<longrightarrow>
        (\<exists>r. cl_nodes u i = Some r \<and> ru_life r = Started \<and> path_of r = p) \<and> \<not> hm_contains p (cl_registry u)
        \<and> ((\<nexists>u'. cl_step H u u') \<longrightarrow> \<not> cl_up u))"
proof -
  obtain s1 s2 t where st: "cl_stop_actor name s = (Inr (), s1)" "cl_create_root H i actor name s1 = (Inr i, s2)"
    "(cl_step H ^^ 3) s2 t" and ast: "astray {i, k} i p t" and rest: "at_rest H (without {i, k} t)"
    and lost: "map_of (su_senders (cl_sup t)) p = None" "sm_root_path (cl_system t) = sm_root_path (cl_system s)"
    by (rule reuse_state [OF assms]) (rule that)
  define u0 where "u0 = save_system (system_round channel_net SysCancelled (cl_shutdown t) (cl_system t)) (t\<lparr>cl_cancelled := True\<rparr>)"
  define s0 where "s0 = (without {i, k} t)\<lparr>cl_cancelled := True\<rparr>"
  note start = astray_cancelled [OF rest ast assms(8) u0_def, folded s0_def]
  have gone: "cl_nodes s0 m = None" if "m \<in> {i, k}" for m using that by (simp add: s0_def)
  have "(\<exists>r. cl_nodes u i = Some r \<and> ru_life r = Started \<and> path_of r = p) \<and> \<not> hm_contains p (cl_registry u)
      \<and> ((\<nexists>u'. cl_step H u u') \<longrightarrow> \<not> cl_up u)" if run: "(cl_step H ^^ n) u0 u" for n u
  proof -
    obtain ph where "closing (dom (cl_nodes s0)) True s0 ph (without {i, k} u)" "astray {i, k} i p u"
      using astray_steps [OF _ gone assms(8) _ _ run] start by blast
    then show ?thesis
      using closing_parts(2) [of _ True s0 ph "without {i, k} u"] cl_step.cancelled [of u H] by (auto simp: astray_def)
  qed
  moreover have "\<exists>e t'. cl_stop_actor name t = (Inl e, t')"
    using lost assms(5) by (simp add: cl_stop_actor_def system_stop_actor_def sup_stop_child_def)
  ultimately show ?thesis using st unfolding u0_def by blast
qed

theorem reused_name_lost_witness:
  "\<exists>(s :: (nat, nat, nat) cluster) s1 s2 t u r. cl_built (\<lambda>_. plain_hooks SStop) config_default s
    \<and> cl_stop_actor ''c'' s = (Inr (), s1) \<and> cl_create_root (\<lambda>_. plain_hooks SStop) 4 0 ''c'' s1 = (Inr 4, s2)
    \<and> (cl_step (\<lambda>_. plain_hooks SStop) ^^ 3) s2 t
    \<and> u = save_system (system_round channel_net SysCancelled (cl_shutdown t) (cl_system t)) (t\<lparr>cl_cancelled := True\<rparr>)
    \<and> cl_nodes u 4 = Some r \<and> ru_life r = Started \<and> \<not> hm_contains (ActorPath [''user'', ''c'']) (cl_registry u)"
proof -
  let ?H = "(\<lambda>_. plain_hooks SStop) :: (nat, nat, nat) actor_hooks" and ?p = "ActorPath [''user'', ''c'']"
  have tame: "\<forall>i. tame_hooks (?H i)" "\<forall>i. tame_start (?H i)" by (simp_all add: plain_tame)
  obtain s :: "(nat, nat, nat) cluster" where s: "cl_built ?H config_default s" "cl_nodes s 4 = None"
      "hm_contains ?p (cl_registry s)" "subtree ?p s = {3}"
    using built_lone by blast
  have div: "path_div (ActorPath [''user'']) ''c'' = ?p" by code_simp
  have c: "?p = path_div (sm_root_path (cl_system s)) ''c''"
    using built_fixed [OF s(1)] div by simp
  have n: "wf_segment ''c''" by (simp add: wf_segment_def is_blank_def ws1_def ws2_def ws3_def)
  obtain s1 s2 t where st: "cl_stop_actor ''c'' s = (Inr (), s1)" "cl_create_root ?H 4 0 ''c'' s1 = (Inr 4, s2)" "(cl_step ?H ^^ 3) s2 t"
    and run: "\<And>n u. (cl_step ?H ^^ n) (save_system (system_round channel_net SysCancelled (cl_shutdown t) (cl_system t))
          (t\<lparr>cl_cancelled := True\<rparr>)) u \<Longrightarrow>
        (\<exists>r. cl_nodes u 4 = Some r \<and> ru_life r = Started \<and> path_of r = ?p) \<and> \<not> hm_contains ?p (cl_registry u)"
    using reused_name_lost [OF s(1) tame n c s(3,4) _ s(2), of 0] by auto
  have "(cl_step ?H ^^ 0) x x" for x by simp
  from run [OF this] st s(1) show ?thesis by blast
qed

end
