(* ===== verification/Snapshots.thy ===== *)
theory Snapshots
  imports Children Runner
begin

text \<open>
  A snapshotter as an actor of the runner (\<open>snapshotter.rs\<close> under \<open>runner.rs\<close>): what is
  left in its store when a stop request reaches it before or after the messages that wait
  in its mailbox, and what that means for a \<open>SnapshotActor\<close> (\<open>snapshot.rs\<close>) whose saves
  are such messages.
\<close>

section \<open>The snapshotter's runner\<close>

text \<open>The methods of \<open>BaseSnapshotter\<close>: \<open>handle\<close> through \<open>ActorMessage::handle\<close>, whose answer
  goes to the asker's channel, and \<open>post_stop\<close>; the others are the trait's defaults.\<close>

definition snapshotter_hooks ::
  "'s store_ops \<Rightarrow> ('ev, 'snd, 'sig, 'w) net_ops
    \<Rightarrow> ('s snapshotter, snapshot_message actor_message, ('ref, 'h, 'snd, 'sig, 'w) ctx) hooks" where
  "snapshotter_hooks S N = \<lparr>
     hk_strategy = SStop,
     hk_pre_start = default_pre_start,
     hk_pre_restart = default_pre_restart default_pre_start,
     hk_pre_stop = default_pre_stop,
     hk_post_stop = (\<lambda>sn c. (snapshotter_post_stop S sn, sn, c)),
     hk_message = (\<lambda>m sn c. (message_handle (snapshotter_actor S) (\<lambda>_ _ sn. sn) m sn, c)),
     hk_child_error = default_on_child_error N,
     hk_child_fault = default_on_child_fault N \<rparr>"

lemma message_handle_state: "message_handle h (\<lambda>_ _ s. s) m s = snd (h s (am_sender m) (am_msg m))"
  by (simp add: message_handle_def split: prod.split option.split)

lemma snapshotter_messages:
  "run_loop (snapshotter_hooks S N) N (map RMsg ms @ evs) r = run_loop (snapshotter_hooks S N) N evs
    (r\<lparr>ru_actor := foldl (\<lambda>s m. snd (snapshotter_actor S s (am_sender m) (am_msg m))) (ru_actor r) ms\<rparr>)"
  by (induction ms arbitrary: r) (simp_all add: snapshotter_hooks_def message_handle_state)

text \<open>A snapshotter that waits for its next message or action.\<close>

definition awaits :: "('a, ('ref, 'h, 'snd, 'sig, 'w) ctx) runner \<Rightarrow> bool" where
  "awaits r \<longleftrightarrow> ru_life r = Started \<and> \<not> ru_init r \<and> \<not> ctx_has_childs (ru_ctx r) \<and> cx_signal (ru_ctx r) \<noteq> None"

lemma snapshotter_ends:
  assumes "awaits r"
  obtains r' where
    "runner_init (snapshotter_hooks S N) N r (map RMsg ms @ RAction CStop # evs) = (r', evs)"
    "ru_life r' = Terminated"
    "ru_actor r' = foldl (\<lambda>s m. snd (snapshotter_actor S s (am_sender m) (am_msg m))) (ru_actor r) ms"
proof -
  let ?H = "snapshotter_hooks S N"
  let ?r = "r\<lparr>ru_actor := foldl (\<lambda>s m. snd (snapshotter_actor S s (am_sender m) (am_msg m))) (ru_actor r) ms\<rparr>"
  have r: "ru_life r = Started" "\<not> ru_init r" "\<not> ctx_has_childs (ru_ctx r)"
    using assms by (simp_all add: awaits_def)
  obtain sg where sg: "cx_signal (ru_ctx r) = Some sg" using assms by (auto simp: awaits_def)
  obtain res w where w: "nt_signal N sg (SStopped (cx_path (ru_ctx r))) (cx_world (ru_ctx r)) = (res, w)"
    by (cases "nt_signal N sg (SStopped (cx_path (ru_ctx r))) (cx_world (ru_ctx r))")
  have "send_init (Inr ()) r = r" "send_init (Inr ()) ?r = ?r" using r(2) by (simp_all add: send_init_def)
  then have "runner_step ?H N r (map RMsg ms @ RAction CStop # evs) = runner_step ?H N ?r (RAction CStop # evs)"
    using r(1) by (simp add: runner_step_def snapshotter_messages)
  then have "runner_init ?H N r (map RMsg ms @ RAction CStop # evs) = runner_init ?H N ?r (RAction CStop # evs)"
    by (simp only: runner_init.simps)
  also have "\<dots> = (?r\<lparr>ru_ctx := cx_set_world w (ru_ctx r), ru_life := Terminated,
      ru_trace := ru_trace r @ [TPreStop, TEmitStopped, TPostStop]\<rparr>, evs)"
    using stop_without_children [of ?r ?H "ru_actor ?r" "ru_ctx r" sg N res w _ "ru_actor ?r" "cx_set_world w (ru_ctx r)" evs]
      r sg w by (simp add: snapshotter_hooks_def default_pre_stop_def)
  finally show ?thesis by (rule that) simp_all
qed

section \<open>What a save leaves behind\<close>

text \<open>\<open>save\<close> puts one message at the end of the mailbox.\<close>

lemma save_queues:
  assumes "hh_snap c = Some x" and "ce_open x" and "ty_to_vec T self = Inr d"
  shows "snap_save (household_ops S A w p) T self c = (Inr (), c\<lparr>hh_snap := Some (x\<lparr>ce_queue := ce_queue x
    @ [actor_message_new (path_div p ''snapshotter'') (SaveSnapshot 0 d) None]\<rparr>)\<rparr>)"
proof -
  have "ref_tell (cell_ref q h) m x = (Inr (), x\<lparr>ce_queue := ce_queue x @ [actor_message_new q m None]\<rparr>)" for q m
    and h :: "'a snapshotter \<Rightarrow> actor_path \<Rightarrow> snapshot_message \<Rightarrow> (actor_error + snapshot_response) \<times> 'a snapshotter"
    using assms(2) by (simp add: ref_tell_def handler_tell_def cell_ref_def cell_channels_def)
  then show ?thesis
    using assms(1,3) by (simp add: snap_save_def get_snapshotter_def household_ops_def snapshotter_ref_def lift_tell)
qed

context reliable_store begin

text \<open>The next start, over the store of a snapshotter that ended as \<open>sn\<close>.\<close>

lemma start_after_close:
  assumes "inv (sn_store sn)"
  obtains c2 where "view (sn_store sn) 0 = None \<Longrightarrow>
      snap_init_state (household_ops S A w p) T fresh (close_snapshotter (type_name T) (ty_id T fresh) sn c) = (Inr (), fresh, c2)"
    and "\<And>d s. view (sn_store sn) 0 = Some d \<Longrightarrow> ty_from_slice T d = Inr s \<Longrightarrow>
      \<exists>c2. snap_init_state (household_ops S A w p) T fresh (close_snapshotter (type_name T) (ty_id T fresh) sn c) = (Inr (), s, c2)"
proof -
  let ?C = "household_ops S A w p" and ?old = "close_snapshotter (type_name T) (ty_id T fresh) sn c"
  note child = snap_household [of A w p]
  have "hh_disk ?old (type_name T @ ''-Snapshotter'', ty_id T fresh) = sn_store sn"
    by (simp add: close_snapshotter_def)
  from snap_opened [OF this assms, of A w p] obtain c1 where
    c1: "snap_create_store ?C T fresh ?old = (Inr (), c1)" "snap_up S inv c1" "household_snaps S view c1 = view (sn_store sn)" .
  have 2: "\<exists>c2. snap_init_state ?C T fresh ?old = (Inr (), s, c2)"
    if "view (sn_store sn) 0 = Some d" "ty_from_slice T d = Inr s" for d s
    using snapshot_child.snap_load_loads [OF child c1(2) _ that(2), of fresh] that(1) c1(1,3)
    by (auto simp: snap_init_state_def)
  have "\<exists>c2. snap_init_state ?C T fresh ?old = (Inr (), fresh, c2)" if "view (sn_store sn) 0 = None"
    using snapshot_child.snap_load_missing [OF child c1(2), of T fresh] that c1(1,3)
    by (auto simp: snap_init_state_def)
  then show ?thesis by (metis that 2)
qed

text \<open>The snapshotter before and after it handles the save that waits last.\<close>

lemma save_handled:
  assumes "snap_up S inv c" and "hh_snap c = Some x"
  defines "before \<equiv> foldl (\<lambda>s m. snd (snapshotter_actor S s (am_sender m) (am_msg m))) (ce_state x) (ce_queue x)"
  shows "inv (sn_store before)" "view (sn_store before) = household_snaps S view c"
    "inv (sn_store (snd (snapshotter_actor S before q (SaveSnapshot 0 d))))"
    "view (sn_store (snd (snapshotter_actor S before q (SaveSnapshot 0 d)))) = (household_snaps S view c)(0 \<mapsto> d)"
proof -
  have b: "before = settled_snapshotter S c"
    using assms(2) by (simp add: before_def settled_snapshotter_def cell_settled_def)
  show 1: "inv (sn_store before)" using assms(1) by (simp add: b snap_up_def)
  show 2: "view (sn_store before) = household_snaps S view c" by (simp add: b household_snaps_def)
  have "snap_accepts (SaveSnapshot 0 d)" by (simp add: key_limit_def)
  from snapshotter_step [OF 1 this surjective_pairing] 2
  show "inv (sn_store (snd (snapshotter_actor S before q (SaveSnapshot 0 d))))"
    "view (sn_store (snd (snapshotter_actor S before q (SaveSnapshot 0 d)))) = (household_snaps S view c)(0 \<mapsto> d)"
    by (auto simp: snapshotter_actor_def)
qed

end

section \<open>Properties\<close>

text \<open>C33: over a backend that keeps its contract and accepts writes, an actor that saves a
  snapshot of itself, in a form that is decoded to the same state, is restored to that
  state by \<open>init_state\<close>, if its snapshotter has handled its whole mailbox, the save last, when the stop
  request reaches its runner: the runner terminates, and the store that it leaves, opened
  again, holds the state. A stop request that overtakes the save is \<open>queued_save_lost\<close>.\<close>

theorem snapshot_actor_recovers:
  assumes "reliable_store S I V" and "snap_up S I c"
    and "ty_to_vec T self = Inr d" and "ty_from_slice T d = Inr self" and "awaits r"
  shows "\<exists>c1 x r' c2. snap_save (household_ops S A w p) T self c = (Inr (), c1) \<and> hh_snap c1 = Some x
    \<and> runner_init (snapshotter_hooks S N) N (r\<lparr>ru_actor := ce_state x\<rparr>) (map RMsg (ce_queue x) @ [RAction CStop]) = (r', [])
    \<and> ru_life r' = Terminated
    \<and> snap_init_state (household_ops S A w p) T fresh
        (close_snapshotter (type_name T) (ty_id T fresh) (ru_actor r') c1) = (Inr (), self, c2)"
proof -
  obtain x where x: "hh_snap c = Some x" "ce_open x" using assms(2) by (auto simp: snap_up_def)
  let ?m = "actor_message_new (path_div p ''snapshotter'') (SaveSnapshot 0 d) None"
  let ?x = "x\<lparr>ce_queue := ce_queue x @ [?m]\<rparr>" and ?c1 = "c\<lparr>hh_snap := Some (x\<lparr>ce_queue := ce_queue x @ [?m]\<rparr>)\<rparr>"
  have "awaits (r\<lparr>ru_actor := ce_state ?x\<rparr>)" using assms(5) by (simp add: awaits_def)
  from snapshotter_ends [OF this, where S = S and N = N and ms = "ce_queue ?x" and evs = "[]"] obtain r' where
    r': "runner_init (snapshotter_hooks S N) N (r\<lparr>ru_actor := ce_state ?x\<rparr>) (map RMsg (ce_queue ?x) @ [RAction CStop]) = (r', [])"
    "ru_life r' = Terminated"
    "ru_actor r' = foldl (\<lambda>s m. snd (snapshotter_actor S s (am_sender m) (am_msg m))) (ce_state x) (ce_queue x @ [?m])"
    by auto
  note h = reliable_store.save_handled [OF assms(1,2) x(1)]
  have i: "I (sn_store (ru_actor r'))" "V (sn_store (ru_actor r')) 0 = Some d"
    using h(3,4) by (simp_all add: r'(3) actor_message_new_def)
  obtain c2 where "snap_init_state (household_ops S A w p) T fresh
      (close_snapshotter (type_name T) (ty_id T fresh) (ru_actor r') ?c1) = (Inr (), self, c2)"
    using reliable_store.start_after_close [OF assms(1) i(1)] i(2) assms(4) by metis
  with save_queues [where T = T and S = S and A = A and w = w and p = p, OF x assms(3)] r'(1,2) show ?thesis
    by (intro exI [of _ ?c1] exI [of _ ?x] exI [of _ r'] exI [of _ c2]) simp
qed

lemma new_house_snap_up: "snap_up memory_ops mem_inv new_house"
  using new_house_up by (auto simp: household_up_def snap_up_def)

definition waiting_snapshotter :: "((memory_store \<times> mem_heap) snapshotter, (nat, nat, nat, nat, (nat \<times> child_action) list) ctx) runner" where
  "waiting_snapshotter = \<lparr>ru_actor = snapshotter_new (sample_store, empty_heap),
     ru_path = ActorPath [''user'', ''snapshotter''],
     ru_ctx = ctx_new (ActorPath [''user'', ''snapshotter'']) (sup_new [] [] 1 []) (Some 0) config_default,
     ru_life = Started, ru_retries = 0, ru_init = False, ru_trace = []\<rparr>"

lemma waiting_snapshotter_awaits: "awaits waiting_snapshotter"
  by (simp add: awaits_def waiting_snapshotter_def ctx_has_childs_def sup_has_childs_def sup_get_childs_def
      ctx_new_def sup_new_def hm_keys_def)

theorem snapshot_actor_recovers_witness:
  "\<exists>c1 x r' c3. snap_save (household_ops memory_ops mem_archive no_files (ActorPath [''user''])) counter_type 9 new_house
      = (Inr (), c1) \<and> hh_snap c1 = Some x
    \<and> runner_init (snapshotter_hooks memory_ops log_net) log_net (waiting_snapshotter\<lparr>ru_actor := ce_state x\<rparr>)
        (map RMsg (ce_queue x) @ [RAction CStop]) = (r', [])
    \<and> snap_init_state (household_ops memory_ops mem_archive no_files (ActorPath [''user''])) counter_type 0
        (close_snapshotter (type_name counter_type) (ty_id counter_type 0) (ru_actor r') c1) = (Inr (), 9, c3)"
proof -
  have "ty_to_vec counter_type 9 = Inr [9]" "ty_from_slice counter_type [9] = Inr 9"
    by (simp_all add: counter_type_def byte_codec_def)
  from snapshot_actor_recovers [OF mem.reliable_store_axioms new_house_snap_up this waiting_snapshotter_awaits,
      where A = mem_archive and w = no_files and p = "ActorPath [''user'']" and N = log_net and fresh = 0]
  show ?thesis by blast
qed

text \<open>C39: also over a backend that accepts every write, the first save of an actor can be
  answered with success and lost. \<open>save\<close> only puts the state at the end of the snapshotter's mailbox; a stop request travels on another channel
  and the runner's \<open>select!\<close> takes either. When it takes the request before that message,
  whatever waited in front of it, the snapshotter terminates with the message unread and,
  as no snapshot had been stored before, the next \<open>init_state\<close> succeeds with the fresh
  state; had it taken the message first, the store would hold the state.\<close>

theorem queued_save_lost:
  assumes "reliable_store S I V" and "snap_up S I c"
    and "household_snaps S V c 0 = None" and "ty_to_vec T self = Inr d" and "awaits r"
  shows "\<exists>c1 x qs m r' c2 r''. snap_save (household_ops S A w p) T self c = (Inr (), c1)
    \<and> hh_snap c1 = Some x \<and> ce_queue x = qs @ [m] \<and> am_msg m = SaveSnapshot 0 d
    \<and> runner_init (snapshotter_hooks S N) N (r\<lparr>ru_actor := ce_state x\<rparr>) (map RMsg qs @ [RAction CStop, RMsg m]) = (r', [RMsg m])
    \<and> ru_life r' = Terminated
    \<and> snap_init_state (household_ops S A w p) T fresh
        (close_snapshotter (type_name T) (ty_id T fresh) (ru_actor r') c1) = (Inr (), fresh, c2)
    \<and> runner_init (snapshotter_hooks S N) N (r\<lparr>ru_actor := ce_state x\<rparr>) (map RMsg qs @ [RMsg m, RAction CStop]) = (r'', [])
    \<and> ru_life r'' = Terminated \<and> V (sn_store (ru_actor r'')) 0 = Some d"
proof -
  obtain x where x: "hh_snap c = Some x" "ce_open x" using assms(2) by (auto simp: snap_up_def)
  let ?m = "actor_message_new (path_div p ''snapshotter'') (SaveSnapshot 0 d) None"
  let ?x = "x\<lparr>ce_queue := ce_queue x @ [?m]\<rparr>" and ?c1 = "c\<lparr>hh_snap := Some (x\<lparr>ce_queue := ce_queue x @ [?m]\<rparr>)\<rparr>"
  let ?after = "\<lambda>ms. foldl (\<lambda>s m. snd (snapshotter_actor S s (am_sender m) (am_msg m))) (ce_state x) ms"
  have aw: "awaits (r\<lparr>ru_actor := ce_state ?x\<rparr>)" using assms(5) by (simp add: awaits_def)
  from snapshotter_ends [OF aw, where S = S and N = N and ms = "ce_queue x" and evs = "[RMsg ?m]"] obtain r' where
    r': "runner_init (snapshotter_hooks S N) N (r\<lparr>ru_actor := ce_state ?x\<rparr>) (map RMsg (ce_queue x) @ [RAction CStop, RMsg ?m]) = (r', [RMsg ?m])"
    "ru_life r' = Terminated" "ru_actor r' = ?after (ce_queue x)"
    by auto
  from snapshotter_ends [OF aw, where S = S and N = N and ms = "ce_queue x @ [?m]" and evs = "[]"] obtain r'' where
    r'': "runner_init (snapshotter_hooks S N) N (r\<lparr>ru_actor := ce_state ?x\<rparr>) (map RMsg (ce_queue x) @ [RMsg ?m, RAction CStop]) = (r'', [])"
    "ru_life r'' = Terminated" "ru_actor r'' = ?after (ce_queue x @ [?m])"
    by auto
  note h = reliable_store.save_handled [OF assms(1,2) x(1)]
  have "I (sn_store (ru_actor r'))" "V (sn_store (ru_actor r')) 0 = None"
    using h(1,2) assms(3) by (simp_all add: r'(3))
  then obtain c2 where "snap_init_state (household_ops S A w p) T fresh
      (close_snapshotter (type_name T) (ty_id T fresh) (ru_actor r') ?c1) = (Inr (), fresh, c2)"
    using reliable_store.start_after_close [OF assms(1)] by metis
  moreover have "V (sn_store (ru_actor r'')) 0 = Some d"
    using h(4) by (simp add: r''(3) actor_message_new_def)
  ultimately show ?thesis
    using save_queues [where T = T and S = S and A = A and w = w and p = p, OF x assms(4)] r'(1,2) r''(1,2)
    by (intro exI [of _ ?c1] exI [of _ ?x] exI [of _ "ce_queue x"] exI [of _ ?m] exI [of _ r'] exI [of _ c2] exI [of _ r''])
      (simp add: actor_message_new_def)
qed

theorem queued_save_lost_witness:
  "\<exists>c1 x qs m r' c2. snap_save (household_ops memory_ops mem_archive no_files (ActorPath [''user''])) counter_type 9 new_house
      = (Inr (), c1) \<and> hh_snap c1 = Some x \<and> ce_queue x = qs @ [m] \<and> am_msg m = SaveSnapshot 0 [9]
    \<and> runner_init (snapshotter_hooks memory_ops log_net) log_net (waiting_snapshotter\<lparr>ru_actor := ce_state x\<rparr>)
        (map RMsg qs @ [RAction CStop, RMsg m]) = (r', [RMsg m])
    \<and> snap_init_state (household_ops memory_ops mem_archive no_files (ActorPath [''user''])) counter_type 0
        (close_snapshotter (type_name counter_type) (ty_id counter_type 0) (ru_actor r') c1) = (Inr (), 0, c2)"
proof -
  have "household_snaps memory_ops mem_view new_house 0 = None" "ty_to_vec counter_type 9 = Inr [9]"
    by (simp_all add: counter_type_def)
  from queued_save_lost [OF mem.reliable_store_axioms new_house_snap_up this waiting_snapshotter_awaits,
      where A = mem_archive and w = no_files and p = "ActorPath [''user'']" and N = log_net and fresh = 0]
  show ?thesis by blast
qed

end
