(* ===== verification/Spec2Isabelle.thy ===== *)
theory Spec2Isabelle
  imports ActorTests Orders Reuse Snapshots
begin

text \<open>
  A model of Rush, an actor framework with persistent actors, and the theorems that say
  what its parts promise. The program has two crates. \<open>actor/src\<close> runs a tree of actors,
  each a task with a mailbox, a channel on which its children signal and a channel on which
  its parent gives orders; a registry shared by all maps paths to references.
  \<open>store/src\<close> gives an actor a journal of its events and snapshots of its state, both
  kept by child actors over a key-value store with an in-memory and an on-disk backend.

  \<^bold>\<open>The theories, bottom up.\<close>

  \<^item> \<open>Prelude\<close>: \<open>u64\<close> and bytes, Rust's \<open>Result\<close> as a sum whose left side is the error,
    strings as the list of their UTF-8 bytes with \<open>trim\<close>, \<open>split\<close>, decimal printing and
    parsing, sorted and numbered entries of a finite map, hash maps as association lists
    (\<open>hm_insert\<close>, \<open>hm_remove\<close>) where iteration order is visible.
  \<^item> \<open>Errors\<close> (\<open>actor/src/error.rs\<close>, \<open>store/src/error.rs\<close>): the enums, their texts and
    the adapters \<open>ResultExt\<close> that wrap an error under a context message.
  \<^item> \<open>Path\<close> (\<open>actor/src/path.rs\<close>): \<open>ActorPath\<close>, with parsing, printing and the tree
    relations, the ancestor test on printed text as the code has it.
  \<^item> \<open>Stores\<close> (\<open>store/src/stores/mod.rs\<close>): the \<open>Store\<close> trait as the record \<open>store_ops\<close>
    and its contract as the locales \<open>store_contract\<close> (what an operation that reports
    success has done) and \<open>reliable_store\<close> (writes below the key limit succeed): a store
    state has an invariant and denotes a finite map from keys to bytes.
    \<open>MemoryStore\<close> and \<open>FjallStore\<close> (\<open>memory.rs\<close>, \<open>fjall.rs\<close>) are the backends; each is
    shown to keep the contract. The database engine under the second is not in the
    repository: its keyspace is a parameter whose documented laws are the locale
    \<open>fjall_keyspace\<close>, and a sorted list of entries is an instance.
  \<^item> \<open>Journal\<close> and \<open>Snapshotter\<close> (\<open>journal.rs\<close>, \<open>snapshotter.rs\<close>): the two storage actors
    with all their messages, over any \<open>store_ops\<close>. Files and the gzip codec are the
    record \<open>archive_ops\<close>, what the disk keeps is the locale \<open>archive\<close>, and
    \<open>writable_archive\<close> one whose writes and opens succeed. What a reader delivers for a
    file is no law, since the import reads through the codec's write side: a
    theorem that depends on it assumes it of the file it reads.
  \<^item> \<open>Supervision\<close>, \<open>Handler\<close>, \<open>Supervisor\<close>, \<open>Context\<close>, \<open>Runner\<close>, \<open>System\<close>
    (\<open>supervision.rs\<close>; \<open>handler.rs\<close> and \<open>ActorRef\<close>; \<open>SupervicionHandler\<close>;
    \<open>ActorContext\<close> and the defaults of the trait \<open>Actor\<close>; \<open>runner.rs\<close>; \<open>System\<close>,
    \<open>SystemRunner\<close> and \<open>event.rs\<close>): the actor side.
  \<^item> \<open>SnapshotActor\<close>, \<open>Persist\<close> (\<open>snapshot.rs\<close>, \<open>persist.rs\<close>): the provided methods of the
    traits \<open>SnapshotActor\<close> and \<open>PersistentActor\<close>. What they need of their children is the
    record \<open>child_ops\<close>, with the locales \<open>snapshot_child\<close> and \<open>persistent_children\<close>.
  \<^item> \<open>Children\<close>: the models put together. A journal and a snapshotter behind their
    mailboxes, over stores that outlive the process, are shown to keep the contract of
    \<open>persistent_children\<close> over every reliable store; the end-to-end properties are here.
    \<open>Snapshots\<close>: a snapshotter under the real runner, with the order of its \<open>select!\<close>, and
    a \<open>SnapshotActor\<close> before and after a restart over it.
  \<^item> \<open>Backends\<close>: the two backends side by side, as answers to sequences of \<open>Store\<close> calls
    (locale \<open>faithful_store\<close>, and \<open>steady_keyspace\<close> for an engine whose writes succeed).
    \<open>Conformance\<close>: the unit tests of paths and strategies and the suite
    \<open>test_store_trait!\<close>, translated and shown to pass on the model. \<open>StorageTests\<close>: the asynchronous
    tests of the store crate as truth values, shown to hold over every reliable store,
    every writable archive and every codec that inverts its encoding. \<open>ActorTests\<close>: the
    tests of the actor crate that assert results, paths, registries and end states, those
    of concurrent callers for every interleaving; the assertions about log lines, and the tests
    of \<open>system.rs\<close> that follow messages, events, faults and restarts through a running
    system, are left out.
  \<^item> \<open>Events\<close>: an event from \<open>emit_event\<close> through the broadcast channel of a reference to
    the event managers (\<open>ActorRef::subscribe\<close>, \<open>clone\<close>, \<open>EventManager\<close>,
    \<open>System::add_event_handler\<close>). The channel is tokio's: its documented behaviour is the
    locale \<open>event_bus\<close>, and a log with one position per receiver is the instance. The
    properties are stated over every channel that keeps its laws, with emissions, the
    manager's reads and other tasks' use of the channel in any order.
  \<^item> \<open>Orders\<close>, \<open>Spawn\<close>, \<open>Cluster\<close>, \<open>Trees\<close>, \<open>Closing\<close>, \<open>Stops\<close>, \<open>Histories\<close>, \<open>Shutdown\<close>,
    \<open>Serving\<close>, \<open>Reuse\<close>: the runners put together.
    \<open>Orders\<close> follows a stop and a restart through one runner, up to what goes over the
    channels; \<open>Spawn\<close> closes
    \<open>create_actor\<close> over the runner that it starts; \<open>Cluster\<close> is a whole system, the
    system's runner and any number of actors over one registry and one set of channels,
    with the step relation \<open>cl_step\<close>; \<open>Trees\<close> has \<open>System::create_actor\<close> and
    \<open>ActorContext::create_child\<close> on it and what a consistent tree is; \<open>Closing\<close> follows the
    stop of a part of it, as a relation that every step keeps, with a measure that every step
    decreases; \<open>Stops\<close> shows that what a finished \<open>System::stop_actor\<close> leaves is
    consistent again; \<open>Histories\<close> are sequences of creations, stops and messages in which
    every stop is over before the next operation (\<open>cl_built\<close>); \<open>Shutdown\<close> follows the cancellation of a system and a stop out of any
    history; \<open>Serving\<close> follows the messages of a system that nobody stops; \<open>Reuse\<close> a
    creation under a name whose stop has only been requested.

  \<^bold>\<open>How state and effects are modelled.\<close> A struct is a record, a method with
  \<open>&mut self\<close> a function that returns the record updated, a \<open>Result\<close> a sum. What an
  actor does to the outside, sending on a channel or sleeping, acts on a world of
  arbitrary type through functions that are parameters (\<open>channel_ops\<close>, \<open>net_ops\<close>, a
  timer): a theorem holds for every behaviour of the channels its
  hypotheses allow. What is concurrent is a schedule: \<open>run_loop\<close> and \<open>system_run\<close> take
  the list of what their \<open>select!\<close> receives, in an arbitrary order, in which
  \<open>REnv\<close> and \<open>SysOther\<close> are arbitrary changes that other tasks make to the shared maps in
  between. A schedule that ends stands for a task that waits. \<open>create_actor\<close> runs
  the new actor's start through a parameter that may change the supervisor in any way,
  for the same reason; \<open>Spawn\<close> gives it the real runner. In \<open>Cluster\<close> nothing is left to
  the environment: a step takes one item off one channel and its receiver handles it to
  the end, or a runner makes a round that receives nothing, so the tasks interleave one
  \<open>select!\<close> branch at a time; the channels have room, so a send waits for nobody, and it
  fails exactly when the receiving task has ended. Theorems about a whole system assume
  that the actors' own methods do not create, stop or signal (\<open>tame_hooks\<close>,
  \<open>tame_start\<close>), which leaves out actors with children of their own making, the
  \<open>PersistentActor\<close>s among them; what such methods can do is shown on one runner. Log lines are left out; the field \<open>ru_trace\<close> of a runner records
  the calls others can observe and is read by no step.

  \<^bold>\<open>Integers and bounds.\<close> Sequence numbers and keys are 64-bit words and wrap as a release
  build does. Both backends print a key with fourteen digits, so text order is numeric
  order below \<open>key_limit\<close>, which is ten to the fourteen; theorems about scans and
  journals have that bound, and \<open>mem_last_beyond_limit\<close> shows that it is needed. Record
  lengths in an exported file are 32-bit words. Recursion that follows a list or a retry
  budget is structural; the receive loop of an event manager (\<open>answers\<close>) is bounded by a
  number of calls, and two more than the pending events are enough; \<open>runner_init\<close> ends because every round uses an item of the
  schedule, a retry or an edge of the lifecycle, and is defined with that measure, so no
  other fuel appears.

  \<^bold>\<open>What is shown.\<close>

  \<^item> Storage: both backends behave as finite maps with sorted scans; a journal answers
    every sequence of messages as a list does and survives reopening, and what it exports
    is read back as the same events by any reader that delivers the exported records; a
    snapshotter is a finite map.
  \<^item> Persistence: \<open>persist\<close> appends and then applies; after a history of successful
    persists whose snapshots and flushes come after its first event, one snapshot at least,
    restarting with drained mailboxes rebuilds the state (\<open>recovery_after_restart\<close>);
    \<open>recovery_drops_first_event\<close> and \<open>empty_snapshot_loses_event\<close> are two histories
    outside these conditions in which it does not. A \<open>SnapshotActor\<close> gets its last saved state back
    when its snapshotter has handled the save before it stops (\<open>snapshot_actor_recovers\<close>);
    a save that answers success is only queued, and a stop can overtake it
    (\<open>queued_save_lost\<close>).
  \<^item> Actors: a mailbox is first in, first out; retries are counted exactly; a runner
    ends or waits, answers its creator once, and reports its stop once exactly when it
    terminates; a supervisor holds a stop channel for each of its registered children,
    and for no other actor while nobody else removes its children from the registry.
  \<^item> Whole systems: creating an actor always gets an answer; after any history in which stops
    are over before the next operation, and with tame actors, a system
    is a well-formed tree (\<open>built_tree\<close>), also when names are used again; after a
    cancellation every interleaving is finite and ends with every actor terminated in order
    (\<open>shutdown_completes\<close>), though the order is not the one the code intends; stopping a
    top-level actor ends exactly the actors at and below its path, likewise, and leaves
    all others and the system running (\<open>stop_actor_subtree\<close>); while nobody is stopped
    every message is handled and every question answered (\<open>messages_answered\<close>); a subscriber is told events
    in the order they were emitted, without gaps as long as it keeps up, and in any case
    the last ones that the channel has room for (\<open>subscriber_notified\<close>).
  \<^item> Where the code promises more than it does, the theorem states what it does:
    the first child that stops ends its parent, shutdown does not wait, two creators of a
    path can race, a child that fails to start ends its creator, a stop request is lost at
    a child that is already gone, an actor created under a name before the system has
    handled the end of the one that had it runs on unregistered and out of reach of a
    shutdown (\<open>reused_name_lost\<close>), a store whose prefix extends another's is visible
    through it and a new journal takes over its events.

  \<^bold>\<open>What is not modelled.\<close> The channels, timers and tasks of tokio, the gzip codec, serde
  and the database engine, which other crates provide and which appear as parameters; the
  dynamic type test behind \<open>downcast_ref\<close>, a partial function given to the lookup; the
  crates' re-exports, the benchmarks and what the tests assert about log lines. A system is not modelled
  with full channels, and its histories have no failing starts, no actor that stops by
  itself or is stopped by its parent, and no creation while a stop is under way, of which
  \<open>Reuse\<close> follows one.
\<close>

end
